(* ===== verification/CP_Prelude.thy ===== *)
theory CP_Prelude
  imports Main "HOL-Library.Word" "HOL-Library.Monad_Syntax"
begin

text \<open>
  Shared ground of the development: names for the machine integers of the C
  sources, byte buffers with checked accesses, the byte orders of the wire
  formats, and the generic lemmas the component theories use.

  A read or write outside a buffer is undefined behaviour in C.  Every access
  of the model goes through \<open>rd8\<close>, \<open>rd16\<close>, \<open>rd32\<close>, \<open>rd_bytes\<close> or
  \<open>wr_bytes\<close>, which return \<^term>\<open>None\<close> outside the buffer, so that a theorem
  that an operation returns \<^term>\<open>Some y\<close> contains its memory safety.
\<close>

unbundle bit_operations_syntax

named_theorems mem_simps \<open>rules about checked buffer accesses\<close>
named_theorems wire_simps \<open>rules about the byte orders of the wire formats\<close>

type_synonym u8 = "8 word"
type_synonym u16 = "16 word"
type_synonym u32 = "32 word"
type_synonym u64 = "64 word"
type_synonym i32 = "32 word"
type_synonym bytes = "u8 list"

text \<open>\<open>struct timeval\<close> and libpcap's \<open>struct pcap_pkthdr\<close>, which the capturers hand to
  every later stage.\<close>

record timeval =
  tv_sec :: int
  tv_usec :: int

record pcap_pkthdr =
  ph_ts :: timeval
  ph_caplen :: u32
  ph_len :: u32

section \<open>Byte orders\<close>

text \<open>\<open>ntohs\<close>, \<open>htons\<close>, \<open>ntohl\<close> and \<open>htonl\<close> on the bytes in memory, and the
  little-endian load the checksum code does (the supported hosts are
  little-endian).\<close>

definition of_be16 :: "u8 \<Rightarrow> u8 \<Rightarrow> u16" where
  "of_be16 a b = ucast a * 256 + ucast b"

definition of_be32 :: "u8 \<Rightarrow> u8 \<Rightarrow> u8 \<Rightarrow> u8 \<Rightarrow> u32" where
  "of_be32 a b c d = ucast a * 16777216 + ucast b * 65536 + ucast c * 256 + ucast d"

definition of_le16 :: "u8 \<Rightarrow> u8 \<Rightarrow> u16" where
  "of_le16 a b = of_be16 b a"

definition be16 :: "u16 \<Rightarrow> bytes" where
  "be16 w = [ucast (drop_bit 8 w), ucast w]"

definition be32 :: "u32 \<Rightarrow> bytes" where
  "be32 w = [ucast (drop_bit 24 w), ucast (drop_bit 16 w), ucast (drop_bit 8 w), ucast w]"

definition le16 :: "u16 \<Rightarrow> bytes" where
  "le16 w = [ucast w, ucast (drop_bit 8 w)]"

definition bswap16 :: "u16 \<Rightarrow> u16" where
  "bswap16 w = of_be16 (ucast w) (ucast (drop_bit 8 w))"

lemma unat_less: "unat (w :: 'a::len word) < 2 ^ LENGTH('a)"
  by (rule unsigned_less)

lemma unat_u8_lt [simp]: "unat (a :: u8) < 256"
  using unat_less [of a] by simp

lemma unat_u16_lt [simp]: "unat (a :: u16) < 65536"
  using unat_less [of a] by simp

lemma unat_u32_lt [simp]: "unat (a :: u32) < 4294967296"
  using unat_less [of a] by simp

lemma unat_u64_lt [simp]: "unat (a :: u64) < 18446744073709551616"
  using unat_less [of a] by simp

lemma unat_ucast: "unat (ucast (w :: 'a::len word) :: 'b::len word) = unat w mod 2 ^ LENGTH('b)"
  by (simp add: unsigned_ucast_eq take_bit_eq_mod)

lemma unat_ucast_up:
  "LENGTH('a) \<le> LENGTH('b) \<Longrightarrow> unat (ucast (w :: 'a::len word) :: 'b::len word) = unat w"
  unfolding unat_ucast
  by (rule mod_less) (meson unat_less less_le_trans one_le_numeral power_increasing)

lemma unat_ucast8_16 [simp]: "unat (ucast (a :: u8) :: u16) = unat a"
  by (rule unat_ucast_up) simp

lemma unat_ucast8_32 [simp]: "unat (ucast (a :: u8) :: u32) = unat a"
  by (rule unat_ucast_up) simp

lemma unat_ucast16_32 [simp]: "unat (ucast (a :: u16) :: u32) = unat a"
  by (rule unat_ucast_up) simp

lemma unat_drop_bit: "unat (drop_bit n w) = unat (w :: 'a::len word) div 2 ^ n"
proof -
  have "take_bit LENGTH('a) (unat w) = unat w"
    by (simp add: take_bit_eq_mod unat_less)
  then show ?thesis unfolding unsigned_drop_bit_eq by (simp add: drop_bit_eq_div)
qed

lemma unat_add16: "unat a + unat b \<le> 65535 \<Longrightarrow> unat (a + b :: u16) = unat a + unat b"
  by (simp add: unat_word_ariths)

lemma unat_of_be16 [wire_simps]: "unat (of_be16 a b) = 256 * unat a + unat b"
proof -
  have "unat a < 256" "unat b < 256" by simp_all
  then have "unat a * 256 + unat b < 65536" by linarith
  then show ?thesis by (simp add: of_be16_def unat_word_ariths)
qed

lemma unat_of_be32 [wire_simps]:
  "unat (of_be32 a b c d) = 16777216 * unat a + 65536 * unat b + 256 * unat c + unat d"
proof -
  have "unat a < 256" "unat b < 256" "unat c < 256" "unat d < 256" by simp_all
  then have "unat a * 16777216 + unat b * 65536 + unat c * 256 + unat d < 4294967296"
    by linarith
  then show ?thesis by (simp add: of_be32_def unat_word_ariths)
qed

lemma unat_of_le16 [wire_simps]: "unat (of_le16 a b) = unat a + 256 * unat b"
  by (simp add: of_le16_def unat_of_be16)

lemma of_be16_be16 [wire_simps]: "of_be16 (ucast (drop_bit 8 w)) (ucast w) = w"
proof (rule word_unat_eq_iff [THEN iffD2])
  have "unat w div 256 < 256" using unat_u16_lt [of w] by (simp add: less_mult_imp_div_less)
  then show "unat (of_be16 (ucast (drop_bit 8 w)) (ucast w)) = unat w"
    by (simp add: unat_of_be16 unat_ucast unat_drop_bit)
qed

lemma nat_digits256:
  "n mod 256 + 256 * (n div 256 mod 256) + 65536 * (n div 65536 mod 256)
     + 16777216 * (n div 16777216) = (n :: nat)"
proof -
  define a b c where "a = n div 256" and "b = a div 256" and "c = b div 256"
  define x y z where "x = n mod 256" and "y = a mod 256" and "z = b mod 256"
  have e: "n div 65536 = b" "n div 16777216 = c"
    by (simp_all add: a_def b_def c_def div_mult2_eq [symmetric])
  have "256 * a + x = n" "256 * b + y = a" "256 * c + z = b"
    unfolding a_def b_def c_def x_def y_def z_def by (rule mult_div_mod_eq)+
  then have "x + 256 * y + 65536 * z + 16777216 * c = n" by linarith
  then show ?thesis unfolding e x_def y_def z_def a_def .
qed

lemma of_be32_be32 [wire_simps]:
  "of_be32 (ucast (drop_bit 24 w)) (ucast (drop_bit 16 w)) (ucast (drop_bit 8 w)) (ucast w) = w"
proof (rule word_unat_eq_iff [THEN iffD2])
  have "unat w div 16777216 < 256"
    using unat_u32_lt [of w] by (simp add: less_mult_imp_div_less)
  then show "unat (of_be32 (ucast (drop_bit 24 w)) (ucast (drop_bit 16 w))
          (ucast (drop_bit 8 w)) (ucast w)) = unat w"
    using nat_digits256 [of "unat w"] by (simp add: unat_of_be32 unat_ucast unat_drop_bit)
qed

lemma length_be [simp]: "length (be16 w) = 2" "length (be32 v) = 4" "length (le16 w) = 2"
  by (simp_all add: be16_def be32_def le16_def)

section \<open>Checked buffer accesses\<close>

definition rd8 :: "bytes \<Rightarrow> nat \<Rightarrow> u8 option" where
  "rd8 bs i = (if i < length bs then Some (bs ! i) else None)"

definition rd16 :: "bytes \<Rightarrow> nat \<Rightarrow> u16 option" where
  "rd16 bs i = do { a \<leftarrow> rd8 bs i; b \<leftarrow> rd8 bs (i + 1); Some (of_be16 a b) }"

definition rd32 :: "bytes \<Rightarrow> nat \<Rightarrow> u32 option" where
  "rd32 bs i = do { a \<leftarrow> rd8 bs i; b \<leftarrow> rd8 bs (i + 1); c \<leftarrow> rd8 bs (i + 2);
                    d \<leftarrow> rd8 bs (i + 3); Some (of_be32 a b c d) }"

definition rd_bytes :: "bytes \<Rightarrow> nat \<Rightarrow> nat \<Rightarrow> bytes option" where
  "rd_bytes bs i n = (if i + n \<le> length bs then Some (take n (drop i bs)) else None)"

definition put :: "bytes \<Rightarrow> nat \<Rightarrow> bytes \<Rightarrow> bytes" where
  "put bs i xs = take i bs @ xs @ drop (i + length xs) bs"

definition wr_bytes :: "bytes \<Rightarrow> nat \<Rightarrow> bytes \<Rightarrow> bytes option" where
  "wr_bytes bs i xs = (if i + length xs \<le> length bs then Some (put bs i xs) else None)"

lemma rd8_in [mem_simps]: "i < length bs \<Longrightarrow> rd8 bs i = Some (bs ! i)"
  by (simp add: rd8_def)

lemma rd8_out [mem_simps]: "length bs \<le> i \<Longrightarrow> rd8 bs i = None"
  by (simp add: rd8_def)

lemma rd16_in [mem_simps]:
  "i + 1 < length bs \<Longrightarrow> rd16 bs i = Some (of_be16 (bs ! i) (bs ! (i + 1)))"
  by (simp add: rd16_def rd8_in)

lemma rd32_in [mem_simps]:
  "i + 3 < length bs \<Longrightarrow>
     rd32 bs i = Some (of_be32 (bs ! i) (bs ! (i + 1)) (bs ! (i + 2)) (bs ! (i + 3)))"
  by (simp add: rd32_def rd8_in)

lemma rd_bytes_in [mem_simps]:
  "i + n \<le> length bs \<Longrightarrow> rd_bytes bs i n = Some (take n (drop i bs))"
  by (simp add: rd_bytes_def)

lemma wr_bytes_in [mem_simps]:
  "i + length xs \<le> length bs \<Longrightarrow> wr_bytes bs i xs = Some (put bs i xs)"
  by (simp add: wr_bytes_def)

lemma rd8_SomeD: "rd8 bs i = Some v \<Longrightarrow> i < length bs \<and> v = bs ! i"
  by (simp add: rd8_def split: if_splits)

lemma rd_bytes_SomeD: "rd_bytes bs i n = Some v \<Longrightarrow> i + n \<le> length bs \<and> v = take n (drop i bs)"
  by (simp add: rd_bytes_def split: if_splits)

lemma wr_bytes_SomeD:
  "wr_bytes bs i xs = Some v \<Longrightarrow> i + length xs \<le> length bs \<and> v = put bs i xs"
  by (simp add: wr_bytes_def split: if_splits)

lemma length_put [simp]: "i + length xs \<le> length bs \<Longrightarrow> length (put bs i xs) = length bs"
  by (simp add: put_def)

lemma nth_put:
  assumes "i + length xs \<le> length bs" "j < length bs"
  shows "put bs i xs ! j = (if j < i then bs ! j else if j < i + length xs then xs ! (j - i) else bs ! j)"
  using assms by (auto simp: put_def nth_append min_def)

lemma take_drop_put_same [simp]:
  "i + length xs \<le> length bs \<Longrightarrow> n = length xs \<Longrightarrow> take n (drop i (put bs i xs)) = xs"
  by (simp add: put_def)

lemma take_drop_put_other:
  assumes "i + length xs \<le> length bs" "j + n \<le> i \<or> i + length xs \<le> j" "j + n \<le> length bs"
  shows "take n (drop j (put bs i xs)) = take n (drop j bs)"
  using assms by (intro nth_equalityI) (auto simp: nth_put)

lemma put_append:
  "i + length xs \<le> length bs \<Longrightarrow> put (bs @ cs) i xs = put bs i xs @ cs"
  by (simp add: put_def)

lemma put_nil [simp]: "put bs i [] = bs"
  by (simp add: put_def)

section \<open>Invariants of step relations\<close>

lemma rtranclp_inv:
  assumes "r\<^sup>*\<^sup>* a b" "I a" "\<And>x y. r x y \<Longrightarrow> I x \<Longrightarrow> I y"
  shows "I b"
  using assms(1,2) by (induction rule: rtranclp_induct) (auto intro: assms(3))

section \<open>Decimal text\<close>

text \<open>The \<open>%d\<close> and \<open>%lu\<close> conversions of the \<open>printf\<close> family.\<close>

definition digit_char :: "nat \<Rightarrow> char" where
  "digit_char d = char_of (48 + d)"

fun dec_nat :: "nat \<Rightarrow> string" where
  "dec_nat n = (if n < 10 then [digit_char n] else dec_nat (n div 10) @ [digit_char (n mod 10)])"

definition dec_int :: "int \<Rightarrow> string" where
  "dec_int i = (if i < 0 then ''-'' @ dec_nat (nat (- i)) else dec_nat (nat i))"

declare dec_nat.simps [simp del]

lemma digit_char_inj: "a < 10 \<Longrightarrow> b < 10 \<Longrightarrow> digit_char a = digit_char b \<longleftrightarrow> a = b"
  by (simp add: digit_char_def)

lemma dec_nat_inj: "dec_nat m = dec_nat n \<longleftrightarrow> m = n"
proof (induction m arbitrary: n rule: dec_nat.induct)
  case (1 m)
  have ne: "dec_nat k \<noteq> []" for k by (subst dec_nat.simps) simp
  show ?case
  proof (cases "m < 10")
    case True
    then show ?thesis using ne [of "n div 10"] digit_char_inj [of m n]
      by (subst (1 2) dec_nat.simps) (auto simp: append_eq_Cons_conv Cons_eq_append_conv)
  next
    case False
    have "dec_nat m = dec_nat n \<longleftrightarrow> \<not> n < 10 \<and> dec_nat (m div 10) = dec_nat (n div 10) \<and> m mod 10 = n mod 10"
      using False ne [of "m div 10"] digit_char_inj [of "m mod 10" "n mod 10"]
      by (subst (1 2) dec_nat.simps) (auto simp: append_eq_Cons_conv)
    also have "\<dots> \<longleftrightarrow> m = n"
      using 1 [OF False, of "n div 10"] False by (metis mult_div_mod_eq)
    finally show ?thesis .
  qed
qed

section \<open>Character classes\<close>

text \<open>\<open>isspace\<close>, \<open>isdigit\<close> and \<open>isalnum\<close> of the C locale, the value of a hexadecimal digit and the digit of a value, and the value
  of a run of decimal digits as \<open>strtol\<close> computes it before its range check.\<close>

definition is_space :: "char \<Rightarrow> bool" where
  "is_space c \<longleftrightarrow> (let n = of_char c :: nat in n = 32 \<or> (9 \<le> n \<and> n \<le> 13))"

definition is_digit :: "char \<Rightarrow> bool" where
  "is_digit c \<longleftrightarrow> (let n = of_char c :: nat in 48 \<le> n \<and> n \<le> 57)"

definition is_alnum :: "char \<Rightarrow> bool" where
  "is_alnum c \<longleftrightarrow> is_digit c \<or> (let n = of_char c :: nat in (65 \<le> n \<and> n \<le> 90) \<or> (97 \<le> n \<and> n \<le> 122))"

definition hex_val :: "char \<Rightarrow> nat option" where
  "hex_val c = (let n = of_char c :: nat in
     if 48 \<le> n \<and> n \<le> 57 then Some (n - 48)
     else if 97 \<le> n \<and> n \<le> 102 then Some (n - 87)
     else if 65 \<le> n \<and> n \<le> 70 then Some (n - 55)
     else None)"

definition hex_digit :: "u8 \<Rightarrow> char" where
  "hex_digit v = ''0123456789abcdef'' ! unat v"

definition digits_val :: "string \<Rightarrow> nat" where
  "digits_val s = foldl (\<lambda>n c. 10 * n + (of_char c - 48)) 0 s"

lemma digit_char_digit: "d < 10 \<Longrightarrow> is_digit (digit_char d)" "d < 10 \<Longrightarrow> of_char (digit_char d) = 48 + d"
  by (simp_all add: is_digit_def digit_char_def)

lemma dec_nat_digits: "\<forall>c \<in> set (dec_nat n). is_digit c"
proof (induction n rule: dec_nat.induct)
  case (1 n)
  then show ?case using digit_char_digit(1) [of n] digit_char_digit(1) [of "n mod 10"]
    by (subst dec_nat.simps) auto
qed

lemma digits_val_dec_nat [simp]: "digits_val (dec_nat n) = n"
proof (induction n rule: dec_nat.induct)
  case (1 n)
  then show ?case using digit_char_digit(2) [of n] digit_char_digit(2) [of "n mod 10"]
    by (subst dec_nat.simps) (simp add: digits_val_def)
qed

lemma dec_nat_nonempty [simp]: "dec_nat n \<noteq> []"
  by (subst dec_nat.simps) simp

lemma dec_nat_leading: "hd (dec_nat n) = CHR ''0'' \<Longrightarrow> n = 0 \<and> dec_nat n = ''0''"
proof (induction n rule: dec_nat.induct)
  case (1 n)
  show ?case
  proof (cases "n < 10")
    case True
    have "of_char (digit_char n) = (48 :: nat)" using True 1(2) by (subst (asm) dec_nat.simps) simp
    then have "n = 0" using digit_char_digit(2) [OF True] by simp
    moreover have "char_of (48 :: nat) = CHR ''0''" by code_simp
    ultimately show ?thesis by (simp add: dec_nat.simps digit_char_def)
  next
    case False
    have "hd (dec_nat (n div 10)) = CHR ''0''" using False 1(2) by (subst (asm) dec_nat.simps) simp
    then have "n div 10 = 0" using 1(1) [OF False] by simp
    then show ?thesis using False by simp
  qed
qed

end
