(* ===== verification/Stats.thy ===== *)
theory Stats
  imports CP_Prelude "HOL-Library.Multiset"
begin

text \<open>
  \<open>stats.c\<close>/\<open>stats.h\<close>: the traffic counters.  A counter is split in a low word
  below a radix (\<open>EIB_IN_BYTES\<close> for bytes, \<open>PETA_IN_PACKETS\<close> for packets) and a
  high word counting whole radix units, both \<open>uint64_t\<close>.  The locale
  \<open>split_counter\<close> is the contract the rest of the program relies on; the two
  counters of the code are its interpretations.
\<close>

definition EIB_IN_BYTES :: u64 where
  "EIB_IN_BYTES = 1024 * 1024 * 1024 * 1024 * 1024 * 1024"

definition PETA_IN_PACKETS :: u64 where
  "PETA_IN_PACKETS = 10000000000000000"

record bytes_stats =
  bs_bytes :: u64
  bs_eib :: u64

record packets_stats =
  ps_packets :: u64
  ps_peta :: u64

definition bytes_stats_add :: "bytes_stats \<Rightarrow> u64 \<Rightarrow> bytes_stats" where
  "bytes_stats_add stat bytes =
    (let new_eib = bytes div EIB_IN_BYTES;
         new_bytes = bytes mod EIB_IN_BYTES;
         b = bs_bytes stat + new_bytes
     in if b \<ge> EIB_IN_BYTES
        then stat\<lparr>bs_bytes := b - EIB_IN_BYTES, bs_eib := bs_eib stat + (new_eib + 1)\<rparr>
        else stat\<lparr>bs_bytes := b, bs_eib := bs_eib stat + new_eib\<rparr>)"

definition bytes_stats_merge :: "bytes_stats \<Rightarrow> bytes_stats \<Rightarrow> bytes_stats" where
  "bytes_stats_merge dst src =
    (let total_bytes = bs_bytes dst + bs_bytes src;
         carry = total_bytes div EIB_IN_BYTES
     in dst\<lparr>bs_bytes := total_bytes mod EIB_IN_BYTES,
            bs_eib := bs_eib dst + (bs_eib src + carry)\<rparr>)"

definition packets_stats_add :: "packets_stats \<Rightarrow> u64 \<Rightarrow> packets_stats" where
  "packets_stats_add stat packets =
    (let new_peta = packets div PETA_IN_PACKETS;
         new_packets = packets mod PETA_IN_PACKETS;
         p = ps_packets stat + new_packets
     in if p \<ge> PETA_IN_PACKETS
        then stat\<lparr>ps_packets := p - PETA_IN_PACKETS, ps_peta := ps_peta stat + (new_peta + 1)\<rparr>
        else stat\<lparr>ps_packets := p, ps_peta := ps_peta stat + new_peta\<rparr>)"

definition packets_stats_merge :: "packets_stats \<Rightarrow> packets_stats \<Rightarrow> packets_stats" where
  "packets_stats_merge dst src =
    (let total_packets = ps_packets dst + ps_packets src;
         carry = total_packets div PETA_IN_PACKETS
     in dst\<lparr>ps_packets := total_packets mod PETA_IN_PACKETS,
            ps_peta := ps_peta dst + (ps_peta src + carry)\<rparr>)"

record capture_stats =
  cap_bytes :: bytes_stats
  cap_packets :: packets_stats
  drop_packets :: packets_stats
  ifdrop_packets :: packets_stats

record output_stats =
  fwd_bytes :: bytes_stats
  fwd_packets :: packets_stats
  direction_drop_bytes :: bytes_stats
  direction_drop_packets :: packets_stats
  error_drop_bytes :: bytes_stats
  error_drop_packets :: packets_stats
  ratelimit_drop_bytes :: bytes_stats
  ratelimit_drop_packets :: packets_stats
  heartbeat_packets :: packets_stats

record pipeline_buffer_stats =
  ring_total :: u64
  ring_used :: u64
  mem_total :: u64
  mem_used :: u64

section \<open>The split-counter contract\<close>

text \<open>The number a counter stands for, and the well-formedness of its low word.\<close>

definition bytes_val :: "bytes_stats \<Rightarrow> nat" where
  "bytes_val s = unat (bs_eib s) * 2 ^ 60 + unat (bs_bytes s)"

definition bytes_inv :: "bytes_stats \<Rightarrow> bool" where
  "bytes_inv s \<longleftrightarrow> bs_bytes s < EIB_IN_BYTES"

definition packets_val :: "packets_stats \<Rightarrow> nat" where
  "packets_val s = unat (ps_peta s) * 10 ^ 16 + unat (ps_packets s)"

definition packets_inv :: "packets_stats \<Rightarrow> bool" where
  "packets_inv s \<longleftrightarrow> ps_packets s < PETA_IN_PACKETS"

locale split_counter =
  fixes add :: "'s \<Rightarrow> u64 \<Rightarrow> 's"
    and merge :: "'s \<Rightarrow> 's \<Rightarrow> 's"
    and val :: "'s \<Rightarrow> nat"
    and inv :: "'s \<Rightarrow> bool"
    and capacity :: nat
  assumes val_less: "inv s \<Longrightarrow> val s < capacity"
    and add_inv: "inv s \<Longrightarrow> inv (add s n)"
    and add_val: "inv s \<Longrightarrow> val (add s n) = (val s + unat n) mod capacity"
    and merge_inv: "inv s \<Longrightarrow> inv t \<Longrightarrow> inv (merge s t)"
    and merge_val: "inv s \<Longrightarrow> inv t \<Longrightarrow> val (merge s t) = (val s + val t) mod capacity"
    and val_inject: "inv s \<Longrightarrow> inv t \<Longrightarrow> val s = val t \<Longrightarrow> s = t"
begin

lemma foldl_add:
  "inv s \<Longrightarrow> inv (foldl add s ns) \<and>
     val (foldl add s ns) = (val s + sum_list (map unat ns)) mod capacity"
  by (induction ns arbitrary: s)
     (simp_all add: val_less add_inv add_val mod_add_left_eq add.assoc)

lemma add_exact:
  "inv s \<Longrightarrow> val s + sum_list (map unat ns) < capacity \<Longrightarrow>
     val (foldl add s ns) = val s + sum_list (map unat ns)"
  by (simp add: foldl_add)

lemma merge_commute: "inv s \<Longrightarrow> inv t \<Longrightarrow> merge s t = merge t s"
  by (rule val_inject) (simp_all add: merge_inv merge_val add.commute)

lemma merge_assoc:
  "inv s \<Longrightarrow> inv t \<Longrightarrow> inv u \<Longrightarrow> merge (merge s t) u = merge s (merge t u)"
  by (rule val_inject) (simp_all add: merge_inv merge_val mod_add_left_eq mod_add_right_eq add.assoc)

lemma foldl_merge:
  "inv s \<Longrightarrow> (\<And>t. t \<in> set ts \<Longrightarrow> inv t) \<Longrightarrow> inv (foldl merge s ts) \<and>
     val (foldl merge s ts) = (val s + sum_list (map val ts)) mod capacity"
  by (induction ts arbitrary: s)
     (simp_all add: val_less merge_inv merge_val mod_add_left_eq add.assoc)

lemma order_irrelevant:
  assumes "inv s" "mset ns = mset ms"
  shows "foldl add s ns = foldl add s ms"
proof (rule val_inject)
  have "sum_list (map unat ns) = sum_list (map unat ms)"
    using assms(2) by (metis mset_map sum_mset_sum_list)
  then show "val (foldl add s ns) = val (foldl add s ms)"
    using assms(1) by (simp add: foldl_add)
qed (simp_all add: foldl_add assms(1))

end

section \<open>Both counters of the code keep the contract\<close>

lemma radix_mod:
  fixes h l r :: nat
  assumes "l < r"
  shows "(h mod 2 ^ 64) * r + l = (h * r + l) mod (2 ^ 64 * r)"
proof -
  have "(h * r + l) mod (r * 2 ^ 64) = r * ((h * r + l) div r mod 2 ^ 64) + (h * r + l) mod r"
    by (rule mod_mult2_eq)
  with assms show ?thesis by (simp add: mult.commute)
qed

lemma unat_add_radix:
  fixes a b R :: u64
  assumes "a < R" "b < R" "unat R \<le> 2 ^ 62"
  shows "unat (a + b) = unat a + unat b"
proof -
  have "unat a < unat R" "unat b < unat R" using assms by (simp_all add: word_less_nat_alt)
  with assms(3) show ?thesis by (simp add: unat_word_ariths)
qed

lemma split_add_carry:
  fixes lo hi n R :: u64
  assumes lo: "lo < R" and R: "unat R \<le> 2 ^ 62" and c: "R \<le> lo + n mod R"
  shows "lo + n mod R - R < R"
    and "unat (hi + (n div R + 1)) * unat R + unat (lo + n mod R - R)
           = (unat hi * unat R + unat lo + unat n) mod (2 ^ 64 * unat R)"
proof -
  have R0: "0 < unat R" using lo by (simp add: word_less_nat_alt)
  have m: "n mod R < R" using R0 by (simp add: word_less_nat_alt unat_mod)
  let ?x = "unat lo + unat n mod unat R"
  have b: "unat (lo + n mod R) = ?x"
    using unat_add_radix [OF lo m R] by (simp add: unat_mod)
  have ge: "unat R \<le> ?x" using c b by (simp add: word_le_nat_alt)
  have s: "unat (lo + n mod R - R) = ?x - unat R"
    using c b by (simp add: unat_sub_if_size word_le_nat_alt)
  have lt: "?x - unat R < unat R"
    using lo [unfolded word_less_nat_alt] mod_less_divisor [OF R0, of "unat n"] ge by linarith
  then show "lo + n mod R - R < R" using s by (simp add: word_less_nat_alt)
  let ?h = "unat hi + unat n div unat R + 1"
  have h: "unat (hi + (n div R + 1)) = ?h mod 2 ^ 64"
    by (simp add: unat_word_ariths unat_div mod_simps add.assoc)
  have "?h * unat R + (?x - unat R)
          = unat hi * unat R + unat lo + (unat n div unat R * unat R + unat n mod unat R)"
    using ge by (simp only: add_mult_distrib)
  then have "?h * unat R + (?x - unat R) = unat hi * unat R + unat lo + unat n"
    by (simp only: div_mult_mod_eq)
  then show "unat (hi + (n div R + 1)) * unat R + unat (lo + n mod R - R)
           = (unat hi * unat R + unat lo + unat n) mod (2 ^ 64 * unat R)"
    unfolding h s using radix_mod [OF lt, of ?h] by simp
qed

lemma split_add_nocarry:
  fixes lo hi n R :: u64
  assumes lo: "lo < R" and R: "unat R \<le> 2 ^ 62" and c: "lo + n mod R < R"
  shows "unat (hi + n div R) * unat R + unat (lo + n mod R)
           = (unat hi * unat R + unat lo + unat n) mod (2 ^ 64 * unat R)"
proof -
  have R0: "0 < unat R" using lo by (simp add: word_less_nat_alt)
  have m: "n mod R < R" using R0 by (simp add: word_less_nat_alt unat_mod)
  let ?x = "unat lo + unat n mod unat R" and ?h = "unat hi + unat n div unat R"
  have b: "unat (lo + n mod R) = ?x"
    using unat_add_radix [OF lo m R] by (simp add: unat_mod)
  have lt: "?x < unat R" using c b by (simp add: word_less_nat_alt)
  have h: "unat (hi + n div R) = ?h mod 2 ^ 64"
    by (simp add: unat_word_ariths unat_div mod_simps)
  have e: "?h * unat R + ?x = unat hi * unat R + unat lo + unat n"
    using div_mult_mod_eq [of "unat n" "unat R"] by (simp add: algebra_simps)
  show ?thesis unfolding h b radix_mod [OF lt, of ?h] e ..
qed

lemma split_merge:
  fixes lo hi lo' hi' R :: u64
  assumes lo: "lo < R" and lo': "lo' < R" and R: "unat R \<le> 2 ^ 62"
  shows "unat (hi + (hi' + (lo + lo') div R)) * unat R + unat ((lo + lo') mod R)
           = (unat hi * unat R + unat lo + (unat hi' * unat R + unat lo')) mod (2 ^ 64 * unat R)"
proof -
  have R0: "0 < unat R" using lo by (simp add: word_less_nat_alt)
  let ?t = "unat lo + unat lo'"
  let ?h = "unat hi + unat hi' + ?t div unat R"
  note t = unat_add_radix [OF lo lo' R]
  have h: "unat (hi + (hi' + (lo + lo') div R)) = ?h mod 2 ^ 64"
    using t by (simp add: unat_word_ariths unat_div mod_simps add.assoc)
  have l: "unat ((lo + lo') mod R) = ?t mod unat R"
    using t by (simp add: unat_mod)
  have "?h * unat R + ?t mod unat R
          = unat hi * unat R + unat lo + (unat hi' * unat R + unat lo')"
    using div_mult_mod_eq [of ?t "unat R"] by (simp add: algebra_simps)
  then show ?thesis unfolding h l
    using radix_mod [of "?t mod unat R" "unat R" ?h] R0 by simp
qed

lemma split_inject:
  fixes lo hi lo' hi' R :: u64
  assumes "lo < R" "lo' < R" "unat hi * unat R + unat lo = unat hi' * unat R + unat lo'"
  shows "hi = hi' \<and> lo = lo'"
proof -
  have l: "unat lo < unat R" "unat lo' < unat R" using assms by (simp_all add: word_less_nat_alt)
  have "(unat hi * unat R + unat lo) div unat R = (unat hi' * unat R + unat lo') div unat R"
    "(unat hi * unat R + unat lo) mod unat R = (unat hi' * unat R + unat lo') mod unat R"
    using assms(3) by simp_all
  with l have "unat hi = unat hi'" "unat lo = unat lo'" by simp_all
  then show ?thesis by (simp add: word_unat_eq_iff)
qed

lemma split_val_less:
  fixes lo hi R :: u64
  assumes "lo < R"
  shows "unat hi * unat R + unat lo < 2 ^ 64 * unat R"
proof -
  have "unat hi < 2 ^ 64" by simp
  then have "Suc (unat hi) * unat R \<le> 2 ^ 64 * unat R" by (intro mult_le_mono1 Suc_leI)
  with assms [unfolded word_less_nat_alt] show ?thesis unfolding mult_Suc by linarith
qed

lemma radix_facts:
  "unat EIB_IN_BYTES = 2 ^ 60" "unat PETA_IN_PACKETS = 10 ^ 16"
  "unat EIB_IN_BYTES \<le> 2 ^ 62" "unat PETA_IN_PACKETS \<le> 2 ^ 62"
  by (simp_all add: EIB_IN_BYTES_def PETA_IN_PACKETS_def)

lemmas split_bytes [simplified radix_facts(1)] =
  split_val_less [where R = EIB_IN_BYTES]
  split_add_carry(2) [where R = EIB_IN_BYTES]
  split_add_nocarry [where R = EIB_IN_BYTES]
  split_merge [where R = EIB_IN_BYTES]
  split_inject [where R = EIB_IN_BYTES]

lemmas split_packets [simplified radix_facts(2)] =
  split_val_less [where R = PETA_IN_PACKETS]
  split_add_carry(2) [where R = PETA_IN_PACKETS]
  split_add_nocarry [where R = PETA_IN_PACKETS]
  split_merge [where R = PETA_IN_PACKETS]
  split_inject [where R = PETA_IN_PACKETS]

interpretation bytes_counter:
  split_counter bytes_stats_add bytes_stats_merge bytes_val bytes_inv "2 ^ 64 * 2 ^ 60"
proof unfold_locales
  fix s t :: bytes_stats and n :: u64
  assume s: "bytes_inv s"
  then have lo: "bs_bytes s < EIB_IN_BYTES" by (simp add: bytes_inv_def)
  show "bytes_val s < 2 ^ 64 * 2 ^ 60"
    using split_bytes(1) [OF lo, of "bs_eib s"] by (simp add: bytes_val_def)
  show "bytes_inv (bytes_stats_add s n)"
    using split_add_carry(1) [OF lo radix_facts(3)]
    by (auto simp: bytes_inv_def bytes_stats_add_def Let_def)
  show "bytes_val (bytes_stats_add s n) = (bytes_val s + unat n) mod (2 ^ 64 * 2 ^ 60)"
    using split_bytes(2,3) [OF lo, of n "bs_eib s"] radix_facts(3)
    by (auto simp: bytes_val_def bytes_stats_add_def Let_def not_le)
  assume t: "bytes_inv t"
  then have lo': "bs_bytes t < EIB_IN_BYTES" by (simp add: bytes_inv_def)
  show "bytes_inv (bytes_stats_merge s t)"
    by (simp add: bytes_inv_def bytes_stats_merge_def Let_def word_less_nat_alt unat_mod radix_facts)
  show "bytes_val (bytes_stats_merge s t) = (bytes_val s + bytes_val t) mod (2 ^ 64 * 2 ^ 60)"
    using split_bytes(4) [OF lo lo', of "bs_eib s" "bs_eib t"] radix_facts(3)
    by (simp add: bytes_val_def bytes_stats_merge_def Let_def)
  assume "bytes_val s = bytes_val t"
  then show "s = t"
    using split_bytes(5) [OF lo lo', of "bs_eib s" "bs_eib t"]
    by (cases s, cases t) (simp add: bytes_val_def)
qed

interpretation packets_counter:
  split_counter packets_stats_add packets_stats_merge packets_val packets_inv "2 ^ 64 * 10 ^ 16"
proof unfold_locales
  fix s t :: packets_stats and n :: u64
  assume s: "packets_inv s"
  then have lo: "ps_packets s < PETA_IN_PACKETS" by (simp add: packets_inv_def)
  show "packets_val s < 2 ^ 64 * 10 ^ 16"
    using split_packets(1) [OF lo, of "ps_peta s"] by (simp add: packets_val_def)
  show "packets_inv (packets_stats_add s n)"
    using split_add_carry(1) [OF lo radix_facts(4)]
    by (auto simp: packets_inv_def packets_stats_add_def Let_def)
  show "packets_val (packets_stats_add s n) = (packets_val s + unat n) mod (2 ^ 64 * 10 ^ 16)"
    using split_packets(2,3) [OF lo, of n "ps_peta s"] radix_facts(4)
    by (auto simp: packets_val_def packets_stats_add_def Let_def not_le)
  assume t: "packets_inv t"
  then have lo': "ps_packets t < PETA_IN_PACKETS" by (simp add: packets_inv_def)
  show "packets_inv (packets_stats_merge s t)"
    by (simp add: packets_inv_def packets_stats_merge_def Let_def word_less_nat_alt unat_mod radix_facts)
  show "packets_val (packets_stats_merge s t) = (packets_val s + packets_val t) mod (2 ^ 64 * 10 ^ 16)"
    using split_packets(4) [OF lo lo', of "ps_peta s" "ps_peta t"] radix_facts(4)
    by (simp add: packets_val_def packets_stats_merge_def Let_def)
  assume "packets_val s = packets_val t"
  then show "s = t"
    using split_packets(5) [OF lo lo', of "ps_peta s" "ps_peta t"]
    by (cases s, cases t) (simp add: packets_val_def)
qed

section \<open>Properties\<close>

text \<open>(C29) Any sequence of \<open>bytes_stats_add\<close> calls on a well-formed counter keeps it
  well-formed and adds up exactly: no carry is lost between the two words and the total
  is the arithmetic sum modulo \<open>2^64\<close> EiB, whatever the 64-bit amounts are.  The same
  holds when the counters of several tasks are merged.\<close>

theorem bytes_stats_exact:
  assumes "bytes_inv s" "\<And>t. t \<in> set ts \<Longrightarrow> bytes_inv t"
  shows "bytes_inv (foldl bytes_stats_merge (foldl bytes_stats_add s ns) ts) \<and>
         bytes_val (foldl bytes_stats_merge (foldl bytes_stats_add s ns) ts) =
           (bytes_val s + sum_list (map unat ns) + sum_list (map bytes_val ts)) mod 2 ^ 124"
  using bytes_counter.foldl_add [OF assms(1), of ns] assms(2)
    bytes_counter.foldl_merge [of "foldl bytes_stats_add s ns" ts]
  by (simp add: mod_add_left_eq)

theorem bytes_stats_exact_witness:
  "let s = \<lparr>bs_bytes = 2 ^ 60 - 1, bs_eib = 3\<rparr> in
     bytes_val (foldl bytes_stats_merge (foldl bytes_stats_add s [5, 2 ^ 63]) [s]) =
       (2 * (3 * 2 ^ 60 + (2 ^ 60 - 1)) + 5 + 2 ^ 63) mod 2 ^ 124"
  using bytes_stats_exact [of "\<lparr>bs_bytes = 2 ^ 60 - 1, bs_eib = 3\<rparr>"
      "[\<lparr>bs_bytes = 2 ^ 60 - 1, bs_eib = 3\<rparr>]" "[5, 2 ^ 63]"]
  by (simp add: bytes_inv_def EIB_IN_BYTES_def bytes_val_def)

text \<open>(C30) The same exactness for the packet counters, whose radix \<open>10^16\<close> is not a
  power of two.\<close>

theorem packets_stats_exact:
  assumes "packets_inv s" "\<And>t. t \<in> set ts \<Longrightarrow> packets_inv t"
  shows "packets_inv (foldl packets_stats_merge (foldl packets_stats_add s ns) ts) \<and>
         packets_val (foldl packets_stats_merge (foldl packets_stats_add s ns) ts) =
           (packets_val s + sum_list (map unat ns) + sum_list (map packets_val ts))
             mod (2 ^ 64 * 10 ^ 16)"
  using packets_counter.foldl_add [OF assms(1), of ns] assms(2)
    packets_counter.foldl_merge [of "foldl packets_stats_add s ns" ts]
  by (simp add: mod_add_left_eq)

theorem packets_stats_exact_witness:
  "let s = \<lparr>ps_packets = 9999999999999999, ps_peta = 1\<rparr> in
     packets_val (foldl packets_stats_merge (foldl packets_stats_add s [1]) [s]) =
       (2 * (10 ^ 16 + 9999999999999999) + 1) mod (2 ^ 64 * 10 ^ 16)"
  using packets_stats_exact [of "\<lparr>ps_packets = 9999999999999999, ps_peta = 1\<rparr>"
      "[\<lparr>ps_packets = 9999999999999999, ps_peta = 1\<rparr>]" "[1]"]
  by (simp add: packets_inv_def PETA_IN_PACKETS_def packets_val_def)

end
