(* ===== verification/Checksum.thy ===== *)
theory Checksum
  imports CP_Prelude
begin

text \<open>
  The checksum core of \<open>packet_split.c\<close>: the SSE2 and unrolled scalar
  accumulation, the two-pass fold, and the IPv4/TCP/UDP checksums built on it.
  The reference is \<open>sum16\<close>, the plain 16-bit sum of RFC 1071, with its
  one's-complement residue \<open>oc16\<close>.  Pointers are offsets into one buffer;
  loads are little-endian, as on the supported hosts.  The parameter \<open>sse2\<close>
  is the build-time \<open>__SSE2__\<close> switch.
\<close>

section \<open>Model\<close>

definition cksum_fold :: "u32 \<Rightarrow> u16" where
  "cksum_fold sum0 =
    (let sum1 = drop_bit 16 sum0 + (sum0 AND 0xFFFF);
         sum2 = drop_bit 16 sum1 + (sum1 AND 0xFFFF)
     in ucast sum2)"

definition ld16 :: "bytes \<Rightarrow> nat \<Rightarrow> u16 option" where
  "ld16 buf p = do { a \<leftarrow> rd8 buf p; b \<leftarrow> rd8 buf (p + 1); Some (of_le16 a b) }"

text \<open>A run of \<open>k\<close> statements \<open>sum += u16[i]\<close>.\<close>

fun add_u16s :: "bytes \<Rightarrow> nat \<Rightarrow> nat \<Rightarrow> u32 \<Rightarrow> u32 option" where
  "add_u16s buf p 0 acc = Some acc"
| "add_u16s buf p (Suc k) acc =
     do { w \<leftarrow> ld16 buf p; add_u16s buf (p + 2) k (acc + ucast w) }"

text \<open>The SSE2 registers, as eight 16-bit or four 32-bit lanes.\<close>

fun ld16s :: "bytes \<Rightarrow> nat \<Rightarrow> nat \<Rightarrow> u16 list option" where
  "ld16s buf p 0 = Some []"
| "ld16s buf p (Suc k) = do { w \<leftarrow> ld16 buf p; ws \<leftarrow> ld16s buf (p + 2) k; Some (w # ws) }"

definition mm_loadu_si128 :: "bytes \<Rightarrow> nat \<Rightarrow> u16 list option" where
  "mm_loadu_si128 buf p = ld16s buf p 8"

definition mm_unpacklo_epi16_zero :: "u16 list \<Rightarrow> u32 list" where
  "mm_unpacklo_epi16_zero v = map ucast (take 4 v)"

definition mm_unpackhi_epi16_zero :: "u16 list \<Rightarrow> u32 list" where
  "mm_unpackhi_epi16_zero v = map ucast (drop 4 v)"

definition mm_add_epi32 :: "u32 list \<Rightarrow> u32 list \<Rightarrow> u32 list" where
  "mm_add_epi32 v w = map2 (+) v w"

definition mm_shuffle_epi32 :: "u32 list \<Rightarrow> nat list \<Rightarrow> u32 list" where
  "mm_shuffle_epi32 v sel = map (\<lambda>i. v ! i) sel"

fun cksum_sse2_loop :: "bytes \<Rightarrow> nat \<Rightarrow> nat \<Rightarrow> u32 list \<Rightarrow> (nat \<times> nat \<times> u32 list) option" where
  "cksum_sse2_loop buf p len vsum =
    (if len \<ge> 32
     then do {
       v0 \<leftarrow> mm_loadu_si128 buf p;
       v1 \<leftarrow> mm_loadu_si128 buf (p + 16);
       let vsum = mm_add_epi32 vsum (mm_unpacklo_epi16_zero v0);
       let vsum = mm_add_epi32 vsum (mm_unpackhi_epi16_zero v0);
       let vsum = mm_add_epi32 vsum (mm_unpacklo_epi16_zero v1);
       let vsum = mm_add_epi32 vsum (mm_unpackhi_epi16_zero v1);
       cksum_sse2_loop buf (p + 32) (len - 32) vsum
     }
     else Some (p, len, vsum))"

definition cksum_sse2 :: "bytes \<Rightarrow> nat \<Rightarrow> nat \<Rightarrow> u32 \<Rightarrow> (nat \<times> nat \<times> u32) option" where
  "cksum_sse2 buf p len acc =
    (if len \<ge> 32
     then do {
       (p, len, vsum) \<leftarrow> cksum_sse2_loop buf p len [0, 0, 0, 0];
       let hi64 = mm_shuffle_epi32 vsum [2, 3, 0, 1];
       let vsum = mm_add_epi32 vsum hi64;
       let hi32 = mm_shuffle_epi32 vsum [1, 0, 3, 2];
       let vsum = mm_add_epi32 vsum hi32;
       Some (p, len, acc + vsum ! 0)
     }
     else Some (p, len, acc))"

fun cksum_loop16 :: "bytes \<Rightarrow> nat \<Rightarrow> nat \<Rightarrow> u32 \<Rightarrow> (nat \<times> nat \<times> u32) option" where
  "cksum_loop16 buf p len acc =
    (if len \<ge> 16
     then do { acc \<leftarrow> add_u16s buf p 8 acc; cksum_loop16 buf (p + 16) (len - 16) acc }
     else Some (p, len, acc))"

definition cksum_rem8 :: "bytes \<Rightarrow> nat \<Rightarrow> nat \<Rightarrow> u32 \<Rightarrow> (nat \<times> nat \<times> u32) option" where
  "cksum_rem8 buf p len acc =
    (if len \<ge> 8
     then do { acc \<leftarrow> add_u16s buf p 4 acc; Some (p + 8, len - 8, acc) }
     else Some (p, len, acc))"

fun cksum_loop2 :: "bytes \<Rightarrow> nat \<Rightarrow> nat \<Rightarrow> u32 \<Rightarrow> (nat \<times> nat \<times> u32) option" where
  "cksum_loop2 buf p len acc =
    (if len \<ge> 2
     then do { w \<leftarrow> ld16 buf p; cksum_loop2 buf (p + 2) (len - 2) (acc + ucast w) }
     else Some (p, len, acc))"

definition cksum_accumulate :: "bool \<Rightarrow> bytes \<Rightarrow> nat \<Rightarrow> nat \<Rightarrow> u32 \<Rightarrow> u32 option" where
  "cksum_accumulate sse2 buf p len initial_sum =
    do {
      (p, len, acc) \<leftarrow> (if sse2 then cksum_sse2 buf p len initial_sum
                        else Some (p, len, initial_sum));
      (p, len, acc) \<leftarrow> cksum_loop16 buf p len acc;
      (p, len, acc) \<leftarrow> cksum_rem8 buf p len acc;
      (p, len, acc) \<leftarrow> cksum_loop2 buf p len acc;
      if len \<noteq> 0 then do { b \<leftarrow> rd8 buf p; Some (acc + ucast b) } else Some acc
    }"

definition cksum_finish :: "u32 \<Rightarrow> u16" where
  "cksum_finish partial_sum = NOT (cksum_fold partial_sum)"

definition calculate_ip_checksum :: "bool \<Rightarrow> bytes \<Rightarrow> nat \<Rightarrow> u16 option" where
  "calculate_ip_checksum sse2 buf ip_hdr =
    do {
      b \<leftarrow> rd8 buf ip_hdr;
      let ihl = b AND 0x0F;
      if ihl = 5
      then do { acc \<leftarrow> add_u16s buf ip_hdr 10 0; Some (cksum_finish acc) }
      else do { acc \<leftarrow> cksum_accumulate sse2 buf ip_hdr (unat ihl * 4) 0;
                Some (cksum_finish acc) }
    }"

text \<open>\<open>htons\<close> on a little-endian host.\<close>

abbreviation htons :: "u16 \<Rightarrow> u16" where
  "htons w \<equiv> bswap16 w"

definition calculate_pseudo_header_sum ::
  "bytes \<Rightarrow> nat option \<Rightarrow> nat option \<Rightarrow> u8 \<Rightarrow> u16 \<Rightarrow> u32 option" where
  "calculate_pseudo_header_sum buf ip_hdr ipv6_hdr protocol l4_len =
    (case ip_hdr of
       Some h \<Rightarrow> do {
         acc \<leftarrow> add_u16s buf (h + 12) 2 0;
         acc \<leftarrow> add_u16s buf (h + 16) 2 acc;
         Some (acc + ucast (htons (ucast protocol)) + ucast (htons l4_len))
       }
     | None \<Rightarrow>
         (case ipv6_hdr of
            Some h \<Rightarrow> do {
              acc \<leftarrow> add_u16s buf (h + 8) 8 0;
              acc \<leftarrow> add_u16s buf (h + 24) 8 acc;
              Some (acc + ucast (htons l4_len) + ucast (htons (ucast protocol)))
            }
          | None \<Rightarrow> Some 0))"

definition IPPROTO_TCP :: u8 where "IPPROTO_TCP = 6"
definition IPPROTO_UDP :: u8 where "IPPROTO_UDP = 17"

definition calculate_tcp_checksum ::
  "bool \<Rightarrow> bytes \<Rightarrow> nat option \<Rightarrow> nat option \<Rightarrow> nat \<Rightarrow> u16 \<Rightarrow> u16 option" where
  "calculate_tcp_checksum sse2 buf ip_hdr ipv6_hdr tcp_hdr tcp_len =
    do {
      acc \<leftarrow> calculate_pseudo_header_sum buf ip_hdr ipv6_hdr IPPROTO_TCP tcp_len;
      acc \<leftarrow> cksum_accumulate sse2 buf tcp_hdr (unat tcp_len) acc;
      Some (cksum_finish acc)
    }"

definition calculate_udp_checksum ::
  "bool \<Rightarrow> bytes \<Rightarrow> nat option \<Rightarrow> nat option \<Rightarrow> nat \<Rightarrow> u16 \<Rightarrow> u16 option" where
  "calculate_udp_checksum sse2 buf ip_hdr ipv6_hdr udp_hdr udp_len =
    do {
      acc \<leftarrow> calculate_pseudo_header_sum buf ip_hdr ipv6_hdr IPPROTO_UDP udp_len;
      acc \<leftarrow> cksum_accumulate sse2 buf udp_hdr (unat udp_len) acc;
      Some (cksum_finish acc)
    }"

definition udp_checksum_for_wire :: "u16 \<Rightarrow> u16" where
  "udp_checksum_for_wire check = (if check = 0 then 0xFFFF else check)"

declare cksum_sse2_loop.simps [simp del] cksum_loop16.simps [simp del] cksum_loop2.simps [simp del]

section \<open>Reference sum\<close>

text \<open>RFC 1071: the sum of the 16-bit words, an odd last byte padded with zero,
  and its residue as a non-zero 16-bit one's-complement number.\<close>

fun sum16 :: "bytes \<Rightarrow> nat" where
  "sum16 [] = 0"
| "sum16 [a] = unat a"
| "sum16 (a # b # bs) = unat (of_le16 a b) + sum16 bs"

definition oc16 :: "nat \<Rightarrow> nat" where
  "oc16 n = (if n = 0 then 0 else (n - 1) mod 65535 + 1)"

abbreviation s16 :: "bytes \<Rightarrow> nat \<Rightarrow> nat \<Rightarrow> nat" where
  "s16 buf p len \<equiv> sum16 (take len (drop p buf))"

lemma sum16_append: "even (length xs) \<Longrightarrow> sum16 (xs @ ys) = sum16 xs + sum16 ys"
  by (induction xs rule: sum16.induct) simp_all

lemma sum16_le: "sum16 xs \<le> 65535 * ((length xs + 1) div 2)"
proof (induction xs rule: sum16.induct)
  case (2 a)
  have "unat a \<le> 65535" using unat_u8_lt [of a] by linarith
  then show ?case by simp
next
  case (3 a b bs)
  have "unat (of_le16 a b) \<le> 65535" using unat_u16_lt [of "of_le16 a b"] by linarith
  with 3 show ?case by simp
qed simp

lemma s16_split:
  assumes "even k" "k \<le> len" "p + len \<le> length buf"
  shows "s16 buf p len = s16 buf p k + s16 buf (p + k) (len - k)"
proof -
  have "take len (drop p buf) = take k (drop p buf) @ take (len - k) (drop (p + k) buf)"
    using assms by (metis add.commute drop_drop le_add_diff_inverse take_add)
  moreover have "length (take k (drop p buf)) = k" using assms by simp
  ultimately show ?thesis using assms(1) sum16_append [of "take k (drop p buf)"] by simp
qed

lemma s16_2: "p + 2 \<le> length buf \<Longrightarrow> s16 buf p 2 = unat (of_le16 (buf ! p) (buf ! (p + 1)))"
  by (simp add: numeral_2_eq_2 take_Suc_conv_app_nth)

lemma s16_step:
  "2 \<le> len \<Longrightarrow> p + len \<le> length buf \<Longrightarrow>
     s16 buf p len = unat (of_le16 (buf ! p) (buf ! (p + 1))) + s16 buf (p + 2) (len - 2)"
  using s16_split [of 2 len p buf] s16_2 [of p buf] by simp

lemma ld16_in [mem_simps]:
  "p + 2 \<le> length buf \<Longrightarrow> ld16 buf p = Some (of_le16 (buf ! p) (buf ! (p + 1)))"
  by (simp add: ld16_def mem_simps)

lemma add_u16s_correct [mem_simps]:
  "p + 2 * k \<le> length buf \<Longrightarrow> add_u16s buf p k s = Some (s + of_nat (s16 buf p (2 * k)))"
proof (induction k arbitrary: p s)
  case (Suc k)
  let ?w = "of_le16 (buf ! p) (buf ! (p + 1))"
  have e: "s16 buf p (2 * Suc k) = unat ?w + s16 buf (p + 2) (2 * k)"
    using s16_step [of "2 * Suc k" p buf] Suc.prems by simp
  have "add_u16s buf p (Suc k) s = add_u16s buf (p + 2) k (s + of_nat (unat ?w))"
    using Suc.prems by (simp add: ld16_in)
  also have "\<dots> = Some (s + of_nat (unat ?w) + of_nat (s16 buf (p + 2) (2 * k)))"
    using Suc.prems by (intro Suc.IH) simp
  finally show ?case unfolding e of_nat_add add.assoc .
qed simp

lemma ld16s_correct:
  "p + 2 * k \<le> length buf \<Longrightarrow> \<exists>ws. ld16s buf p k = Some ws \<and> length ws = k \<and>
     sum_list (map ucast ws) = (of_nat (s16 buf p (2 * k)) :: u32)"
proof (induction k arbitrary: p)
  case (Suc k)
  let ?w = "of_le16 (buf ! p) (buf ! (p + 1))"
  have e: "s16 buf p (2 * Suc k) = unat ?w + s16 buf (p + 2) (2 * k)"
    using s16_step [of "2 * Suc k" p buf] Suc.prems by simp
  obtain ws where "ld16s buf (p + 2) k = Some ws" "length ws = k"
    "sum_list (map ucast ws) = (of_nat (s16 buf (p + 2) (2 * k)) :: u32)"
    using Suc.IH [of "p + 2"] Suc.prems by auto
  moreover have "ld16 buf p = Some ?w" using Suc.prems by (intro ld16_in) simp
  ultimately show ?case
    unfolding e of_nat_add by simp
qed simp

section \<open>The optimised accumulation is the reference sum\<close>

lemma sum_list_map2_plus:
  "length v = length w \<Longrightarrow> sum_list (map2 (+) v w) = sum_list v + (sum_list w :: u32)"
  by (induction v w rule: list_induct2) (simp_all add: ac_simps)

lemma mm_block:
  assumes "length vsum = 4" "p + 16 \<le> length buf"
  shows "\<exists>v. mm_loadu_si128 buf p = Some v \<and>
    length (mm_add_epi32 (mm_add_epi32 vsum (mm_unpacklo_epi16_zero v)) (mm_unpackhi_epi16_zero v)) = 4 \<and>
    sum_list (mm_add_epi32 (mm_add_epi32 vsum (mm_unpacklo_epi16_zero v)) (mm_unpackhi_epi16_zero v))
      = sum_list vsum + of_nat (s16 buf p 16)"
proof -
  obtain v where v: "mm_loadu_si128 buf p = Some v" "length v = 8"
    "sum_list (map ucast v) = (of_nat (s16 buf p 16) :: u32)"
    using ld16s_correct [of p 8 buf] assms by (auto simp: mm_loadu_si128_def)
  have "sum_list (map ucast (take 4 v)) + sum_list (map ucast (drop 4 v))
        = (of_nat (s16 buf p 16) :: u32)"
    using v(3) by (metis append_take_drop_id map_append sum_list_append)
  with v assms show ?thesis
    by (simp add: mm_add_epi32_def mm_unpacklo_epi16_zero_def mm_unpackhi_epi16_zero_def
        sum_list_map2_plus add.assoc)
qed

lemma cksum_sse2_loop_correct:
  "p + len \<le> length buf \<Longrightarrow> length vsum = 4 \<Longrightarrow>
   \<exists>k vsum'. cksum_sse2_loop buf p len vsum = Some (p + k, len - k, vsum') \<and> length vsum' = 4 \<and>
     even k \<and> k \<le> len \<and> sum_list vsum' = sum_list vsum + of_nat (s16 buf p k)"
proof (induction buf p len vsum rule: cksum_sse2_loop.induct)
  case (1 buf p len vsum)
  show ?case
  proof (cases "32 \<le> len")
    case False
    then show ?thesis using 1 by (intro exI [of _ 0]) (simp add: cksum_sse2_loop.simps)
  next
    case True
    let ?add = "\<lambda>vs v. mm_add_epi32 (mm_add_epi32 vs (mm_unpacklo_epi16_zero v)) (mm_unpackhi_epi16_zero v)"
    obtain v where v: "mm_loadu_si128 buf p = Some v" "length (?add vsum v) = 4"
      "sum_list (?add vsum v) = sum_list vsum + of_nat (s16 buf p 16)"
      using mm_block [of vsum p buf] 1(2,3) True by auto
    obtain v' where v': "mm_loadu_si128 buf (p + 16) = Some v'" "length (?add (?add vsum v) v') = 4"
      "sum_list (?add (?add vsum v) v') = sum_list (?add vsum v) + of_nat (s16 buf (p + 16) 16)"
      using mm_block [of "?add vsum v" "p + 16" buf] v(2) 1(2) True by auto
    let ?w = "?add (?add vsum v) v'"
    obtain k vs where k: "cksum_sse2_loop buf (p + 32) (len - 32) ?w = Some (p + 32 + k, len - 32 - k, vs)"
      "length vs = 4" "even k" "k \<le> len - 32" "sum_list vs = sum_list ?w + of_nat (s16 buf (p + 32) k)"
      using 1(1) [OF True v(1) v'(1) refl refl refl refl] 1(2) v'(2) True by auto
    have "s16 buf p (32 + k) = s16 buf p 16 + s16 buf (p + 16) 16 + s16 buf (p + 32) k"
      using s16_split [of 32 "32 + k" p buf] s16_split [of 16 32 p buf] k(4) 1(2) True by simp
    then show ?thesis
      using k v(1,3) v'(1,3) True
      by (intro exI [of _ "32 + k"] exI [of _ vs])
         (simp add: cksum_sse2_loop.simps [of buf p len] add.assoc Let_def)
  qed
qed

lemma list4: "length v = 4 \<Longrightarrow> \<exists>a b c d. v = [a, b, c, d]"
  by (auto simp: numeral_eq_Suc length_Suc_conv)

lemma cksum_sse2_correct:
  assumes "p + len \<le> length buf"
  shows "\<exists>k. even k \<and> k \<le> len \<and>
    cksum_sse2 buf p len s = Some (p + k, len - k, s + of_nat (s16 buf p k))"
proof (cases "32 \<le> len")
  case True
  obtain k vs where k: "cksum_sse2_loop buf p len [0, 0, 0, 0] = Some (p + k, len - k, vs)"
    "length vs = 4" "even k" "k \<le> len" "sum_list vs = of_nat (s16 buf p k)"
    using cksum_sse2_loop_correct [of p len buf "[0, 0, 0, 0]"] assms by auto
  obtain a b c d where "vs = [a, b, c, d]" using list4 [OF k(2)] by blast
  with k True show ?thesis
    by (intro exI [of _ k])
       (simp add: cksum_sse2_def mm_shuffle_epi32_def mm_add_epi32_def ac_simps)
qed (intro exI [of _ 0], simp add: cksum_sse2_def)

text \<open>Each stage consumes an even number \<open>k\<close> of bytes and adds their words.\<close>

definition consumes :: "bytes \<Rightarrow> nat \<Rightarrow> nat \<Rightarrow> u32 \<Rightarrow> (nat \<times> nat \<times> u32) option \<Rightarrow> bool" where
  "consumes buf p len s r \<longleftrightarrow>
    (\<exists>k. even k \<and> k \<le> len \<and> r = Some (p + k, len - k, s + of_nat (s16 buf p k)))"

lemma consumes_refl: "consumes buf p len s (Some (p, len, s))"
  unfolding consumes_def by (intro exI [of _ 0]) simp

lemma consumes_trans:
  assumes r: "consumes buf p len s r" and len: "p + len \<le> length buf"
    and f: "\<And>p len s. p + len \<le> length buf \<Longrightarrow> consumes buf p len s (f p len s)"
  shows "consumes buf p len s (r \<bind> (\<lambda>(p, len, s). f p len s))"
proof -
  obtain k where k: "even k" "k \<le> len" "r = Some (p + k, len - k, s + of_nat (s16 buf p k))"
    using r unfolding consumes_def by blast
  obtain j where j: "even j" "j \<le> len - k"
    "f (p + k) (len - k) (s + of_nat (s16 buf p k))
       = Some (p + k + j, len - k - j, s + of_nat (s16 buf p k) + of_nat (s16 buf (p + k) j))"
    using f [of "p + k" "len - k" "s + of_nat (s16 buf p k)"] k(2) len
    unfolding consumes_def by auto
  have "s16 buf p (k + j) = s16 buf p k + s16 buf (p + k) j"
    using s16_split [of k "k + j" p buf] k j(2) len by simp
  with k j show ?thesis
    unfolding consumes_def by (intro exI [of _ "k + j"]) (simp add: add.assoc)
qed

lemma consumes_block:
  assumes "p + len \<le> length buf" "2 * n \<le> len"
  shows "consumes buf p len s (add_u16s buf p n s \<bind> (\<lambda>s. Some (p + 2 * n, len - 2 * n, s)))"
  unfolding consumes_def
  using assms by (intro exI [of _ "2 * n"]) (simp add: add_u16s_correct)

lemma cksum_loop16_consumes: "p + len \<le> length buf \<Longrightarrow> consumes buf p len s (cksum_loop16 buf p len s)"
proof (induction buf p len s rule: cksum_loop16.induct)
  case (1 buf p len s)
  show ?case
  proof (cases "16 \<le> len")
    case True
    have step: "add_u16s buf p 8 s = Some (s + of_nat (s16 buf p 16))"
      using add_u16s_correct [of p 8 buf s] 1(2) True by simp
    obtain k where k: "even k" "k \<le> len - 16"
      "cksum_loop16 buf (p + 16) (len - 16) (s + of_nat (s16 buf p 16)) =
         Some (p + 16 + k, len - 16 - k, s + of_nat (s16 buf p 16) + of_nat (s16 buf (p + 16) k))"
      using 1(1) [OF True step] 1(2) True unfolding consumes_def by auto
    have "s16 buf p (16 + k) = s16 buf p 16 + s16 buf (p + 16) k"
      using s16_split [of 16 "16 + k" p buf] k 1(2) True by simp
    with k step True show ?thesis
      unfolding consumes_def cksum_loop16.simps [of buf p len]
      by (intro exI [of _ "16 + k"]) (simp add: add.assoc)
  qed (simp add: cksum_loop16.simps [of buf p len] consumes_refl)
qed

lemma cksum_rem8_consumes: "p + len \<le> length buf \<Longrightarrow> consumes buf p len s (cksum_rem8 buf p len s)"
  using consumes_block [of p len buf 4 s] by (simp add: cksum_rem8_def consumes_refl)

lemma cksum_loop2_end:
  "p + len \<le> length buf \<Longrightarrow>
     cksum_loop2 buf p len s = Some (p + len - len mod 2, len mod 2, s + of_nat (s16 buf p (len - len mod 2)))"
proof (induction buf p len s rule: cksum_loop2.induct)
  case (1 buf p len s)
  show ?case
  proof (cases "2 \<le> len")
    case True
    let ?w = "of_le16 (buf ! p) (buf ! (p + 1))"
    have w: "ld16 buf p = Some ?w" using 1(2) True by (intro ld16_in) simp
    have m: "(len - 2) mod 2 = len mod 2" using True by (metis le_add_diff_inverse2 mod_add_self2)
    have le: "2 \<le> len - len mod 2" using True by presburger
    have "s16 buf p (len - len mod 2) = unat ?w + s16 buf (p + 2) (len - 2 - len mod 2)"
      using s16_step [of "len - len mod 2" p buf] le 1(2) by (simp add: diff_right_commute)
    moreover have "cksum_loop2 buf (p + 2) (len - 2) (s + ucast ?w) =
       Some (p + 2 + (len - 2) - (len - 2) mod 2, (len - 2) mod 2,
             s + ucast ?w + of_nat (s16 buf (p + 2) (len - 2 - (len - 2) mod 2)))"
      using 1(1) [OF True w] 1(2) True by simp
    ultimately show ?thesis
      using True w unfolding m cksum_loop2.simps [of buf p len] by (simp add: add.assoc)
  next
    case False
    then have "len = 0 \<or> len = 1" by linarith
    then show ?thesis by (auto simp: cksum_loop2.simps [of buf p])
  qed
qed

text \<open>The two-byte loop and the odd byte finish any partial sum.\<close>

lemma finish_sum16:
  assumes c: "consumes buf p len s r0" and len: "p + len \<le> length buf" and P: "P 1" "\<not> P 0"
  shows "r0 \<bind> (\<lambda>(p, len, s). cksum_loop2 buf p len s
      \<bind> (\<lambda>(p, len, s). if P len then do { b \<leftarrow> rd8 buf p; Some (s + ucast b) } else Some s))
    = Some (s + of_nat (s16 buf p len))"
proof -
  obtain k where k: "even k" "k \<le> len" "r0 = Some (p + k, len - k, s + of_nat (s16 buf p k))"
    using c unfolding consumes_def by blast
  define n r where "n = len - k" and "r = n mod 2"
  have r: "r \<le> n" "even (n - r)" "r < 2" "n \<le> len" "p + k + n = p + len"
    using k(2) unfolding r_def n_def by (simp_all add: minus_mod_eq_mult_div)
  have l2: "cksum_loop2 buf (p + k) n (s + of_nat (s16 buf p k)) =
     Some (p + len - r, r, s + of_nat (s16 buf p k) + of_nat (s16 buf (p + k) (n - r)))"
    using cksum_loop2_end [of "p + k" n buf] len r(5) unfolding r_def by simp
  have split: "s16 buf p len = s16 buf p k + s16 buf (p + k) n"
    using s16_split [OF k(1,2) len] unfolding n_def .
  have e: "p + k + (n - r) = p + len - r" "n - (n - r) = r" using r by simp_all
  have rest: "s16 buf (p + k) n = s16 buf (p + k) (n - r) + s16 buf (p + len - r) r"
    using s16_split [of "n - r" n "p + k" buf] r len unfolding e by simp
  have tail: "s16 buf (p + len - r) r = (if r = 0 then 0 else unat (buf ! (p + len - r)))"
    using len r by (cases "r = 0") (auto simp: less_2_cases_iff take_Suc_conv_app_nth)
  have "P r \<longleftrightarrow> r \<noteq> 0" using P r(3) by (auto simp: less_2_cases_iff)
  then show ?thesis
    unfolding k(3) n_def [symmetric] split rest tail using l2 r len by (simp add: rd8_in add.assoc)
qed

lemma cksum_accumulate_sum16 [mem_simps]:
  assumes len: "p + len \<le> length buf"
  shows "cksum_accumulate sse2 buf p len s = Some (s + of_nat (s16 buf p len))"
proof -
  let ?r0 = "if sse2 then cksum_sse2 buf p len s else Some (p, len, s)"
  have "consumes buf p len s ?r0"
    using cksum_sse2_correct [OF len, of s] by (auto simp: consumes_refl) (auto simp: consumes_def)
  then have "consumes buf p len s (?r0 \<bind> (\<lambda>(p, len, s). cksum_loop16 buf p len s))"
    by (rule consumes_trans [OF _ len cksum_loop16_consumes])
  then have "consumes buf p len s
      (?r0 \<bind> (\<lambda>(p, len, s). cksum_loop16 buf p len s) \<bind> (\<lambda>(p, len, s). cksum_rem8 buf p len s))"
    by (rule consumes_trans [OF _ len cksum_rem8_consumes])
  note f = finish_sum16 [OF this len, of "\<lambda>n. n \<noteq> 0"]
  show ?thesis using f unfolding cksum_accumulate_def by (simp add: case_prod_unfold)
qed

section \<open>Folding\<close>

lemma unat_and_ffff: "unat (w AND 0xFFFF :: u32) = unat w mod 65536"
proof -
  have "w AND 0xFFFF = take_bit 16 w" by (simp add: take_bit_eq_mask mask_eq_exp_minus_1)
  then show ?thesis by (simp add: take_bit_eq_mod unat_mod)
qed

lemma oc16_le: "oc16 n \<le> 65535"
proof -
  have "(n - 1) mod 65535 < 65535" by simp
  then show ?thesis unfolding oc16_def by (simp only: split: if_split) linarith
qed

lemma oc16_0 [simp]: "oc16 n = 0 \<longleftrightarrow> n = 0"
  by (simp add: oc16_def)

lemma oc16_mod: "oc16 n mod 65535 = n mod 65535"
  by (cases n) (simp_all add: oc16_def mod_Suc)

lemma oc16_unique:
  assumes "m \<le> 65535" "m mod 65535 = n mod 65535" "m = 0 \<longleftrightarrow> n = 0"
  shows "m = oc16 n"
proof (cases "n = 0")
  case False
  then have "m \<noteq> 0" "oc16 n \<noteq> 0" using assms(3) by simp_all
  moreover have "m mod 65535 = oc16 n mod 65535" using assms(2) by (simp add: oc16_mod)
  moreover have "k mod 65535 = (if k = 65535 then 0 else k)" if "k \<le> 65535" for k :: nat
    using that by auto
  ultimately show ?thesis using assms(1) oc16_le [of n] by (metis)
qed (use assms in simp)

lemma fold_step_mod: "(n div 65536 + n mod 65536) mod 65535 = n mod (65535 :: nat)"
proof -
  define q r where "q = n div 65536" and "r = n mod 65536"
  have "n = 65536 * q + r" unfolding q_def r_def by (rule mult_div_mod_eq [symmetric])
  then have "n = (q + r) + 65535 * q" by simp
  then have "n mod 65535 = (q + r) mod 65535" by (simp only: mod_mult_self2)
  then show ?thesis unfolding q_def r_def ..
qed

lemma fold_step_le:
  fixes n :: nat
  assumes "n \<le> 65536 * d + 65535"
  shows "n div 65536 + n mod 65536 \<le> d + 65535"
proof -
  have "n < Suc d * 65536" using assms by simp
  then have "n div 65536 \<le> d" using less_mult_imp_div_less less_Suc_eq_le by blast
  moreover have "n mod 65536 \<le> 65535" by (simp add: less_Suc_eq_le [symmetric])
  ultimately show ?thesis by (rule add_mono)
qed

lemma fold_step_0: "n div 65536 + n mod 65536 = 0 \<longleftrightarrow> n = (0 :: nat)"
  using mult_div_mod_eq [of 65536 n] by auto

lemma unat_fold_step:
  "unat (drop_bit 16 s + (s AND 0xFFFF) :: u32) = unat s div 65536 + unat s mod 65536"
proof -
  have "unat s \<le> 65536 * 65535 + 65535" using unat_u32_lt [of s] by linarith
  from fold_step_le [OF this] show ?thesis
    by (simp add: unat_word_ariths unat_drop_bit unat_and_ffff)
qed

lemma unat_cksum_fold [wire_simps]: "unat (cksum_fold s) = oc16 (unat s)"
proof -
  define n where "n = unat s"
  define a where "a = n div 65536 + n mod 65536"
  define b where "b = a div 65536 + a mod 65536"
  have "n \<le> 65536 * 65535 + 65535" using unat_u32_lt [of s] unfolding n_def by linarith
  from fold_step_le [OF this] have a: "a \<le> 131070" unfolding a_def by simp
  have b: "b \<le> 65535"
  proof (cases "a < 65536")
    case True then show ?thesis unfolding b_def by simp
  next
    case False
    then have "a div 65536 = 1" "a mod 65536 = a - 65536"
      using a by (simp_all add: div_if mod_if)
    then show ?thesis unfolding b_def using a False by linarith
  qed
  have "unat (cksum_fold s) = b"
    using b by (simp add: cksum_fold_def Let_def unat_ucast unat_fold_step a_def b_def n_def)
  also have "b = oc16 n"
    using b by (rule oc16_unique)
      (simp add: a_def b_def fold_step_mod, simp only: a_def b_def fold_step_0)
  finally show ?thesis unfolding n_def .
qed

lemma unat_cksum_finish [wire_simps]: "unat (cksum_finish s) = 65535 - oc16 (unat s)"
proof -
  have "unat (NOT w) = 65535 - unat w" for w :: u16
  proof -
    have "NOT w = - 1 - w" by (simp add: not_eq_complement)
    then show ?thesis using unat_sub [of w "- 1"]
      by (simp add: unsigned_minus_1_eq_mask mask_eq_exp_minus_1)
  qed
  then show ?thesis by (simp add: cksum_finish_def unat_cksum_fold)
qed

section \<open>Stored checksums verify\<close>

lemma oc16_verify:
  assumes "(n + c) mod 65535 = 0" "0 < n + c"
  shows "oc16 (n + c) = 65535"
  using assms by (intro oc16_unique [symmetric]) simp_all

lemma finish_mod: "(n + (65535 - oc16 n)) mod 65535 = 0"
proof -
  have "(n + (65535 - oc16 n)) mod 65535 = (oc16 n + (65535 - oc16 n)) mod 65535"
    by (rule mod_add_cong) (simp_all add: oc16_mod)
  then show ?thesis using oc16_le [of n] by simp
qed

lemma finish_pos: "0 < n + (65535 - oc16 n)"
  by (cases "n = 0") (simp_all add: oc16_def)

lemma sum16_le16 [wire_simps]: "sum16 (le16 c) = unat c"
  by (simp add: le16_def of_le16_def of_be16_be16)

lemma sum16_be16 [wire_simps]: "sum16 (be16 c) = unat (bswap16 c)"
  by (simp add: be16_def bswap16_def of_le16_def)

lemma unat_htons_u8 [wire_simps]: "unat (bswap16 (ucast (b :: u8))) = 256 * unat b"
proof -
  have "unat b < 256" by simp
  then have "unat b div 256 = 0" by (rule div_less)
  then show ?thesis by (simp add: bswap16_def unat_of_be16 unat_ucast unat_drop_bit)
qed

lemma s16_put:
  assumes "p \<le> k" "even (k - p)" "k + 2 \<le> p + len" "p + len \<le> length buf" "length w = 2"
  shows "s16 (put buf k w) p len = s16 buf p (k - p) + sum16 w + s16 buf (k + 2) (p + len - (k + 2))"
proof -
  let ?b = "put buf k w"
  have l: "length ?b = length buf" using assms by simp
  have "s16 ?b p len = s16 ?b p (k - p) + s16 ?b k (p + len - k)"
    using s16_split [of "k - p" len p ?b] assms l by (simp add: algebra_simps)
  also have "s16 ?b k (p + len - k) = s16 ?b k 2 + s16 ?b (k + 2) (p + len - (k + 2))"
    using s16_split [of 2 "p + len - k" k ?b] assms l by simp
  also have "take 2 (drop k ?b) = w"
    using assms by simp
  also have "take (k - p) (drop p ?b) = take (k - p) (drop p buf)"
    using assms by (intro take_drop_put_other) simp_all
  also have "take (p + len - (k + 2)) (drop (k + 2) ?b) = take (p + len - (k + 2)) (drop (k + 2) buf)"
    using assms by (intro take_drop_put_other) simp_all
  finally show ?thesis by simp
qed

lemma s16_put_le16:
  assumes "p \<le> k" "even (k - p)" "k + 2 \<le> p + len" "p + len \<le> length buf"
  shows "s16 (put buf k (le16 c)) p len = s16 (put buf k [0, 0]) p len + unat c"
  using s16_put [OF assms, of "le16 c"] s16_put [OF assms, of "[0, 0]"]
  by (simp add: sum16_le16 unat_of_le16)

text \<open>The checks a receiver makes (RFC 791, 793, 768, 8200).\<close>

definition hdr_len4 :: "bytes \<Rightarrow> nat \<Rightarrow> nat" where
  "hdr_len4 buf h = 4 * unat (buf ! h AND 0x0F)"

definition ip_checksum_ok :: "bytes \<Rightarrow> nat \<Rightarrow> bool" where
  "ip_checksum_ok buf h \<longleftrightarrow> oc16 (s16 buf h (hdr_len4 buf h)) = 65535"

definition pseudo4 :: "bytes \<Rightarrow> nat \<Rightarrow> u8 \<Rightarrow> u16 \<Rightarrow> bytes" where
  "pseudo4 buf h proto len = take 8 (drop (h + 12) buf) @ [0, proto] @ be16 len"

definition pseudo6 :: "bytes \<Rightarrow> nat \<Rightarrow> u8 \<Rightarrow> u16 \<Rightarrow> bytes" where
  "pseudo6 buf h proto len = take 32 (drop (h + 8) buf) @ be32 (ucast len) @ [0, 0, 0, proto]"

definition l4_checksum_ok :: "bytes \<Rightarrow> bytes \<Rightarrow> bool" where
  "l4_checksum_ok pseudo seg \<longleftrightarrow> oc16 (sum16 pseudo + sum16 seg) = 65535"

lemma unat_ihl_le: "unat (b AND 0x0F :: u8) \<le> 15"
proof -
  have "b AND 0x0F = take_bit 4 b" by (simp add: take_bit_eq_mask mask_eq_exp_minus_1)
  then have "unat (b AND 0x0F) = unat b mod 16" by (simp add: take_bit_eq_mod unat_mod)
  then show ?thesis by (simp add: less_Suc_eq_le [symmetric])
qed

lemma unat_of_nat_u32: "n < 4294967296 \<Longrightarrow> unat (of_nat n :: u32) = n"
  by (simp add: unat_of_nat take_bit_nat_eq_self)

lemma s16_le: "s16 buf p len \<le> 65535 * ((len + 1) div 2)"
proof -
  have "s16 buf p len \<le> 65535 * ((length (take len (drop p buf)) + 1) div 2)" by (rule sum16_le)
  also have "\<dots> \<le> 65535 * ((len + 1) div 2)" by (intro mult_le_mono2 div_le_mono) simp
  finally show ?thesis .
qed

lemma calculate_ip_checksum_sum16:
  assumes "h + hdr_len4 buf h \<le> length buf" "h < length buf"
  shows "\<exists>c. calculate_ip_checksum sse2 buf h = Some c \<and>
              unat c = 65535 - oc16 (s16 buf h (hdr_len4 buf h))"
proof -
  have "hdr_len4 buf h \<le> 60" using unat_ihl_le [of "buf ! h"] by (simp add: hdr_len4_def)
  then have "(hdr_len4 buf h + 1) div 2 \<le> 30" by simp
  then have b: "s16 buf h (hdr_len4 buf h) < 4294967296"
    using s16_le [of "hdr_len4 buf h" h buf] by simp
  show ?thesis
  proof (cases "buf ! h AND 0x0F = 5")
    case True
    then have l: "hdr_len4 buf h = 20" by (simp add: hdr_len4_def)
    have "calculate_ip_checksum sse2 buf h = Some (cksum_finish (of_nat (s16 buf h 20)))"
      using assms True add_u16s_correct [of h 10 buf 0] unfolding calculate_ip_checksum_def l
      by (simp add: rd8_in)
    then show ?thesis using b unfolding l by (simp add: unat_cksum_finish unat_of_nat_u32)
  next
    case False
    have "calculate_ip_checksum sse2 buf h = Some (cksum_finish (of_nat (s16 buf h (hdr_len4 buf h))))"
      using assms False cksum_accumulate_sum16 [of h "hdr_len4 buf h" buf sse2 0]
      unfolding calculate_ip_checksum_def hdr_len4_def by (simp add: rd8_in mult.commute)
    then show ?thesis using b by (simp add: unat_cksum_finish unat_of_nat_u32)
  qed
qed

lemma pseudo4_sum:
  assumes "h + 20 \<le> length buf"
  shows "calculate_pseudo_header_sum buf (Some h) v6 proto len = Some (of_nat (sum16 (pseudo4 buf h proto len)))"
proof -
  have "s16 buf (h + 12) 8 = s16 buf (h + 12) 4 + s16 buf (h + 16) 4"
    using s16_split [of 4 8 "h + 12" buf] assms by (simp add: add.commute)
  moreover have "sum16 (pseudo4 buf h proto len) = s16 buf (h + 12) 8 + sum16 ([0, proto] @ be16 len)"
    unfolding pseudo4_def using assms by (intro sum16_append) simp
  ultimately have "sum16 (pseudo4 buf h proto len)
      = s16 buf (h + 12) 4 + s16 buf (h + 16) 4 + 256 * unat proto + unat (bswap16 len)"
    by (simp add: sum16_be16 unat_of_le16)
  moreover have "(ucast (bswap16 (ucast proto)) :: u32) = of_nat (256 * unat proto)"
    by (metis unat_htons_u8 of_nat_unat)
  ultimately show ?thesis
    using add_u16s_correct [of "h + 12" 2 buf 0] add_u16s_correct [of "h + 16" 2 buf] assms
    by (simp add: calculate_pseudo_header_sum_def)
qed

lemma pseudo6_sum:
  assumes "h + 40 \<le> length buf"
  shows "calculate_pseudo_header_sum buf None (Some h) proto len = Some (of_nat (sum16 (pseudo6 buf h proto len)))"
proof -
  have len: "be32 (ucast len) = [0, 0] @ be16 len"
  proof -
    have "unat (drop_bit n (ucast len :: u32)) = 0" if "16 \<le> n" for n
    proof -
      have "(65536 :: nat) \<le> 2 ^ n" using power_increasing [OF that, of "2 :: nat"] by simp
      with unat_u16_lt [of len] have "unat len < 2 ^ n" by (rule less_le_trans)
      then show ?thesis by (simp add: unat_drop_bit)
    qed
    then have "drop_bit 24 (ucast len :: u32) = 0" "drop_bit 16 (ucast len :: u32) = 0"
      by (simp_all add: unat_eq_zero)
    then show ?thesis
      by (simp add: be32_def be16_def word_unat_eq_iff unat_ucast unat_drop_bit)
  qed
  have "s16 buf (h + 8) 32 = s16 buf (h + 8) 16 + s16 buf (h + 24) 16"
    using s16_split [of 16 32 "h + 8" buf] assms by (simp add: add.commute)
  moreover have "sum16 (pseudo6 buf h proto len)
      = s16 buf (h + 8) 32 + sum16 (be32 (ucast len) @ [0, 0, 0, proto])"
    unfolding pseudo6_def using assms by (intro sum16_append) simp
  moreover have "sum16 (be32 (ucast len) @ [0, 0, 0, proto]) = unat (bswap16 len) + 256 * unat proto"
    unfolding len by (simp add: sum16_append sum16_be16 unat_of_le16)
  ultimately have "sum16 (pseudo6 buf h proto len)
      = s16 buf (h + 8) 16 + s16 buf (h + 24) 16 + unat (bswap16 len) + 256 * unat proto" by simp
  moreover have "(ucast (bswap16 (ucast proto)) :: u32) = of_nat (256 * unat proto)"
    by (metis unat_htons_u8 of_nat_unat)
  ultimately show ?thesis
    using add_u16s_correct [of "h + 8" 8 buf 0] add_u16s_correct [of "h + 24" 8 buf] assms
    by (simp add: calculate_pseudo_header_sum_def)
qed

lemma pseudo_len: "length (pseudo4 buf h proto len) \<le> 12" "length (pseudo6 buf h proto len) \<le> 40"
  by (simp_all add: pseudo4_def pseudo6_def)

lemma pseudo_le: "sum16 (pseudo4 buf h proto len) \<le> 1310700" "sum16 (pseudo6 buf h proto len) \<le> 1310700"
proof -
  have "sum16 xs \<le> 1310700" if "length xs \<le> 40" for xs
  proof -
    have "(length xs + 1) div 2 \<le> 20" using that by simp
    then show ?thesis using sum16_le [of xs] by linarith
  qed
  then show "sum16 (pseudo4 buf h proto len) \<le> 1310700" "sum16 (pseudo6 buf h proto len) \<le> 1310700"
    using pseudo_len(1) [of buf h proto len] pseudo_len(2) [of buf h proto len] by simp_all
qed

lemma segment_le: "s16 buf p (unat (len :: u16)) \<le> 2147450880"
proof -
  have "unat len + 1 \<le> 65536" using unat_u16_lt [of len] by linarith
  then have "(unat len + 1) div 2 \<le> 32768" by simp
  then show ?thesis using s16_le [of "unat len" p buf] by linarith
qed

lemma l4_finish:
  assumes "t + unat len \<le> length buf" "n \<le> 1310700"
  shows "\<exists>c. do { acc \<leftarrow> cksum_accumulate sse2 buf t (unat (len :: u16)) (of_nat n); Some (cksum_finish acc) } = Some c \<and>
            unat c = 65535 - oc16 (n + s16 buf t (unat len))"
proof -
  have "n + s16 buf t (unat len) < 4294967296" using segment_le [of len t buf] assms(2) by linarith
  then have "unat (of_nat (n + s16 buf t (unat len)) :: u32) = n + s16 buf t (unat len)"
    by (rule unat_of_nat_u32)
  then show ?thesis using assms(1)
    by (simp add: cksum_accumulate_sum16 unat_cksum_finish)
qed

lemma calculate_tcp_checksum_sum16:
  assumes "t + unat len \<le> length buf"
  shows "h + 20 \<le> length buf \<Longrightarrow> \<exists>c. calculate_tcp_checksum sse2 buf (Some h) v6 t len = Some c \<and>
           unat c = 65535 - oc16 (sum16 (pseudo4 buf h IPPROTO_TCP len) + s16 buf t (unat len))"
    and "h + 40 \<le> length buf \<Longrightarrow> \<exists>c. calculate_tcp_checksum sse2 buf None (Some h) t len = Some c \<and>
           unat c = 65535 - oc16 (sum16 (pseudo6 buf h IPPROTO_TCP len) + s16 buf t (unat len))"
  using l4_finish [OF assms pseudo_le(1)] l4_finish [OF assms pseudo_le(2)]
  by (simp_all add: calculate_tcp_checksum_def pseudo4_sum pseudo6_sum)

lemma calculate_udp_checksum_sum16:
  assumes "t + unat len \<le> length buf"
  shows "h + 20 \<le> length buf \<Longrightarrow> \<exists>c. calculate_udp_checksum sse2 buf (Some h) v6 t len = Some c \<and>
           unat c = 65535 - oc16 (sum16 (pseudo4 buf h IPPROTO_UDP len) + s16 buf t (unat len))"
    and "h + 40 \<le> length buf \<Longrightarrow> \<exists>c. calculate_udp_checksum sse2 buf None (Some h) t len = Some c \<and>
           unat c = 65535 - oc16 (sum16 (pseudo6 buf h IPPROTO_UDP len) + s16 buf t (unat len))"
  using l4_finish [OF assms pseudo_le(1)] l4_finish [OF assms pseudo_le(2)]
  by (simp_all add: calculate_udp_checksum_def pseudo4_sum pseudo6_sum)

lemma udp_wire_mod: "unat (udp_checksum_for_wire c) mod 65535 = unat c mod 65535"
  "0 < unat (udp_checksum_for_wire c)"
  by (auto simp: udp_checksum_for_wire_def unat_gt_0)

section \<open>Properties\<close>

text \<open>(C25) For any segment of at most 65535 bytes and any pseudo-header sum, the optimised
  accumulation (with or without the SSE2 path) reads only inside the segment, returns, and its
  two-pass fold is the one's-complement sum of RFC 1071: no carry is lost and nothing
  wraps in the 32-bit accumulator.\<close>

theorem cksum_rfc1071:
  assumes "p + len \<le> length buf" "len \<le> 65535" "unat s \<le> 1310700"
  shows "\<exists>r. cksum_accumulate sse2 buf p len s = Some r \<and>
             unat (cksum_fold r) = oc16 (unat s + sum16 (take len (drop p buf)))"
proof -
  have "(len + 1) div 2 \<le> 32768" using assms(2) by simp
  then have "unat s + s16 buf p len < 4294967296"
    using s16_le [of len p buf] assms(3) by linarith
  then have "unat (of_nat (unat s + s16 buf p len) :: u32) = unat s + s16 buf p len"
    by (rule unat_of_nat_u32)
  then show ?thesis
    using assms(1) by (simp add: cksum_accumulate_sum16 unat_cksum_fold)
qed

theorem cksum_rfc1071_witness:
  "\<exists>r. cksum_accumulate True (map of_nat [0..<40]) 1 37 7 = Some r \<and> unat (cksum_fold r) = 22385"
proof -
  have "oc16 (unat (7 :: u32) + sum16 (take 37 (drop 1 (map of_nat [0..<40])))) = 22385"
    by (simp add: of_le16_def of_be16_def oc16_def upt_conv_Cons)
  then show ?thesis
    using cksum_rfc1071 [of 1 37 "map of_nat [0..<40]" 7 True] by simp
qed

end
