(* ===== verification/Packet_Split.thy ===== *)
theory Packet_Split
  imports Checksum
begin

text \<open>
  \<open>packet_split.c\<close>: \<open>parse_packet\<close> finds the layers of a captured frame,
  \<open>calculate_fragment_count\<close> and \<open>build_fragment\<close> split its L4 payload in frames
  that fit an MTU.  A pointer into the packet is its offset, \<^term>\<open>None\<close> the null
  pointer.  Offsets are \<open>uint16_t\<close> in the code and stay 16-bit words here, so the
  header-walking loops are partial functions: they can wrap around when
  \<open>caplen\<close> exceeds 65535, and \<^term>\<open>None\<close> then stands for the loop that never ends.
\<close>

section \<open>Header constants\<close>

definition ETHERTYPE_IP :: u16 where "ETHERTYPE_IP = 0x0800"
definition ETHERTYPE_IPV6 :: u16 where "ETHERTYPE_IPV6 = 0x86DD"
definition ETHERTYPE_VLAN :: u16 where "ETHERTYPE_VLAN = 0x8100"
definition ETHERTYPE_DOT1AD :: u16 where "ETHERTYPE_DOT1AD = 0x88A8"
definition ETHERTYPE_VLAN_9100 :: u16 where "ETHERTYPE_VLAN_9100 = 0x9100"
definition ETHERTYPE_VLAN_9200 :: u16 where "ETHERTYPE_VLAN_9200 = 0x9200"
definition IPPROTO_HOPOPTS :: u8 where "IPPROTO_HOPOPTS = 0"
definition IPPROTO_ROUTING :: u8 where "IPPROTO_ROUTING = 43"
definition IPPROTO_FRAGMENT :: u8 where "IPPROTO_FRAGMENT = 44"
definition IPPROTO_DSTOPTS :: u8 where "IPPROTO_DSTOPTS = 60"
definition IPV4_FLAG_MF :: u16 where "IPV4_FLAG_MF = 0x2000"
definition IPV4_OFFSET_MASK :: u16 where "IPV4_OFFSET_MASK = 0x1FFF"

lemmas header_consts =
  ETHERTYPE_IP_def ETHERTYPE_IPV6_def ETHERTYPE_VLAN_def ETHERTYPE_DOT1AD_def
  ETHERTYPE_VLAN_9100_def ETHERTYPE_VLAN_9200_def IPPROTO_HOPOPTS_def IPPROTO_ROUTING_def
  IPPROTO_FRAGMENT_def IPPROTO_DSTOPTS_def IPV4_FLAG_MF_def IPV4_OFFSET_MASK_def
  IPPROTO_TCP_def IPPROTO_UDP_def

definition is_vlan_ethertype :: "u16 \<Rightarrow> bool" where
  "is_vlan_ethertype t \<longleftrightarrow> t = ETHERTYPE_VLAN \<or> t = ETHERTYPE_DOT1AD \<or>
     t = ETHERTYPE_VLAN_9100 \<or> t = ETHERTYPE_VLAN_9200"

section \<open>Parsing\<close>

record packet_parse_result =
  is_ipv4 :: bool
  is_ipv6 :: bool
  is_tcp :: bool
  is_udp :: bool
  has_vlan :: bool
  eth_offset :: u16
  vlan_offset :: u16
  ip_offset :: u16
  l4_offset :: u16
  payload_offset :: u16
  ip_hdr_len :: u16
  ipv6_ext_len :: u16
  l4_hdr_len :: u16
  payload_len :: u16
  eth_hdr :: "nat option"
  vlan_hdr :: "nat option"
  ipv4_hdr :: "nat option"
  ipv6_hdr :: "nat option"
  tcp_hdr :: "nat option"
  udp_hdr :: "nat option"
  payload :: "nat option"

text \<open>The state after \<open>memset(result, 0, ...)\<close>.\<close>

definition parse_zero :: packet_parse_result where
  "parse_zero = \<lparr>is_ipv4 = False, is_ipv6 = False, is_tcp = False, is_udp = False, has_vlan = False,
     eth_offset = 0, vlan_offset = 0, ip_offset = 0, l4_offset = 0, payload_offset = 0,
     ip_hdr_len = 0, ipv6_ext_len = 0, l4_hdr_len = 0, payload_len = 0,
     eth_hdr = None, vlan_hdr = None, ipv4_hdr = None, ipv6_hdr = None,
     tcp_hdr = None, udp_hdr = None, payload = None\<rparr>"

text \<open>A stage of the parser either gives up (\<open>return false\<close>, with the result record as it
  stands) or continues with its locals.\<close>

type_synonym 'a stage = "(packet_parse_result + 'a) option"

text \<open>The VLAN loop; the locals are \<open>ether_type\<close> and \<open>offset\<close>.\<close>

partial_function (option) parse_vlan ::
  "bytes \<Rightarrow> u32 \<Rightarrow> u16 \<Rightarrow> u16 \<Rightarrow> packet_parse_result \<Rightarrow> (u16 \<times> u16 \<times> packet_parse_result) stage" where
  "parse_vlan pkt caplen ether_type offset r =
    (if ether_type = ETHERTYPE_VLAN \<or> ether_type = ETHERTYPE_DOT1AD \<or>
        ether_type = ETHERTYPE_VLAN_9100 \<or> ether_type = ETHERTYPE_VLAN_9200
     then if unat caplen < unat offset + 4 then Some (Inl r)
          else let r = (if \<not> has_vlan r
                        then r\<lparr>has_vlan := True, vlan_offset := offset, vlan_hdr := Some (unat offset)\<rparr>
                        else r)
               in do { ether_type \<leftarrow> rd16 pkt (unat offset + 2);
                       parse_vlan pkt caplen ether_type (offset + 4) r }
     else Some (Inr (ether_type, offset, r)))"

text \<open>The L4 header, parsed by the same code in the IPv4 and the IPv6 branch; the locals
  are \<open>offset\<close> and the result.\<close>

definition parse_l4 ::
  "bytes \<Rightarrow> u32 \<Rightarrow> u8 \<Rightarrow> u16 \<Rightarrow> packet_parse_result \<Rightarrow> (u16 \<times> packet_parse_result) stage" where
  "parse_l4 pkt caplen proto offset r =
    (if proto = IPPROTO_TCP
     then if unat caplen < unat offset + 20 then Some (Inl r)
          else do {
            let r = r\<lparr>tcp_hdr := Some (unat offset)\<rparr>;
            offx2 \<leftarrow> rd8 pkt (unat offset + 12);
            if drop_bit 4 offx2 < 5 then Some (Inl r)
            else do {
              let r = r\<lparr>is_tcp := True, l4_hdr_len := ucast (drop_bit 4 offx2) * 4\<rparr>;
              if unat caplen < unat offset + unat (l4_hdr_len r) then Some (Inl r)
              else Some (Inr (offset + l4_hdr_len r, r))
            }
          }
     else if proto = IPPROTO_UDP
     then if unat caplen < unat offset + 8 then Some (Inl r)
          else let r = r\<lparr>is_udp := True, udp_hdr := Some (unat offset), l4_hdr_len := 8\<rparr>
               in Some (Inr (offset + l4_hdr_len r, r))
     else Some (Inl r))"

definition parse_ipv4 ::
  "bytes \<Rightarrow> u32 \<Rightarrow> u16 \<Rightarrow> packet_parse_result \<Rightarrow> packet_parse_result stage" where
  "parse_ipv4 pkt caplen offset r =
    (if unat caplen < unat offset + 20 then Some (Inl r)
     else do {
       let ip = unat offset;
       let r = r\<lparr>is_ipv4 := True, ipv4_hdr := Some ip\<rparr>;
       b \<leftarrow> rd8 pkt ip;
       let ihl = b AND 0x0F;
       if ihl < 5 then Some (Inl r)
       else do {
         let r = r\<lparr>ip_hdr_len := ucast ihl * 4\<rparr>;
         if unat caplen < unat offset + unat (ip_hdr_len r) then Some (Inl r)
         else do {
           frag_off \<leftarrow> rd16 pkt (ip + 6);
           if frag_off AND (IPV4_FLAG_MF OR IPV4_OFFSET_MASK) \<noteq> 0 then Some (Inl r)
           else do {
             let offset = offset + ip_hdr_len r;
             let r = r\<lparr>l4_offset := offset\<rparr>;
             protocol \<leftarrow> rd8 pkt (ip + 9);
             l4 \<leftarrow> parse_l4 pkt caplen protocol offset r;
             case l4 of
               Inl r \<Rightarrow> Some (Inl r)
             | Inr (offset, r) \<Rightarrow> do {
                 let r = r\<lparr>payload_offset := offset, payload := Some (unat offset)\<rparr>;
                 ip_tot_len \<leftarrow> rd16 pkt (ip + 2);
                 let headers_len = ip_hdr_len r + l4_hdr_len r;
                 if ip_tot_len < headers_len then Some (Inl r)
                 else Some (Inr (r\<lparr>payload_len := ip_tot_len - headers_len\<rparr>))
               }
           }
         }
       }
     })"

text \<open>The IPv6 extension-header loop; the locals are \<open>nexthdr\<close> and \<open>offset\<close>.\<close>

partial_function (option) parse_ext ::
  "bytes \<Rightarrow> u32 \<Rightarrow> u8 \<Rightarrow> u16 \<Rightarrow> packet_parse_result \<Rightarrow> (u8 \<times> u16 \<times> packet_parse_result) stage" where
  "parse_ext pkt caplen nexthdr offset r =
    (if nexthdr = IPPROTO_HOPOPTS \<or> nexthdr = IPPROTO_ROUTING \<or> nexthdr = IPPROTO_DSTOPTS
     then if unat caplen < unat offset + 2 then Some (Inl r)
          else do {
            ext_nexthdr \<leftarrow> rd8 pkt (unat offset);
            ext_len \<leftarrow> rd8 pkt (unat offset + 1);
            let ext_total = (ucast ext_len + 1) * 8;
            if unat caplen < unat offset + unat ext_total then Some (Inl r)
            else parse_ext pkt caplen ext_nexthdr (offset + ext_total)
                   (r\<lparr>ipv6_ext_len := ipv6_ext_len r + ext_total\<rparr>)
          }
     else Some (Inr (nexthdr, offset, r)))"

definition parse_ipv6 ::
  "bytes \<Rightarrow> u32 \<Rightarrow> u16 \<Rightarrow> packet_parse_result \<Rightarrow> packet_parse_result stage" where
  "parse_ipv6 pkt caplen offset r =
    (if unat caplen < unat offset + 40 then Some (Inl r)
     else do {
       let ip = unat offset;
       let r = r\<lparr>is_ipv6 := True, ipv6_hdr := Some ip, ip_hdr_len := 40, ipv6_ext_len := 0\<rparr>;
       nexthdr \<leftarrow> rd8 pkt (ip + 6);
       ext \<leftarrow> parse_ext pkt caplen nexthdr (offset + 40) r;
       case ext of
         Inl r \<Rightarrow> Some (Inl r)
       | Inr (nexthdr, offset, r) \<Rightarrow>
           if nexthdr = IPPROTO_FRAGMENT then Some (Inl r)
           else do {
             let r = r\<lparr>l4_offset := offset\<rparr>;
             l4 \<leftarrow> parse_l4 pkt caplen nexthdr offset r;
             case l4 of
               Inl r \<Rightarrow> Some (Inl r)
             | Inr (offset, r) \<Rightarrow> do {
                 let r = r\<lparr>payload_offset := offset, payload := Some (unat offset)\<rparr>;
                 ipv6_payload_len \<leftarrow> rd16 pkt (ip + 4);
                 if unat ipv6_payload_len < unat (ipv6_ext_len r) + unat (l4_hdr_len r)
                 then Some (Inl r)
                 else Some (Inr (r\<lparr>payload_len := ipv6_payload_len - ipv6_ext_len r - l4_hdr_len r\<rparr>))
               }
           }
     })"

definition parse_packet :: "bytes \<Rightarrow> u32 \<Rightarrow> (bool \<times> packet_parse_result) option" where
  "parse_packet pkt caplen =
    (if unat caplen < 14 then Some (False, parse_zero)
     else do {
       let r = parse_zero\<lparr>eth_offset := 0, eth_hdr := Some 0\<rparr>;
       ether_type \<leftarrow> rd16 pkt 12;
       v \<leftarrow> parse_vlan pkt caplen ether_type 14 r;
       case v of
         Inl r \<Rightarrow> Some (False, r)
       | Inr (ether_type, offset, r) \<Rightarrow> do {
           let r = r\<lparr>ip_offset := offset\<rparr>;
           ip \<leftarrow> (if ether_type = ETHERTYPE_IP then parse_ipv4 pkt caplen offset r
                 else if ether_type = ETHERTYPE_IPV6 then parse_ipv6 pkt caplen offset r
                 else Some (Inl r));
           case ip of
             Inl r \<Rightarrow> Some (False, r)
           | Inr r \<Rightarrow>
               if ucast (payload_offset r) > caplen then Some (False, r)
               else let max_payload = ucast (caplen - ucast (payload_offset r))
                    in Some (True, if payload_len r > max_payload
                                   then r\<lparr>payload_len := max_payload\<rparr> else r)
         }
     })"

section \<open>Splitting\<close>

definition calculate_fragment_count :: "packet_parse_result \<Rightarrow> int \<Rightarrow> int" where
  "calculate_fragment_count r max_payload_size =
    (if max_payload_size \<le> 0 \<or> int (unat (payload_len r)) \<le> max_payload_size then 1
     else (int (unat (payload_len r)) + max_payload_size - 1) div max_payload_size)"

text \<open>Signed \<open>int\<close> arithmetic; overflow is undefined behaviour.\<close>

definition c_int :: "int \<Rightarrow> int option" where
  "c_int x = (if - 2147483648 \<le> x \<and> x \<le> 2147483647 then Some x else None)"

text \<open>Store a checksum: zero the field, compute, store in memory order.\<close>

definition store_check :: "bytes \<Rightarrow> nat \<Rightarrow> (bytes \<Rightarrow> u16 option) \<Rightarrow> bytes option" where
  "store_check buf at calc =
    do { buf \<leftarrow> wr_bytes buf at [0, 0]; c \<leftarrow> calc buf; wr_bytes buf at (le16 c) }"

definition fragment_ip ::
  "bool \<Rightarrow> packet_parse_result \<Rightarrow> int \<Rightarrow> bool \<Rightarrow> bytes \<Rightarrow> bytes option" where
  "fragment_ip sse2 r frag_payload_size recalculate_checksum buf =
    (let ip = unat (ip_offset r) in
     if is_ipv4 r
     then do {
       let new_ip_total_len = ip_hdr_len r + l4_hdr_len r + of_int frag_payload_size;
       buf \<leftarrow> wr_bytes buf (ip + 2) (be16 new_ip_total_len);
       if recalculate_checksum
       then store_check buf (ip + 10) (\<lambda>b. calculate_ip_checksum sse2 b ip)
       else Some buf
     }
     else if is_ipv6 r
     then do {
       let new_payload_len = ipv6_ext_len r + l4_hdr_len r + of_int frag_payload_size;
       wr_bytes buf (ip + 4) (be16 new_payload_len)
     }
     else Some buf)"

definition fragment_tcp ::
  "bool \<Rightarrow> packet_parse_result \<Rightarrow> int \<Rightarrow> int \<Rightarrow> bool \<Rightarrow> bytes \<Rightarrow> bytes option" where
  "fragment_tcp sse2 r pay_off frag_payload_size recalculate_checksum buf =
    do {
      let ip = unat (ip_offset r);
      let tcp = unat (l4_offset r);
      original_seq \<leftarrow> rd32 buf (tcp + 4);
      buf \<leftarrow> wr_bytes buf (tcp + 4) (be32 (original_seq + of_int pay_off));
      if recalculate_checksum
      then do {
        let tcp_len = l4_hdr_len r + of_int frag_payload_size;
        if is_ipv4 r
        then store_check buf (tcp + 16) (\<lambda>b. calculate_tcp_checksum sse2 b (Some ip) None tcp tcp_len)
        else if is_ipv6 r
        then store_check buf (tcp + 16) (\<lambda>b. calculate_tcp_checksum sse2 b None (Some ip) tcp tcp_len)
        else wr_bytes buf (tcp + 16) [0, 0]
      }
      else Some buf
    }"

definition fragment_udp ::
  "bool \<Rightarrow> packet_parse_result \<Rightarrow> int \<Rightarrow> bool \<Rightarrow> bytes \<Rightarrow> bytes option" where
  "fragment_udp sse2 r frag_payload_size recalculate_checksum buf =
    do {
      let ip = unat (ip_offset r);
      let udp = unat (l4_offset r);
      let udp_len = l4_hdr_len r + of_int frag_payload_size;
      buf \<leftarrow> wr_bytes buf (udp + 4) (be16 udp_len);
      if recalculate_checksum
      then
        if is_ipv4 r
        then store_check buf (udp + 6) (\<lambda>b. map_option udp_checksum_for_wire
               (calculate_udp_checksum sse2 b (Some ip) None udp udp_len))
        else if is_ipv6 r
        then store_check buf (udp + 6) (\<lambda>b. map_option udp_checksum_for_wire
               (calculate_udp_checksum sse2 b None (Some ip) udp udp_len))
        else wr_bytes buf (udp + 6) [0, 0]
      else Some buf
    }"

definition build_fragment ::
  "bool \<Rightarrow> packet_parse_result \<Rightarrow> bytes \<Rightarrow> int \<Rightarrow> int \<Rightarrow> bool \<Rightarrow> bytes \<Rightarrow> (int \<times> bytes) option" where
  "build_fragment sse2 r pkt_data fragment_index max_payload_size recalculate_checksum output_buf =
    do {
      pay_off \<leftarrow> c_int (fragment_index * max_payload_size);
      remaining \<leftarrow> c_int (int (unat (payload_len r)) - pay_off);
      let frag_payload_size = (if remaining > max_payload_size then max_payload_size else remaining);
      if frag_payload_size \<le> 0 then Some (-1, output_buf)
      else do {
        let header_len = unat (payload_offset r);
        hdr \<leftarrow> rd_bytes pkt_data 0 header_len;
        buf \<leftarrow> wr_bytes output_buf 0 hdr;
        pl \<leftarrow> payload r;
        if int pl + pay_off < 0 then None
        else do {
          body \<leftarrow> rd_bytes pkt_data (nat (int pl + pay_off)) (nat frag_payload_size);
          buf \<leftarrow> wr_bytes buf header_len body;
          let total_len = int header_len + frag_payload_size;
          buf \<leftarrow> fragment_ip sse2 r frag_payload_size recalculate_checksum buf;
          buf \<leftarrow> (if is_tcp r then fragment_tcp sse2 r pay_off frag_payload_size recalculate_checksum buf
                  else if is_udp r then fragment_udp sse2 r frag_payload_size recalculate_checksum buf
                  else Some buf);
          Some (total_len, buf)
        }
      }
    }"

section \<open>What a successful stage has established\<close>

lemma unat_nibble_shift: "unat (ucast (drop_bit 4 (b :: u8)) * 4 :: u16) = 4 * (unat b div 16)"
  "unat (drop_bit 4 b) = unat b div 16"
proof -
  have "unat b div 16 < 16" using unat_u8_lt [of b] by (simp add: less_mult_imp_div_less)
  then show "unat (ucast (drop_bit 4 (b :: u8)) * 4 :: u16) = 4 * (unat b div 16)"
    by (simp add: unat_word_ariths unat_drop_bit)
qed (simp add: unat_drop_bit)

lemma unat_nibble_low: "unat (ucast (b AND 0x0F :: u8) * 4 :: u16) = 4 * unat (b AND 0x0F)"
  using unat_ihl_le [of b] by (simp add: unat_word_ariths)

lemma unat_ext_total: "unat ((ucast (b :: u8) + 1) * 8 :: u16) = (unat b + 1) * 8"
proof -
  have "unat b * 8 + 8 < 65536" using unat_u8_lt [of b] by linarith
  then show ?thesis by (simp add: unat_word_ariths)
qed

definition l4_result :: "bytes \<Rightarrow> u8 \<Rightarrow> u16 \<Rightarrow> packet_parse_result \<Rightarrow> packet_parse_result" where
  "l4_result pkt proto off r =
    (if proto = IPPROTO_TCP
     then r\<lparr>tcp_hdr := Some (unat off), is_tcp := True,
            l4_hdr_len := ucast (drop_bit 4 (pkt ! (unat off + 12))) * 4\<rparr>
     else r\<lparr>is_udp := True, udp_hdr := Some (unat off), l4_hdr_len := 8\<rparr>)"

definition l4_accepts :: "bytes \<Rightarrow> nat \<Rightarrow> u8 \<Rightarrow> nat \<Rightarrow> bool" where
  "l4_accepts pkt caplen proto off \<longleftrightarrow>
    (proto = IPPROTO_TCP \<and> off + 20 \<le> caplen \<and> 5 \<le> unat (pkt ! (off + 12)) div 16 \<and>
       off + 4 * (unat (pkt ! (off + 12)) div 16) \<le> caplen \<or>
     proto = IPPROTO_UDP \<and> off + 8 \<le> caplen)"

lemma parse_l4_cases:
  assumes "unat caplen \<le> length pkt"
  shows "if l4_accepts pkt (unat caplen) proto (unat off)
         then parse_l4 pkt caplen proto off r =
           Some (Inr (off + l4_hdr_len (l4_result pkt proto off r), l4_result pkt proto off r))
         else \<exists>r'. parse_l4 pkt caplen proto off r = Some (Inl r')"
proof -
  have [simp]: "IPPROTO_UDP \<noteq> IPPROTO_TCP" "IPPROTO_TCP \<noteq> IPPROTO_UDP" by (simp_all add: header_consts)
  show ?thesis
  proof (cases "proto = IPPROTO_TCP \<and> unat off + 20 \<le> unat caplen")
    case True
    then have "rd8 pkt (unat off + 12) = Some (pkt ! (unat off + 12))"
      using assms by (intro rd8_in) simp
    then show ?thesis using True
      by (simp add: parse_l4_def l4_accepts_def l4_result_def Let_def unat_nibble_shift
          word_less_nat_alt not_less)
  next
    case False
    then show ?thesis
      by (auto simp: parse_l4_def l4_accepts_def l4_result_def Let_def)
  qed
qed

definition ipv4_accepts :: "bytes \<Rightarrow> nat \<Rightarrow> nat \<Rightarrow> bool" where
  "ipv4_accepts pkt caplen ip \<longleftrightarrow>
    ip + 20 \<le> caplen \<and> 5 \<le> unat (pkt ! ip AND 0x0F) \<and> ip + hdr_len4 pkt ip \<le> caplen \<and>
    of_be16 (pkt ! (ip + 6)) (pkt ! (ip + 7)) AND (IPV4_FLAG_MF OR IPV4_OFFSET_MASK) = 0 \<and>
    l4_accepts pkt caplen (pkt ! (ip + 9)) (ip + hdr_len4 pkt ip)"

definition ipv4_result :: "bytes \<Rightarrow> u16 \<Rightarrow> packet_parse_result \<Rightarrow> packet_parse_result" where
  "ipv4_result pkt offset r =
    (let ip = unat offset;
         hl = ucast (pkt ! ip AND 0x0F) * 4;
         r = r\<lparr>is_ipv4 := True, ipv4_hdr := Some ip, ip_hdr_len := hl, l4_offset := offset + hl\<rparr>;
         r = l4_result pkt (pkt ! (ip + 9)) (offset + hl) r;
         po = offset + hl + l4_hdr_len r
     in r\<lparr>payload_offset := po, payload := Some (unat po)\<rparr>)"

lemma parse_ipv4_cases:
  assumes len: "unat caplen \<le> length pkt" and c: "unat caplen \<le> 65535"
  shows "if ipv4_accepts pkt (unat caplen) (unat off)
         then let r1 = ipv4_result pkt off r; L = of_be16 (pkt ! (unat off + 2)) (pkt ! (unat off + 3));
                  H = ip_hdr_len r1 + l4_hdr_len r1
              in parse_ipv4 pkt caplen off r =
                   Some (if L < H then Inl r1 else Inr (r1\<lparr>payload_len := L - H\<rparr>))
         else \<exists>r'. parse_ipv4 pkt caplen off r = Some (Inl r')"
proof (cases "unat off + 20 \<le> unat caplen")
  case True
  let ?ip = "unat off" and ?hl = "ucast (pkt ! unat off AND 0x0F) * 4 :: u16"
  have rd: "rd8 pkt ?ip = Some (pkt ! ?ip)" "rd8 pkt (?ip + 9) = Some (pkt ! (?ip + 9))"
    "rd16 pkt (?ip + 6) = Some (of_be16 (pkt ! (?ip + 6)) (pkt ! (?ip + 7)))"
    "rd16 pkt (?ip + 2) = Some (of_be16 (pkt ! (?ip + 2)) (pkt ! (?ip + 3)))"
    using True len by (simp_all add: mem_simps add.commute numeral_3_eq_3)
  have off: "unat (off + ?hl) = ?ip + hdr_len4 pkt ?ip" if "?ip + hdr_len4 pkt ?ip \<le> unat caplen"
    using that c by (simp add: unat_word_ariths unat_nibble_low [unfolded unat_word_ariths] hdr_len4_def)
  let ?r = "r\<lparr>is_ipv4 := True, ipv4_hdr := Some ?ip, ip_hdr_len := ?hl, l4_offset := off + ?hl\<rparr>"
  note l4 = parse_l4_cases [OF len, of "pkt ! (?ip + 9)" "off + ?hl" ?r]
  show ?thesis
  proof (cases "5 \<le> unat (pkt ! ?ip AND 0x0F) \<and> ?ip + hdr_len4 pkt ?ip \<le> unat caplen \<and>
      of_be16 (pkt ! (?ip + 6)) (pkt ! (?ip + 7)) AND (IPV4_FLAG_MF OR IPV4_OFFSET_MASK) = 0")
    case ok: True
    then show ?thesis
      using True rd off l4
      by (auto simp: parse_ipv4_def ipv4_accepts_def ipv4_result_def Let_def unat_nibble_low
          hdr_len4_def word_less_nat_alt not_less split: if_splits)
  next
    case False
    then show ?thesis
      using True rd by (auto simp: parse_ipv4_def ipv4_accepts_def Let_def unat_nibble_low
          hdr_len4_def word_less_nat_alt not_less)
  qed
qed (simp add: parse_ipv4_def ipv4_accepts_def)

text \<open>Below 64 KiB the two header-walking loops end, and when they succeed their outcome
  depends only on the bytes they walked over.\<close>

definition agree :: "bytes \<Rightarrow> bytes \<Rightarrow> nat \<Rightarrow> nat \<Rightarrow> bool" where
  "agree a b lo hi \<longleftrightarrow> (\<forall>i. lo \<le> i \<and> i < hi \<longrightarrow> a ! i = b ! i)"

lemma agree_sub: "agree a b lo hi \<Longrightarrow> lo \<le> lo' \<Longrightarrow> hi' \<le> hi \<Longrightarrow> agree a b lo' hi'"
  by (auto simp: agree_def)

lemma agree_refl [simp]: "agree a a lo hi"
  by (simp add: agree_def)

definition frame_ok :: "bytes \<Rightarrow> u32 \<Rightarrow> bool" where
  "frame_ok pkt caplen \<longleftrightarrow> unat caplen \<le> length pkt \<and> unat caplen \<le> 65535"

definition is_ext :: "u8 \<Rightarrow> bool" where
  "is_ext nexthdr \<longleftrightarrow> nexthdr = IPPROTO_HOPOPTS \<or> nexthdr = IPPROTO_ROUTING \<or> nexthdr = IPPROTO_DSTOPTS"

definition ext_total_at :: "bytes \<Rightarrow> nat \<Rightarrow> u16" where
  "ext_total_at pkt i = (ucast (pkt ! (i + 1)) + 1) * 8"

lemma unat_ext_total_at: "unat (ext_total_at pkt i) = (unat (pkt ! (i + 1)) + 1) * 8"
  unfolding ext_total_at_def by (rule unat_ext_total)

lemma parse_ext_unfold:
  assumes "frame_ok pkt caplen" "unat off \<le> unat caplen"
  shows "parse_ext pkt caplen nh off r =
    (if \<not> is_ext nh then Some (Inr (nh, off, r))
     else if unat caplen < unat off + 2 \<or> unat caplen < unat off + unat (ext_total_at pkt (unat off))
     then Some (Inl r)
     else parse_ext pkt caplen (pkt ! unat off) (off + ext_total_at pkt (unat off))
            (r\<lparr>ipv6_ext_len := ipv6_ext_len r + ext_total_at pkt (unat off)\<rparr>))"
  using assms
  by (subst parse_ext.simps) (auto simp: frame_ok_def is_ext_def rd8_in not_less Let_def ext_total_at_def)

lemma ext_step:
  assumes "unat off + unat (ext_total_at pkt (unat off)) \<le> n" "n \<le> 65535"
  shows "unat (off + ext_total_at pkt (unat off)) = unat off + unat (ext_total_at pkt (unat off))"
    and "0 < unat (ext_total_at pkt (unat off))"
  using assms by (simp_all add: unat_add16 unat_ext_total_at)

lemma parse_ext_ends:
  assumes f: "frame_ok pkt caplen" and "unat off \<le> unat caplen"
  shows "\<exists>v. parse_ext pkt caplen nh off r = Some v"
  using assms(2)
proof (induction "unat caplen - unat off" arbitrary: nh off r rule: less_induct)
  case less
  let ?t = "ext_total_at pkt (unat off)"
  show ?case
  proof (cases "is_ext nh \<and> unat off + 2 \<le> unat caplen \<and> unat off + unat ?t \<le> unat caplen")
    case True
    then have "unat (off + ?t) = unat off + unat ?t" "0 < unat ?t"
      using ext_step [of off pkt "unat caplen"] f by (simp_all add: frame_ok_def)
    then have "unat caplen - unat (off + ?t) < unat caplen - unat off" "unat (off + ?t) \<le> unat caplen"
      using True by linarith+
    then have "\<exists>v. parse_ext pkt caplen nh' (off + ?t) r' = Some v" for nh' r' by (rule less(1))
    then show ?thesis
      using True parse_ext_unfold [OF f less(2)] by simp
  qed (use parse_ext_unfold [OF f less(2)] in auto)
qed

definition ext_outcome :: "bytes \<Rightarrow> u32 \<Rightarrow> u8 \<Rightarrow> u16 \<Rightarrow> u8 \<Rightarrow> u16 \<Rightarrow> bool" where
  "ext_outcome pkt caplen nh off nh' off' \<longleftrightarrow>
    \<not> is_ext nh' \<and> unat off \<le> unat off' \<and> unat off' \<le> unat caplen \<and>
    (\<forall>pkt' caplen' r. agree pkt' pkt (unat off) (unat off') \<longrightarrow> frame_ok pkt' caplen' \<longrightarrow>
       unat off' \<le> unat caplen' \<longrightarrow>
       parse_ext pkt' caplen' nh off r =
         Some (Inr (nh', off', r\<lparr>ipv6_ext_len := ipv6_ext_len r + (off' - off)\<rparr>)))"

lemma parse_ext_outcome:
  assumes f: "frame_ok pkt caplen" and "unat off \<le> unat caplen"
    and "parse_ext pkt caplen nh off r = Some (Inr (nh', off', r'))"
  shows "ext_outcome pkt caplen nh off nh' off'"
  using assms(2,3)
proof (induction "unat caplen - unat off" arbitrary: nh off r rule: less_induct)
  case less
  note unf = parse_ext_unfold [OF f less(2), of nh r]
  let ?t = "ext_total_at pkt (unat off)"
  show ?case
  proof (cases "is_ext nh")
    case False
    then show ?thesis
      using less(2,3) unf by (auto simp: ext_outcome_def parse_ext_unfold)
  next
    case True
    then have le: "unat off + 2 \<le> unat caplen" "unat off + unat ?t \<le> unat caplen"
      using less(3) unf by (auto split: if_splits)
    then have t: "unat (off + ?t) = unat off + unat ?t" "0 < unat ?t"
      using ext_step [of off pkt "unat caplen"] f by (simp_all add: frame_ok_def)
    have ih: "ext_outcome pkt caplen (pkt ! unat off) (off + ?t) nh' off'"
    proof (rule less(1))
      show "unat caplen - unat (off + ?t) < unat caplen - unat off" "unat (off + ?t) \<le> unat caplen"
        using le t by linarith+
      show "parse_ext pkt caplen (pkt ! unat off) (off + ?t)
          (r\<lparr>ipv6_ext_len := ipv6_ext_len r + ?t\<rparr>) = Some (Inr (nh', off', r'))"
        using less(3) True le unf by simp
    qed
    show ?thesis unfolding ext_outcome_def
    proof (intro conjI allI impI)
      fix pkt' caplen' r
      assume a: "agree pkt' pkt (unat off) (unat off')" "frame_ok pkt' caplen'" "unat off' \<le> unat caplen'"
      have o: "unat off + unat ?t \<le> unat off'" "2 \<le> unat ?t"
        using ih t by (simp_all add: ext_outcome_def unat_ext_total_at)
      have e: "pkt' ! unat off = pkt ! unat off" "pkt' ! (unat off + 1) = pkt ! (unat off + 1)"
        using a(1) o by (simp_all add: agree_def)
      have "agree pkt' pkt (unat (off + ?t)) (unat off')"
        using a(1) t by (auto intro: agree_sub)
      then have "parse_ext pkt' caplen' (pkt ! unat off) (off + ?t) r'' =
        Some (Inr (nh', off', r''\<lparr>ipv6_ext_len := ipv6_ext_len r'' + (off' - (off + ?t))\<rparr>))" for r''
        using ih a by (simp add: ext_outcome_def)
      then show "parse_ext pkt' caplen' nh off r =
          Some (Inr (nh', off', r\<lparr>ipv6_ext_len := ipv6_ext_len r + (off' - off)\<rparr>))"
        using True a o e parse_ext_unfold [OF a(2), of off nh r] by (simp add: ext_total_at_def)
    qed (use ih t in \<open>simp_all add: ext_outcome_def\<close>)
  qed
qed

definition vlan_mark :: "u16 \<Rightarrow> packet_parse_result \<Rightarrow> packet_parse_result" where
  "vlan_mark off r =
    (if \<not> has_vlan r then r\<lparr>has_vlan := True, vlan_offset := off, vlan_hdr := Some (unat off)\<rparr> else r)"

lemma vlan_mark_idem [simp]: "vlan_mark off' (vlan_mark off r) = vlan_mark off r"
  by (simp add: vlan_mark_def)

lemma parse_vlan_unfold:
  assumes "frame_ok pkt caplen" "unat off \<le> unat caplen"
  shows "parse_vlan pkt caplen et off r =
    (if \<not> is_vlan_ethertype et then Some (Inr (et, off, r))
     else if unat caplen < unat off + 4 then Some (Inl r)
     else parse_vlan pkt caplen (of_be16 (pkt ! (unat off + 2)) (pkt ! (unat off + 3))) (off + 4)
            (vlan_mark off r))"
proof -
  have "rd16 pkt (unat off + 2) = Some (of_be16 (pkt ! (unat off + 2)) (pkt ! (unat off + 3)))"
    if "unat off + 4 \<le> unat caplen"
    using that assms by (simp add: frame_ok_def rd16_in numeral_3_eq_3)
  then show ?thesis
    by (subst parse_vlan.simps) (auto simp: is_vlan_ethertype_def vlan_mark_def not_less Let_def)
qed

lemma vlan_step: "unat off + 4 \<le> 65535 \<Longrightarrow> unat (off + 4 :: u16) = unat off + 4"
  using unat_add16 [of off 4] by simp

lemma parse_vlan_ends:
  assumes f: "frame_ok pkt caplen" and "unat off \<le> unat caplen"
  shows "\<exists>v. parse_vlan pkt caplen et off r = Some v"
  using assms(2)
proof (induction "unat caplen - unat off" arbitrary: et off r rule: less_induct)
  case less
  show ?case
  proof (cases "is_vlan_ethertype et \<and> unat off + 4 \<le> unat caplen")
    case True
    then have "unat (off + 4) = unat off + 4" using f by (simp add: frame_ok_def vlan_step)
    then have "unat caplen - unat (off + 4) < unat caplen - unat off" "unat (off + 4) \<le> unat caplen"
      using True by linarith+
    then have "\<exists>v. parse_vlan pkt caplen et' (off + 4) r' = Some v" for et' r' by (rule less(1))
    then show ?thesis using True parse_vlan_unfold [OF f less(2)] by simp
  qed (use parse_vlan_unfold [OF f less(2)] in auto)
qed

definition vlan_outcome :: "bytes \<Rightarrow> u32 \<Rightarrow> u16 \<Rightarrow> u16 \<Rightarrow> u16 \<Rightarrow> u16 \<Rightarrow> bool" where
  "vlan_outcome pkt caplen et off et' off' \<longleftrightarrow>
    \<not> is_vlan_ethertype et' \<and> unat off \<le> unat off' \<and> unat off' \<le> unat caplen \<and>
    4 dvd (unat off' - unat off) \<and>
    (\<forall>pkt' caplen' r. agree pkt' pkt (unat off) (unat off') \<longrightarrow> frame_ok pkt' caplen' \<longrightarrow>
       unat off' \<le> unat caplen' \<longrightarrow>
       parse_vlan pkt' caplen' et off r =
         Some (Inr (et', off', if is_vlan_ethertype et then vlan_mark off r else r)))"

lemma parse_vlan_outcome:
  assumes f: "frame_ok pkt caplen" and "unat off \<le> unat caplen"
    and "parse_vlan pkt caplen et off r = Some (Inr (et', off', r'))"
  shows "vlan_outcome pkt caplen et off et' off'"
  using assms(2,3)
proof (induction "unat caplen - unat off" arbitrary: et off r rule: less_induct)
  case less
  note unf = parse_vlan_unfold [OF f less(2), of et r]
  let ?e = "of_be16 (pkt ! (unat off + 2)) (pkt ! (unat off + 3))"
  show ?case
  proof (cases "is_vlan_ethertype et")
    case False
    then show ?thesis
      using less(2,3) unf by (auto simp: vlan_outcome_def parse_vlan_unfold)
  next
    case True
    then have le: "unat off + 4 \<le> unat caplen"
      using less(3) unf by (auto split: if_splits)
    then have t: "unat (off + 4) = unat off + 4" using f by (simp add: frame_ok_def vlan_step)
    have ih: "vlan_outcome pkt caplen ?e (off + 4) et' off'"
    proof (rule less(1))
      show "unat caplen - unat (off + 4) < unat caplen - unat off" "unat (off + 4) \<le> unat caplen"
        using le t by linarith+
      show "parse_vlan pkt caplen ?e (off + 4) (vlan_mark off r) = Some (Inr (et', off', r'))"
        using less(3) True le unf by simp
    qed
    have o: "unat off + 4 \<le> unat off'" "4 dvd (unat off' - (unat off + 4))"
      using ih t by (simp_all add: vlan_outcome_def)
    show ?thesis unfolding vlan_outcome_def
    proof (intro conjI allI impI)
      fix pkt' caplen' r
      assume a: "agree pkt' pkt (unat off) (unat off')" "frame_ok pkt' caplen'" "unat off' \<le> unat caplen'"
      have e: "pkt' ! (unat off + 2) = pkt ! (unat off + 2)" "pkt' ! (unat off + 3) = pkt ! (unat off + 3)"
        using a(1) o by (simp_all add: agree_def)
      have "agree pkt' pkt (unat (off + 4)) (unat off')"
        using a(1) t by (auto intro: agree_sub)
      then have "parse_vlan pkt' caplen' ?e (off + 4) (vlan_mark off r) =
          Some (Inr (et', off', vlan_mark off r))"
        using ih a by (simp add: vlan_outcome_def)
      then show "parse_vlan pkt' caplen' et off r =
          Some (Inr (et', off', if is_vlan_ethertype et then vlan_mark off r else r))"
        using True a o parse_vlan_unfold [OF a(2), of off et r] unfolding e by simp
    next
      have "unat off' - unat off = (unat off' - (unat off + 4)) + 4" using o(1) by linarith
      then show "4 dvd (unat off' - unat off)" by (simp only: dvd_add [OF o(2) dvd_refl])
    qed (use ih t in \<open>simp_all add: vlan_outcome_def\<close>)
  qed
qed

definition ipv6_result :: "bytes \<Rightarrow> u16 \<Rightarrow> u8 \<Rightarrow> u16 \<Rightarrow> packet_parse_result \<Rightarrow> packet_parse_result" where
  "ipv6_result pkt off nh off' r =
    (let r = r\<lparr>is_ipv6 := True, ipv6_hdr := Some (unat off), ip_hdr_len := 40,
               ipv6_ext_len := off' - (off + 40), l4_offset := off'\<rparr>;
         r = l4_result pkt nh off' r;
         po = off' + l4_hdr_len r
     in r\<lparr>payload_offset := po, payload := Some (unat po)\<rparr>)"

lemma parse_ipv6_cases:
  assumes f: "frame_ok pkt caplen" and c: "unat off + 40 \<le> unat caplen"
    and e: "ext_outcome pkt caplen (pkt ! (unat off + 6)) (off + 40) nh off'"
  shows "if nh \<noteq> IPPROTO_FRAGMENT \<and> l4_accepts pkt (unat caplen) nh (unat off')
         then let r1 = ipv6_result pkt off nh off' r; L = of_be16 (pkt ! (unat off + 4)) (pkt ! (unat off + 5))
              in parse_ipv6 pkt caplen off r =
                   Some (if unat L < unat (ipv6_ext_len r1) + unat (l4_hdr_len r1) then Inl r1
                         else Inr (r1\<lparr>payload_len := L - ipv6_ext_len r1 - l4_hdr_len r1\<rparr>))
         else \<exists>r'. parse_ipv6 pkt caplen off r = Some (Inl r')"
proof -
  let ?ip = "unat off"
  let ?ra = "r\<lparr>is_ipv6 := True, ipv6_hdr := Some ?ip, ip_hdr_len := 40, ipv6_ext_len := 0\<rparr>"
  let ?rb = "r\<lparr>is_ipv6 := True, ipv6_hdr := Some ?ip, ip_hdr_len := 40,
               ipv6_ext_len := off' - (off + 40), l4_offset := off'\<rparr>"
  have rd: "rd8 pkt (?ip + 6) = Some (pkt ! (?ip + 6))"
    "rd16 pkt (?ip + 4) = Some (of_be16 (pkt ! (?ip + 4)) (pkt ! (?ip + 5)))"
    using c f by (simp_all add: frame_ok_def mem_simps add.commute)
  have ext: "parse_ext pkt caplen (pkt ! (?ip + 6)) (off + 40) ?ra =
      Some (Inr (nh, off', ?ra\<lparr>ipv6_ext_len := off' - (off + 40)\<rparr>))"
    using e f by (simp add: ext_outcome_def)
  have len: "unat caplen \<le> length pkt" using f by (simp add: frame_ok_def)
  note l4 = parse_l4_cases [OF len, of nh off' ?rb]
  have l4r: "ipv6_ext_len (l4_result pkt nh off' ?rb) = off' - (off + 40)"
    by (simp add: l4_result_def)
  show ?thesis
  proof (cases "nh \<noteq> IPPROTO_FRAGMENT \<and> l4_accepts pkt (unat caplen) nh (unat off')")
    case True
    then show ?thesis
      using c rd ext l4 by (simp add: parse_ipv6_def ipv6_result_def Let_def)
  next
    case False
    then show ?thesis
      using c rd ext l4 by (auto simp: parse_ipv6_def Let_def split: if_splits)
  qed
qed

lemma parse_ipv6_ends:
  assumes f: "frame_ok pkt caplen" and o: "unat off \<le> unat caplen"
  shows "(\<exists>r'. parse_ipv6 pkt caplen off r = Some (Inl r')) \<or>
    (unat off + 40 \<le> unat caplen \<and>
      (\<exists>nh off'. ext_outcome pkt caplen (pkt ! (unat off + 6)) (off + 40) nh off' \<and>
                nh \<noteq> IPPROTO_FRAGMENT \<and> l4_accepts pkt (unat caplen) nh (unat off')))"
proof (cases "unat off + 40 \<le> unat caplen")
  case True
  have o40: "unat (off + 40) = unat off + 40"
    using True f unat_add16 [of off 40] by (simp add: frame_ok_def)
  then obtain v where v: "parse_ext pkt caplen (pkt ! (unat off + 6)) (off + 40)
      (r\<lparr>is_ipv6 := True, ipv6_hdr := Some (unat off), ip_hdr_len := 40, ipv6_ext_len := 0\<rparr>) = Some v"
    using parse_ext_ends [OF f] True by (metis)
  show ?thesis
  proof (cases v)
    case (Inl r')
    have "rd8 pkt (unat off + 6) = Some (pkt ! (unat off + 6))"
      using True f by (simp add: frame_ok_def mem_simps)
    then show ?thesis using True v Inl by (simp add: parse_ipv6_def Let_def)
  next
    case (Inr x)
    then obtain nh off' r' where "v = Inr (nh, off', r')" by (cases x) auto
    then have "ext_outcome pkt caplen (pkt ! (unat off + 6)) (off + 40) nh off'"
      using parse_ext_outcome [OF f] v o40 True by metis
    then show ?thesis
      using parse_ipv6_cases [OF f True, of nh off' r] True by (meson)
  qed
qed (simp add: parse_ipv6_def)

section \<open>Shape of a parsed packet\<close>

abbreviation ether_type0 :: "bytes \<Rightarrow> u16" where
  "ether_type0 pkt \<equiv> of_be16 (pkt ! 12) (pkt ! 13)"

definition base_result :: "bytes \<Rightarrow> u16 \<Rightarrow> packet_parse_result" where
  "base_result pkt ip =
    (let r = parse_zero\<lparr>eth_hdr := Some 0\<rparr>
     in (if is_vlan_ethertype (ether_type0 pkt) then vlan_mark 14 r else r)\<lparr>ip_offset := ip\<rparr>)"

text \<open>\<open>parse_shape pkt caplen declared r\<close>: the headers of \<open>pkt\<close> are accepted with the layer
  offsets in \<open>r\<close>, and they declare a payload of \<open>declared\<close> bytes.\<close>

inductive parse_shape :: "bytes \<Rightarrow> u32 \<Rightarrow> nat \<Rightarrow> packet_parse_result \<Rightarrow> bool" where
  v4: "\<lbrakk>14 \<le> unat caplen; vlan_outcome pkt caplen (ether_type0 pkt) 14 ETHERTYPE_IP ip;
        ipv4_accepts pkt (unat caplen) (unat ip); r = ipv4_result pkt ip (base_result pkt ip);
        unat (of_be16 (pkt ! (unat ip + 2)) (pkt ! (unat ip + 3)))
          = unat (ip_hdr_len r) + unat (l4_hdr_len r) + declared\<rbrakk>
       \<Longrightarrow> parse_shape pkt caplen declared r"
| v6: "\<lbrakk>14 \<le> unat caplen; vlan_outcome pkt caplen (ether_type0 pkt) 14 ETHERTYPE_IPV6 ip;
        unat ip + 40 \<le> unat caplen;
        ext_outcome pkt caplen (pkt ! (unat ip + 6)) (ip + 40) nh l4;
        nh \<noteq> IPPROTO_FRAGMENT; l4_accepts pkt (unat caplen) nh (unat l4);
        r = ipv6_result pkt ip nh l4 (base_result pkt ip);
        unat (of_be16 (pkt ! (unat ip + 4)) (pkt ! (unat ip + 5)))
          = unat (ipv6_ext_len r) + unat (l4_hdr_len r) + declared\<rbrakk>
       \<Longrightarrow> parse_shape pkt caplen declared r"

text \<open>The layers of a parsed packet follow one another inside the captured bytes.\<close>

definition layers_ok :: "nat \<Rightarrow> packet_parse_result \<Rightarrow> bool" where
  "layers_ok caplen r \<longleftrightarrow>
    is_ipv4 r \<noteq> is_ipv6 r \<and> is_tcp r \<noteq> is_udp r \<and>
    14 \<le> unat (ip_offset r) \<and> 4 dvd (unat (ip_offset r) - 14) \<and>
    unat (l4_offset r) = unat (ip_offset r) + unat (ip_hdr_len r) + unat (ipv6_ext_len r) \<and>
    unat (payload_offset r) = unat (l4_offset r) + unat (l4_hdr_len r) \<and>
    unat (payload_offset r) \<le> caplen \<and> payload r = Some (unat (payload_offset r)) \<and>
    (if is_ipv4 r then 20 \<le> unat (ip_hdr_len r) \<and> unat (ip_hdr_len r) \<le> 60 \<and> ipv6_ext_len r = 0
     else ip_hdr_len r = 40) \<and>
    (if is_tcp r then 20 \<le> unat (l4_hdr_len r) \<and> unat (l4_hdr_len r) \<le> 60 else l4_hdr_len r = 8)"

lemma l4_result_simps [simp]:
  "is_ipv4 (l4_result pkt proto off r) = is_ipv4 r" "is_ipv6 (l4_result pkt proto off r) = is_ipv6 r"
  "ip_offset (l4_result pkt proto off r) = ip_offset r" "l4_offset (l4_result pkt proto off r) = l4_offset r"
  "ip_hdr_len (l4_result pkt proto off r) = ip_hdr_len r"
  "ipv6_ext_len (l4_result pkt proto off r) = ipv6_ext_len r"
  by (simp_all add: l4_result_def)

lemma base_result_simps [simp]:
  "\<not> is_ipv4 (base_result pkt ip)" "\<not> is_ipv6 (base_result pkt ip)"
  "\<not> is_tcp (base_result pkt ip)" "\<not> is_udp (base_result pkt ip)"
  "ip_offset (base_result pkt ip) = ip" "ipv6_ext_len (base_result pkt ip) = 0"
  by (simp_all add: base_result_def vlan_mark_def parse_zero_def Let_def)

lemma l4_accepts_len:
  assumes "l4_accepts pkt n proto (unat off)" "\<not> is_tcp r" "\<not> is_udp r"
  defines "r' \<equiv> l4_result pkt proto off r"
  shows "unat off + unat (l4_hdr_len r') \<le> n" "is_tcp r' \<noteq> is_udp r'"
    "if is_tcp r' then 20 \<le> unat (l4_hdr_len r') \<and> unat (l4_hdr_len r') \<le> 60 else l4_hdr_len r' = 8"
proof -
  have "unat b div 16 \<le> 15" for b :: u8
    using unat_u8_lt [of b] less_mult_imp_div_less [of "unat b" 16 16] by simp
  moreover have "4 * x \<le> 60" if "x \<le> 15" for x :: nat using that by simp
  ultimately have b: "4 * (unat b div 16) \<le> 60" for b :: u8 by blast
  show "unat off + unat (l4_hdr_len r') \<le> n" "is_tcp r' \<noteq> is_udp r'"
    "if is_tcp r' then 20 \<le> unat (l4_hdr_len r') \<and> unat (l4_hdr_len r') \<le> 60 else l4_hdr_len r' = 8"
    using assms(1-3) b unfolding r'_def l4_accepts_def
    by (auto simp: l4_result_def unat_nibble_shift header_consts)
qed

lemma parse_shape_layers:
  assumes "parse_shape pkt caplen d r" "frame_ok pkt caplen"
  shows "layers_ok (unat caplen) r"
  using assms
proof (induction rule: parse_shape.induct)
  case (v4 caplen pkt ip r declared)
  let ?hl = "ucast (pkt ! unat ip AND 0x0F) * 4 :: u16"
  have hl: "unat ?hl = hdr_len4 pkt (unat ip)" by (simp add: unat_nibble_low hdr_len4_def)
  have a: "unat ip + hdr_len4 pkt (unat ip) \<le> unat caplen" "20 \<le> hdr_len4 pkt (unat ip)"
    "hdr_len4 pkt (unat ip) \<le> 60"
    using v4(3) unat_ihl_le [of "pkt ! unat ip"] by (simp_all add: ipv4_accepts_def hdr_len4_def)
  have c: "unat caplen \<le> 65535" using v4(6) by (simp add: frame_ok_def)
  then have l4: "unat (ip + ?hl) = unat ip + hdr_len4 pkt (unat ip)"
    using unat_add16 [of ip ?hl] a(1) unfolding hl by simp
  let ?r = "(base_result pkt ip)\<lparr>is_ipv4 := True, ipv4_hdr := Some (unat ip), ip_hdr_len := ?hl, l4_offset := ip + ?hl\<rparr>"
  have "l4_accepts pkt (unat caplen) (pkt ! (unat ip + 9)) (unat (ip + ?hl))"
    using v4(3) l4 by (simp add: ipv4_accepts_def)
  note L = l4_accepts_len [OF this, of ?r, simplified]
  have "unat (ip + ?hl + l4_hdr_len (l4_result pkt (pkt ! (unat ip + 9)) (ip + ?hl) ?r))
      = unat (ip + ?hl) + unat (l4_hdr_len (l4_result pkt (pkt ! (unat ip + 9)) (ip + ?hl) ?r))"
    using unat_add16 L(1) c by (meson le_trans)
  then show ?case
    using v4(2) a L l4 hl unfolding v4(4) ipv4_result_def Let_def layers_ok_def
    by (simp add: vlan_outcome_def)
next
  case (v6 caplen pkt ip nh l4 r declared)
  have c: "unat caplen \<le> 65535" using v6(9) by (simp add: frame_ok_def)
  then have o40: "unat (ip + 40) = unat ip + 40" using unat_add16 [of ip 40] v6(3) by simp
  have "unat (ip + 40) \<le> unat l4" using v6(4) by (simp add: ext_outcome_def)
  then have d: "unat (l4 - (ip + 40)) = unat l4 - (unat ip + 40)" "unat ip + 40 \<le> unat l4"
    using o40 by (simp_all add: unat_sub word_le_nat_alt)
  let ?r = "(base_result pkt ip)\<lparr>is_ipv6 := True, ipv6_hdr := Some (unat ip), ip_hdr_len := 40,
               ipv6_ext_len := l4 - (ip + 40), l4_offset := l4\<rparr>"
  note L = l4_accepts_len [OF v6(6), of ?r, simplified]
  have "unat (l4 + l4_hdr_len (l4_result pkt nh l4 ?r)) = unat l4 + unat (l4_hdr_len (l4_result pkt nh l4 ?r))"
    using unat_add16 L(1) c by (meson le_trans)
  then show ?case
    using v6(2) d L unfolding v6(7) ipv6_result_def Let_def layers_ok_def
    by (simp add: vlan_outcome_def)
qed

lemma clamp:
  fixes po L :: u16 and c :: u32
  assumes "unat po \<le> unat c" "unat c \<le> 65535" "unat L = d"
  shows "\<not> c < ucast po"
    and "(if L > ucast (c - ucast po) then ucast (c - ucast po) else L) = of_nat (min d (unat c - unat po))"
proof -
  show n: "\<not> c < ucast po" using assms(1) by (simp add: word_less_nat_alt)
  then have "unat (c - ucast po) = unat c - unat po" by (simp add: unat_sub not_less)
  then have "unat (ucast (c - ucast po) :: u16) = unat c - unat po"
    using assms(2) by (simp add: unat_ucast)
  then show "(if L > ucast (c - ucast po) then ucast (c - ucast po) else L) = of_nat (min d (unat c - unat po))"
    using assms(3) less_Suc_eq_le [of "unat c - unat po" 65535] assms(2)
    by (auto simp: word_less_nat_alt word_unat_eq_iff min_def unat_of_nat)
qed

definition with_payload :: "u32 \<Rightarrow> nat \<Rightarrow> packet_parse_result \<Rightarrow> packet_parse_result" where
  "with_payload caplen d r = r\<lparr>payload_len := of_nat (min d (unat caplen - unat (payload_offset r)))\<rparr>"

lemma parse_packet_ip:
  assumes f: "frame_ok pkt caplen" and c: "14 \<le> unat caplen"
    and v: "vlan_outcome pkt caplen (ether_type0 pkt) 14 et ip"
  shows "parse_packet pkt caplen =
    do { x \<leftarrow> (if et = ETHERTYPE_IP then parse_ipv4 pkt caplen ip (base_result pkt ip)
               else if et = ETHERTYPE_IPV6 then parse_ipv6 pkt caplen ip (base_result pkt ip)
               else Some (Inl (base_result pkt ip)));
         case x of
           Inl r \<Rightarrow> Some (False, r)
         | Inr r \<Rightarrow>
             if ucast (payload_offset r) > caplen then Some (False, r)
             else let max_payload = ucast (caplen - ucast (payload_offset r))
                  in Some (True, if payload_len r > max_payload then r\<lparr>payload_len := max_payload\<rparr> else r) }"
proof -
  have "rd16 pkt 12 = Some (ether_type0 pkt)"
    using c f by (simp add: frame_ok_def rd16_in)
  moreover have "parse_vlan pkt caplen (ether_type0 pkt) 14 r =
      Some (Inr (et, ip, if is_vlan_ethertype (ether_type0 pkt) then vlan_mark 14 r else r))" for r
    using v f by (simp add: vlan_outcome_def)
  moreover have "parse_zero\<lparr>eth_offset := 0, eth_hdr := Some 0\<rparr> = parse_zero\<lparr>eth_hdr := Some 0\<rparr>"
    by (simp add: parse_zero_def)
  ultimately show ?thesis
    using c by (simp add: parse_packet_def base_result_def Let_def)
qed

lemma parse_of_shape:
  assumes "parse_shape pkt caplen d r" "frame_ok pkt caplen"
  shows "parse_packet pkt caplen = Some (True, with_payload caplen d r)"
  using assms(1)
proof cases
  case (v4 ip)
  let ?L = "of_be16 (pkt ! (unat ip + 2)) (pkt ! (unat ip + 3))"
  have c: "unat caplen \<le> length pkt" "unat caplen \<le> 65535" using assms(2) by (simp_all add: frame_ok_def)
  have po: "unat (payload_offset r) \<le> unat caplen"
    using parse_shape_layers [OF assms] by (simp add: layers_ok_def)
  have H: "unat (ip_hdr_len r + l4_hdr_len r) = unat (ip_hdr_len r) + unat (l4_hdr_len r)"
    using unat_add16 [of "ip_hdr_len r" "l4_hdr_len r"] v4(5) unat_u16_lt [of ?L] by linarith
  have L: "\<not> ?L < ip_hdr_len r + l4_hdr_len r" "unat (?L - (ip_hdr_len r + l4_hdr_len r)) = d"
    using H v4(5) by (simp_all add: word_less_nat_alt unat_sub word_le_nat_alt)
  have "parse_ipv4 pkt caplen ip (base_result pkt ip) =
      Some (Inr (r\<lparr>payload_len := ?L - (ip_hdr_len r + l4_hdr_len r)\<rparr>))"
    using parse_ipv4_cases [OF c, of ip "base_result pkt ip"] v4(3) L(1) unfolding v4(4) Let_def by simp
  then show ?thesis
    using parse_packet_ip [OF assms(2) v4(1,2)] clamp [OF po c(2) L(2)]
    by (auto simp: with_payload_def Let_def)
next
  case (v6 ip nh l4)
  let ?L = "of_be16 (pkt ! (unat ip + 4)) (pkt ! (unat ip + 5))"
  have c: "unat caplen \<le> 65535" using assms(2) by (simp add: frame_ok_def)
  have po: "unat (payload_offset r) \<le> unat caplen"
    using parse_shape_layers [OF assms] by (simp add: layers_ok_def)
  have L: "\<not> unat ?L < unat (ipv6_ext_len r) + unat (l4_hdr_len r)"
    "unat (?L - ipv6_ext_len r - l4_hdr_len r) = d"
    using v6(8) by (simp_all add: unat_sub word_le_nat_alt)
  have "parse_ipv6 pkt caplen ip (base_result pkt ip) =
      Some (Inr (r\<lparr>payload_len := ?L - ipv6_ext_len r - l4_hdr_len r\<rparr>))"
    using parse_ipv6_cases [OF assms(2) v6(3,4), of "base_result pkt ip"] v6(5,6) L(1)
    unfolding v6(7) Let_def by simp
  then show ?thesis
    using parse_packet_ip [OF assms(2) v6(1,2)] clamp [OF po c L(2)]
    by (auto simp: with_payload_def Let_def header_consts)
qed

lemma ipv4_result_bounds:
  assumes "ipv4_accepts pkt n (unat ip)" "n \<le> 65535"
  shows "unat (ip_hdr_len (ipv4_result pkt ip (base_result pkt ip))) \<le> 60"
    "unat (l4_hdr_len (ipv4_result pkt ip (base_result pkt ip))) \<le> 60"
proof -
  let ?hl = "ucast (pkt ! unat ip AND 0x0F) * 4 :: u16"
  have hl: "unat ?hl = hdr_len4 pkt (unat ip)" by (simp add: unat_nibble_low hdr_len4_def)
  have a: "unat ip + hdr_len4 pkt (unat ip) \<le> n" "hdr_len4 pkt (unat ip) \<le> 60"
    using assms(1) unat_ihl_le [of "pkt ! unat ip"] by (simp_all add: ipv4_accepts_def hdr_len4_def)
  then show "unat (ip_hdr_len (ipv4_result pkt ip (base_result pkt ip))) \<le> 60"
    using hl by (simp add: ipv4_result_def Let_def)
  have "unat (ip + ?hl) = unat ip + hdr_len4 pkt (unat ip)"
    using unat_add16 [of ip ?hl] a(1) assms(2) unfolding hl by simp
  then have "l4_accepts pkt n (pkt ! (unat ip + 9)) (unat (ip + ?hl))"
    using assms(1) by (simp add: ipv4_accepts_def)
  from l4_accepts_len(3) [OF this, of "(base_result pkt ip)\<lparr>is_ipv4 := True, ipv4_hdr := Some (unat ip),
      ip_hdr_len := ?hl, l4_offset := ip + ?hl\<rparr>", simplified]
  show "unat (l4_hdr_len (ipv4_result pkt ip (base_result pkt ip))) \<le> 60"
    by (auto simp: ipv4_result_def Let_def split: if_splits)
qed

lemma shape_of_ipv4:
  assumes f: "frame_ok pkt caplen" and "14 \<le> unat caplen"
    and "vlan_outcome pkt caplen (ether_type0 pkt) 14 ETHERTYPE_IP ip"
  shows "(\<exists>r. parse_ipv4 pkt caplen ip (base_result pkt ip) = Some (Inl r)) \<or> (\<exists>d r. parse_shape pkt caplen d r)"
proof -
  let ?L = "of_be16 (pkt ! (unat ip + 2)) (pkt ! (unat ip + 3))"
  have c: "unat caplen \<le> length pkt" "unat caplen \<le> 65535" using f by (simp_all add: frame_ok_def)
  define r1 where "r1 = ipv4_result pkt ip (base_result pkt ip)"
  note cs = parse_ipv4_cases [OF c, of ip "base_result pkt ip", folded r1_def]
  show ?thesis
  proof (cases "ipv4_accepts pkt (unat caplen) (unat ip) \<and> \<not> ?L < ip_hdr_len r1 + l4_hdr_len r1")
    case True
    then have "unat (ip_hdr_len r1) \<le> 60" "unat (l4_hdr_len r1) \<le> 60"
      using ipv4_result_bounds [OF _ c(2)] unfolding r1_def by blast+
    then have "unat (ip_hdr_len r1) + unat (l4_hdr_len r1) \<le> unat ?L"
      using True unat_add16 [of "ip_hdr_len r1" "l4_hdr_len r1"] by (simp add: word_less_nat_alt not_less)
    then have "parse_shape pkt caplen (unat ?L - (unat (ip_hdr_len r1) + unat (l4_hdr_len r1))) r1"
      using True assms(2,3) by (intro parse_shape.v4 [of _ _ ip]) (simp_all add: r1_def)
    then show ?thesis by blast
  next
    case False
    then show ?thesis using cs by (auto simp: Let_def split: if_splits)
  qed
qed

lemma shape_of_ipv6:
  assumes f: "frame_ok pkt caplen" and "14 \<le> unat caplen"
    and v: "vlan_outcome pkt caplen (ether_type0 pkt) 14 ETHERTYPE_IPV6 ip"
  shows "(\<exists>r. parse_ipv6 pkt caplen ip (base_result pkt ip) = Some (Inl r)) \<or> (\<exists>d r. parse_shape pkt caplen d r)"
proof -
  let ?L = "of_be16 (pkt ! (unat ip + 4)) (pkt ! (unat ip + 5))"
  have "unat ip \<le> unat caplen" using v by (simp add: vlan_outcome_def)
  from parse_ipv6_ends [OF f this, of "base_result pkt ip"]
  consider (no) "\<exists>r. parse_ipv6 pkt caplen ip (base_result pkt ip) = Some (Inl r)"
    | (yes) nh l4 where "unat ip + 40 \<le> unat caplen"
        "ext_outcome pkt caplen (pkt ! (unat ip + 6)) (ip + 40) nh l4"
        "nh \<noteq> IPPROTO_FRAGMENT" "l4_accepts pkt (unat caplen) nh (unat l4)" by blast
  then show ?thesis
  proof cases
    case yes
    define r1 where "r1 = ipv6_result pkt ip nh l4 (base_result pkt ip)"
    show ?thesis
    proof (cases "unat ?L < unat (ipv6_ext_len r1) + unat (l4_hdr_len r1)")
      case True
      then show ?thesis
        using parse_ipv6_cases [OF f yes(1,2), of "base_result pkt ip", folded r1_def] yes(3,4)
        by (auto simp: Let_def)
    next
      case False
      then have "parse_shape pkt caplen (unat ?L - (unat (ipv6_ext_len r1) + unat (l4_hdr_len r1))) r1"
        using yes assms(2,3) by (intro parse_shape.v6 [of _ _ ip nh l4]) (simp_all add: r1_def)
      then show ?thesis by blast
    qed
  qed blast
qed

lemma parse_packet_total_shape:
  assumes f: "frame_ok pkt caplen"
  shows "(\<exists>r. parse_packet pkt caplen = Some (False, r)) \<or> (\<exists>d r. parse_shape pkt caplen d r)"
proof (cases "14 \<le> unat caplen")
  case True
  have c: "unat caplen \<le> length pkt" "unat caplen \<le> 65535" using f by (simp_all add: frame_ok_def)
  have rd: "rd16 pkt 12 = Some (ether_type0 pkt)" using True c by (simp add: rd16_in)
  have o14: "unat (14 :: u16) \<le> unat caplen" using True by simp
  obtain v where v: "parse_vlan pkt caplen (ether_type0 pkt) 14 (parse_zero\<lparr>eth_offset := 0, eth_hdr := Some 0\<rparr>) = Some v"
    using parse_vlan_ends [OF f o14] by blast
  show ?thesis
  proof (cases v)
    case (Inl r)
    then show ?thesis using v rd True by (simp add: parse_packet_def Let_def)
  next
    case (Inr x)
    then obtain et ip r where x: "v = Inr (et, ip, r)" by (cases x) auto
    have o: "vlan_outcome pkt caplen (ether_type0 pkt) 14 et ip"
      using parse_vlan_outcome [OF f o14] v x by blast
    note pp = parse_packet_ip [OF f True o]
    have ip: "unat ip \<le> unat caplen" using o by (simp add: vlan_outcome_def)
    consider (v4) "et = ETHERTYPE_IP" | (v6) "et = ETHERTYPE_IPV6" "et \<noteq> ETHERTYPE_IP"
      | (other) "et \<noteq> ETHERTYPE_IP" "et \<noteq> ETHERTYPE_IPV6" by blast
    then show ?thesis
    proof cases
      case v4
      then show ?thesis
        using shape_of_ipv4 [OF f True o [unfolded v4]] pp by auto
    next
      case v6
      then show ?thesis
        using shape_of_ipv6 [OF f True o [unfolded v6(1)]] pp by auto
    qed (use pp in simp)
  qed
qed (simp add: parse_packet_def)

lemma parse_packet_True:
  assumes "frame_ok pkt caplen" "parse_packet pkt caplen = Some (True, r)"
  obtains d r1 where "parse_shape pkt caplen d r1" "r = with_payload caplen d r1"
  using parse_packet_total_shape [OF assms(1)] parse_of_shape [OF _ assms(1)] assms(2) by fastforce

lemma layers_ok_payload_len [simp]: "layers_ok n (r\<lparr>payload_len := l\<rparr>) = layers_ok n r"
  by (simp add: layers_ok_def)

lemma with_payload_bound:
  assumes "layers_ok (unat caplen) r" "unat caplen \<le> 65535"
  shows "unat (payload_len (with_payload caplen d r)) = min d (unat caplen - unat (payload_offset r))"
  using assms by (simp add: with_payload_def layers_ok_def unat_of_nat min_def)

section \<open>One fragment\<close>

lemma put_put_same: "i + length a \<le> length bs \<Longrightarrow> length a = length b \<Longrightarrow> put (put bs i a) i b = put bs i b"
  by (simp add: put_def)

lemma take_drop_agree:
  assumes "agree a b lo hi" "lo + n \<le> hi" "hi \<le> length a" "hi \<le> length b"
  shows "take n (drop lo a) = take n (drop lo b)"
  using assms by (intro nth_equalityI) (auto simp: agree_def)

lemma store_check_run:
  assumes "at + 2 \<le> length buf" "calc (put buf at [0, 0]) = Some c"
  shows "store_check buf at calc = Some (put buf at (le16 c))"
  using assms by (simp add: store_check_def wr_bytes_in put_put_same)

text \<open>The bytes \<open>build_fragment\<close> may rewrite.\<close>

definition ip_mut :: "packet_parse_result \<Rightarrow> nat set" where
  "ip_mut r = (let ip = unat (ip_offset r) in
     if is_ipv4 r then {ip + 2, ip + 3, ip + 10, ip + 11} else {ip + 4, ip + 5})"

definition l4_mut :: "packet_parse_result \<Rightarrow> nat set" where
  "l4_mut r = (let l4 = unat (l4_offset r) in
     if is_tcp r then {l4 + 4, l4 + 5, l4 + 6, l4 + 7, l4 + 16, l4 + 17}
     else {l4 + 4, l4 + 5, l4 + 6, l4 + 7})"

lemma nth_put_other:
  "i + length xs \<le> length bs \<Longrightarrow> j < length bs \<Longrightarrow> j < i \<or> i + length xs \<le> j \<Longrightarrow> put bs i xs ! j = bs ! j"
  by (auto simp: nth_put)

lemma nth_put_in: "i + length xs \<le> length bs \<Longrightarrow> j < length xs \<Longrightarrow> put bs i xs ! (i + j) = xs ! j"
  by (auto simp: put_def nth_append min_def)

lemma put_be16_read:
  assumes "i + 2 \<le> length bs"
  shows "of_be16 (put bs i (be16 w) ! i) (put bs i (be16 w) ! (i + 1)) = w"
proof -
  have "put bs i (be16 w) ! (i + 0) = be16 w ! 0" "put bs i (be16 w) ! (i + 1) = be16 w ! 1"
    using assms nth_put_in [of i "be16 w" bs 0] nth_put_in [of i "be16 w" bs 1] by simp_all
  then show ?thesis by (simp add: be16_def of_be16_be16)
qed

lemma put_be32_read:
  assumes "i + 4 \<le> length bs"
  shows "of_be32 (put bs i (be32 w) ! i) (put bs i (be32 w) ! (i + 1))
                 (put bs i (be32 w) ! (i + 2)) (put bs i (be32 w) ! (i + 3)) = w"
proof -
  have "put bs i (be32 w) ! (i + k) = be32 w ! k" if "k < 4" for k
    using assms that nth_put_in [of i "be32 w" bs k] by simp
  from this [of 0] this [of 1] this [of 2] this [of 3]
  show ?thesis by (simp add: be32_def of_be32_be32)
qed

text \<open>A checksum stored over a region that contains the field verifies.\<close>

lemma stored_check_verifies:
  assumes "p \<le> at" "even (at - p)" "at + 2 \<le> p + len" "p + len \<le> length buf"
    and "unat c mod 65535 = (65535 - oc16 (n + s16 (put buf at [0, 0]) p len)) mod 65535"
    and "0 < n + s16 (put buf at [0, 0]) p len + unat c"
  shows "oc16 (n + s16 (put buf at (le16 c)) p len) = 65535"
proof -
  let ?x = "n + s16 (put buf at [0, 0]) p len"
  have "(?x + unat c) mod 65535 = (?x + (65535 - oc16 ?x)) mod 65535"
    by (rule mod_add_cong) (simp_all add: assms(5))
  then have "(?x + unat c) mod 65535 = 0" by (simp only: finish_mod)
  then show ?thesis
    using oc16_verify [of ?x "unat c"] assms(6) s16_put_le16 [OF assms(1-4), of c] by (simp add: add.assoc)
qed

definition same_except :: "bytes \<Rightarrow> bytes \<Rightarrow> nat set \<Rightarrow> bool" where
  "same_except a b M \<longleftrightarrow> length a = length b \<and> (\<forall>j < length b. j \<notin> M \<longrightarrow> a ! j = b ! j)"

lemma same_except_trans:
  "same_except a b M \<Longrightarrow> same_except b c N \<Longrightarrow> same_except a c (M \<union> N)"
  by (auto simp: same_except_def)

lemma same_except_put:
  "i + length xs \<le> length bs \<Longrightarrow> {i..<i + length xs} \<subseteq> M \<Longrightarrow> same_except (put bs i xs) bs M"
  by (auto simp: same_except_def nth_put subset_iff)

lemma same_except_agree: "same_except a b M \<Longrightarrow> hi \<le> length b \<Longrightarrow> M \<inter> {lo..<hi} = {} \<Longrightarrow> agree a b lo hi"
  unfolding same_except_def agree_def disjoint_iff by (meson atLeastLessThan_iff less_le_trans)

definition declared_len :: "packet_parse_result \<Rightarrow> bytes \<Rightarrow> nat" where
  "declared_len r buf =
    (let ip = unat (ip_offset r) in
     if is_ipv4 r then unat (of_be16 (buf ! (ip + 2)) (buf ! (ip + 3)))
     else unat (of_be16 (buf ! (ip + 4)) (buf ! (ip + 5))))"

definition frag_ctx :: "nat \<Rightarrow> packet_parse_result \<Rightarrow> nat \<Rightarrow> bytes \<Rightarrow> bool" where
  "frag_ctx n r k buf \<longleftrightarrow> layers_ok n r \<and> n \<le> 65535 \<and> unat (payload_offset r) + k \<le> n \<and>
    unat (payload_offset r) + k \<le> length buf \<and>
    (is_ipv4 r \<longrightarrow> hdr_len4 buf (unat (ip_offset r)) = unat (ip_hdr_len r))"

lemma frag_ctxD:
  assumes "frag_ctx n r k buf"
  shows "unat (l4_offset r) = unat (ip_offset r) + unat (ip_hdr_len r) + unat (ipv6_ext_len r)"
    "unat (payload_offset r) = unat (l4_offset r) + unat (l4_hdr_len r)"
    "unat (payload_offset r) + k \<le> 65535" "unat (payload_offset r) + k \<le> length buf"
    "is_ipv4 r \<Longrightarrow> 20 \<le> unat (ip_hdr_len r) \<and> ipv6_ext_len r = 0 \<and>
       hdr_len4 buf (unat (ip_offset r)) = unat (ip_hdr_len r)"
    "\<not> is_ipv4 r \<Longrightarrow> is_ipv6 r \<and> unat (ip_hdr_len r) = 40"
    "is_tcp r \<Longrightarrow> 20 \<le> unat (l4_hdr_len r)"
    "\<not> is_tcp r \<Longrightarrow> is_udp r \<and> unat (l4_hdr_len r) = 8"
  using assms by (simp_all add: frag_ctx_def layers_ok_def)

lemma unat_add3:
  "unat a + unat b + k \<le> 65535 \<Longrightarrow> unat (a + b + of_int (int k) :: u16) = unat a + unat b + k"
  "unat a + k \<le> 65535 \<Longrightarrow> unat (a + of_int (int k) :: u16) = unat a + k"
  by (simp_all add: unat_word_ariths unat_of_nat)

lemma ip_checksum_ok_agree:
  assumes "agree a b h (h + hdr_len4 b h)" "0 < hdr_len4 b h"
    "h + hdr_len4 b h \<le> length a" "h + hdr_len4 b h \<le> length b"
  shows "ip_checksum_ok a h = ip_checksum_ok b h"
proof -
  have "a ! h = b ! h" using assms(1,2) by (simp add: agree_def)
  then have "hdr_len4 a h = hdr_len4 b h" by (simp add: hdr_len4_def)
  then show ?thesis
    using take_drop_agree [OF assms(1) _ assms(3,4), of "hdr_len4 b h"] by (simp add: ip_checksum_ok_def)
qed

lemma ip_check_store:
  assumes h: "h + hdr_len4 buf h \<le> length buf" and l: "20 \<le> hdr_len4 buf h"
  shows "\<exists>c. store_check buf (h + 10) (\<lambda>b. calculate_ip_checksum sse2 b h) = Some (put buf (h + 10) (le16 c)) \<and>
             ip_checksum_ok (put buf (h + 10) (le16 c)) h"
proof -
  let ?z = "put buf (h + 10) [0, 0]"
  have len: "h + 12 \<le> length buf" using assms by linarith
  have hd: "hdr_len4 (put buf (h + 10) xs) h = hdr_len4 buf h" if "length xs = 2" for xs
    using len that by (simp add: hdr_len4_def nth_put_other)
  obtain c where c: "calculate_ip_checksum sse2 ?z h = Some c"
    "unat c = 65535 - oc16 (s16 ?z h (hdr_len4 buf h))"
    using calculate_ip_checksum_sum16 [of h ?z sse2] h l len hd [of "[0, 0]"] by auto
  have "store_check buf (h + 10) (\<lambda>b. calculate_ip_checksum sse2 b h) = Some (put buf (h + 10) (le16 c))"
    using c(1) len by (intro store_check_run) simp_all
  moreover have "oc16 (0 + s16 (put buf (h + 10) (le16 c)) h (hdr_len4 buf h)) = 65535"
    by (rule stored_check_verifies) (use h l c(2) finish_pos in \<open>simp_all\<close>)
  ultimately show ?thesis using hd [of "le16 c"] by (auto simp: ip_checksum_ok_def)
qed

lemma fragment_ip_run:
  assumes "frag_ctx n r k buf"
  shows "\<exists>buf'. fragment_ip sse2 r (int k) recalc buf = Some buf' \<and> same_except buf' buf (ip_mut r) \<and>
    declared_len r buf' = (if is_ipv4 r then unat (ip_hdr_len r) else unat (ipv6_ext_len r)) + unat (l4_hdr_len r) + k \<and>
    (recalc \<and> is_ipv4 r \<longrightarrow> ip_checksum_ok buf' (unat (ip_offset r)))"
proof (cases "is_ipv4 r")
  case True
  let ?ip = "unat (ip_offset r)" and ?w = "ip_hdr_len r + l4_hdr_len r + of_int (int k) :: u16"
  let ?b = "put buf (?ip + 2) (be16 ?w)"
  have hl: "20 \<le> unat (ip_hdr_len r)" "?ip + unat (ip_hdr_len r) + unat (l4_hdr_len r) + k \<le> 65535"
    "?ip + unat (ip_hdr_len r) \<le> length buf" "hdr_len4 buf ?ip = unat (ip_hdr_len r)"
    using frag_ctxD [OF assms] True by simp_all
  then have w: "unat ?w = unat (ip_hdr_len r) + unat (l4_hdr_len r) + k"
    by (intro unat_add3) linarith
  have in1: "?ip + 4 \<le> length buf" "?ip + 12 \<le> length buf" using hl by linarith+
  have se: "same_except ?b buf (ip_mut r)"
    using in1 True by (intro same_except_put) (auto simp: ip_mut_def Let_def)
  have len: "declared_len r ?b = unat ?w"
    using put_be16_read [of "?ip + 2" buf ?w] in1 True by (simp add: declared_len_def Let_def numeral_3_eq_3)
  have run: "wr_bytes buf (?ip + 2) (be16 ?w) = Some ?b" using in1 by (simp add: wr_bytes_in)
  show ?thesis
  proof (cases recalc)
    case False
    then show ?thesis using run se len w True by (simp add: fragment_ip_def Let_def)
  next
    case rc: True
    have hb: "hdr_len4 ?b ?ip = unat (ip_hdr_len r)"
      using hl(4) in1 by (simp add: hdr_len4_def nth_put_other)
    obtain c where c: "store_check ?b (?ip + 10) (\<lambda>b. calculate_ip_checksum sse2 b ?ip) = Some (put ?b (?ip + 10) (le16 c))"
      "ip_checksum_ok (put ?b (?ip + 10) (le16 c)) ?ip"
      using ip_check_store [of ?ip ?b sse2] hl in1 hb by auto
    let ?c = "put ?b (?ip + 10) (le16 c)"
    have "same_except ?c ?b (ip_mut r)"
      using in1 True by (intro same_except_put) (auto simp: ip_mut_def Let_def)
    from same_except_trans [OF this se] have se2: "same_except ?c buf (ip_mut r)" by (simp only: Un_absorb)
    have "declared_len r ?c = declared_len r ?b"
      using in1 True by (simp add: declared_len_def Let_def nth_put_other)
    then show ?thesis
      using run c se2 len w True rc by (simp add: fragment_ip_def Let_def)
  qed
next
  case False
  let ?ip = "unat (ip_offset r)" and ?w = "ipv6_ext_len r + l4_hdr_len r + of_int (int k) :: u16"
  let ?b = "put buf (?ip + 4) (be16 ?w)"
  have v6: "is_ipv6 r" "?ip + 40 + unat (ipv6_ext_len r) + unat (l4_hdr_len r) + k \<le> 65535"
    "?ip + 40 \<le> length buf"
    using frag_ctxD [OF assms] False by simp_all
  then have w: "unat ?w = unat (ipv6_ext_len r) + unat (l4_hdr_len r) + k"
    by (intro unat_add3) linarith
  have in1: "?ip + 6 \<le> length buf" using v6 by linarith
  have "same_except ?b buf (ip_mut r)"
    using in1 False by (intro same_except_put) (auto simp: ip_mut_def Let_def)
  moreover have "declared_len r ?b = unat ?w"
    using put_be16_read [of "?ip + 4" buf ?w] in1 False by (simp add: declared_len_def Let_def add.commute)
  moreover have "wr_bytes buf (?ip + 4) (be16 ?w) = Some ?b" using in1 by (simp add: wr_bytes_in)
  ultimately show ?thesis using w False v6 by (simp add: fragment_ip_def Let_def)
qed

definition check_law :: "(bytes \<Rightarrow> u16 option) \<Rightarrow> (bytes \<Rightarrow> bytes) \<Rightarrow> nat \<Rightarrow> nat \<Rightarrow> bytes \<Rightarrow> bool" where
  "check_law calc ps l4 len b \<longleftrightarrow>
    (\<exists>c. calc b = Some c \<and>
      unat c mod 65535 = (65535 - oc16 (sum16 (ps b) + s16 b l4 len)) mod 65535 \<and>
      0 < sum16 (ps b) + s16 b l4 len + unat c)"

lemma check_lawI:
  assumes "\<exists>c. calc b = Some c \<and> unat c = 65535 - oc16 (sum16 (ps b) + s16 b l4 len)"
  shows "check_law calc ps l4 len b"
  using assms finish_pos [of "sum16 (ps b) + s16 b l4 len"] unfolding check_law_def by metis

lemma check_law_tcp:
  assumes "t + unat len \<le> length b"
  shows "h + 20 \<le> length b \<Longrightarrow> check_law (\<lambda>b. calculate_tcp_checksum sse2 b (Some h) None t len)
           (\<lambda>b. pseudo4 b h IPPROTO_TCP len) t (unat len) b"
    and "h + 40 \<le> length b \<Longrightarrow> check_law (\<lambda>b. calculate_tcp_checksum sse2 b None (Some h) t len)
           (\<lambda>b. pseudo6 b h IPPROTO_TCP len) t (unat len) b"
  by (rule check_lawI, erule calculate_tcp_checksum_sum16 [OF assms])+

lemma check_law_wire:
  assumes "check_law calc ps l4 len b"
  shows "check_law (\<lambda>b. map_option udp_checksum_for_wire (calc b)) ps l4 len b"
proof -
  obtain c where c: "calc b = Some c"
    "unat c mod 65535 = (65535 - oc16 (sum16 (ps b) + s16 b l4 len)) mod 65535"
    using assms unfolding check_law_def by blast
  show ?thesis unfolding check_law_def
    by (rule exI [of _ "udp_checksum_for_wire c"]) (simp add: c udp_wire_mod)
qed

lemma check_law_udp:
  assumes "t + unat len \<le> length b"
  shows "h + 20 \<le> length b \<Longrightarrow> check_law (\<lambda>b. calculate_udp_checksum sse2 b (Some h) None t len)
           (\<lambda>b. pseudo4 b h IPPROTO_UDP len) t (unat len) b"
    and "h + 40 \<le> length b \<Longrightarrow> check_law (\<lambda>b. calculate_udp_checksum sse2 b None (Some h) t len)
           (\<lambda>b. pseudo6 b h IPPROTO_UDP len) t (unat len) b"
  by (rule check_lawI, erule calculate_udp_checksum_sum16 [OF assms])+

lemma pseudo_put:
  assumes "at + length w \<le> length b"
  shows "h + 20 \<le> at \<Longrightarrow> pseudo4 (put b at w) h proto len = pseudo4 b h proto len"
    and "h + 40 \<le> at \<Longrightarrow> pseudo6 (put b at w) h proto len = pseudo6 b h proto len"
  using assms by (simp_all add: pseudo4_def pseudo6_def take_drop_put_other)

lemma l4_check_store:
  assumes law: "check_law calc ps l4 len (put buf at [0, 0])"
    and reg: "l4 \<le> at" "even (at - l4)" "at + 2 \<le> l4 + len" "l4 + len \<le> length buf"
    and ps: "\<And>w. length w = 2 \<Longrightarrow> ps (put buf at w) = ps buf"
  shows "\<exists>c. store_check buf at calc = Some (put buf at (le16 c)) \<and>
             l4_checksum_ok (ps (put buf at (le16 c))) (take len (drop l4 (put buf at (le16 c))))"
proof -
  obtain c where c: "calc (put buf at [0, 0]) = Some c"
    "unat c mod 65535 = (65535 - oc16 (sum16 (ps buf) + s16 (put buf at [0, 0]) l4 len)) mod 65535"
    "0 < sum16 (ps buf) + s16 (put buf at [0, 0]) l4 len + unat c"
    using law ps [of "[0, 0]"] by (auto simp: check_law_def)
  have "store_check buf at calc = Some (put buf at (le16 c))"
    using c(1) reg by (intro store_check_run) simp_all
  moreover have "l4_checksum_ok (ps (put buf at (le16 c))) (take len (drop l4 (put buf at (le16 c))))"
    unfolding l4_checksum_ok_def using stored_check_verifies [OF reg c(2,3)] ps [of "le16 c"] by simp
  ultimately show ?thesis by blast
qed

text \<open>The L4 checksum of a fragment with \<open>k\<close> payload bytes verifies.\<close>

definition l4_valid :: "packet_parse_result \<Rightarrow> nat \<Rightarrow> bytes \<Rightarrow> bool" where
  "l4_valid r k b =
    (let ip = unat (ip_offset r); l4 = unat (l4_offset r); len = l4_hdr_len r + of_nat k;
         proto = (if is_tcp r then IPPROTO_TCP else IPPROTO_UDP)
     in l4_checksum_ok (if is_ipv4 r then pseudo4 b ip proto len else pseudo6 b ip proto len)
          (take (unat len) (drop l4 b)))"

lemma l4_field_at:
  assumes "frag_ctx n r k buf"
  shows "unat (l4_hdr_len r + of_nat k) = unat (l4_hdr_len r) + k"
    and "unat (l4_offset r) + (unat (l4_hdr_len r) + k) \<le> length buf"
    and "is_ipv4 r \<Longrightarrow> unat (ip_offset r) + 20 \<le> unat (l4_offset r)"
    and "\<not> is_ipv4 r \<Longrightarrow> unat (ip_offset r) + 40 \<le> unat (l4_offset r)"
  using frag_ctxD [OF assms] unat_add3(2) [of "l4_hdr_len r" k] by simp_all

lemma tcp_store:
  assumes ctx: "frag_ctx n r k buf" and tcp: "is_tcp r"
  defines "w \<equiv> l4_hdr_len r + of_nat k" and "ip \<equiv> unat (ip_offset r)" and "t \<equiv> unat (l4_offset r)"
  shows "\<exists>c. (if is_ipv4 r then store_check buf (t + 16) (\<lambda>b. calculate_tcp_checksum sse2 b (Some ip) None t w)
              else store_check buf (t + 16) (\<lambda>b. calculate_tcp_checksum sse2 b None (Some ip) t w))
            = Some (put buf (t + 16) (le16 c)) \<and> l4_valid r k (put buf (t + 16) (le16 c))"
proof -
  note at = l4_field_at [OF ctx, folded w_def ip_def t_def]
  have reg: "t \<le> t + 16" "even (t + 16 - t)" "t + 16 + 2 \<le> t + unat w" "t + unat w \<le> length buf"
    using at frag_ctxD(7) [OF ctx tcp] by simp_all
  then have l: "length (put buf (t + 16) [0, 0]) = length buf" by simp
  show ?thesis
  proof (cases "is_ipv4 r")
    case True
    then have h: "ip + 20 \<le> t" using at(3) by simp
    have "check_law (\<lambda>b. calculate_tcp_checksum sse2 b (Some ip) None t w)
        (\<lambda>b. pseudo4 b ip IPPROTO_TCP w) t (unat w) (put buf (t + 16) [0, 0])"
      using reg h l by (intro check_law_tcp) simp_all
    from l4_check_store [OF this reg] show ?thesis
      using True tcp h reg by (simp add: l4_valid_def Let_def pseudo_put flip: w_def ip_def t_def)
  next
    case False
    then have h: "ip + 40 \<le> t" using at(4) by simp
    have "check_law (\<lambda>b. calculate_tcp_checksum sse2 b None (Some ip) t w)
        (\<lambda>b. pseudo6 b ip IPPROTO_TCP w) t (unat w) (put buf (t + 16) [0, 0])"
      using reg h l by (intro check_law_tcp) simp_all
    from l4_check_store [OF this reg] show ?thesis
      using False tcp h reg by (simp add: l4_valid_def Let_def pseudo_put flip: w_def ip_def t_def)
  qed
qed

lemma udp_store:
  assumes ctx: "frag_ctx n r k buf" and udp: "\<not> is_tcp r"
  defines "w \<equiv> l4_hdr_len r + of_nat k" and "ip \<equiv> unat (ip_offset r)" and "t \<equiv> unat (l4_offset r)"
  shows "\<exists>c. (if is_ipv4 r
              then store_check buf (t + 6) (\<lambda>b. map_option udp_checksum_for_wire
                     (calculate_udp_checksum sse2 b (Some ip) None t w))
              else store_check buf (t + 6) (\<lambda>b. map_option udp_checksum_for_wire
                     (calculate_udp_checksum sse2 b None (Some ip) t w)))
            = Some (put buf (t + 6) (le16 c)) \<and> l4_valid r k (put buf (t + 6) (le16 c))"
proof -
  note at = l4_field_at [OF ctx, folded w_def ip_def t_def]
  have reg: "t \<le> t + 6" "even (t + 6 - t)" "t + 6 + 2 \<le> t + unat w" "t + unat w \<le> length buf"
    using at frag_ctxD(8) [OF ctx udp] by simp_all
  then have l: "length (put buf (t + 6) [0, 0]) = length buf" by simp
  show ?thesis
  proof (cases "is_ipv4 r")
    case True
    then have h: "ip + 20 \<le> t" using at(3) by simp
    have "check_law (\<lambda>b. map_option udp_checksum_for_wire (calculate_udp_checksum sse2 b (Some ip) None t w))
        (\<lambda>b. pseudo4 b ip IPPROTO_UDP w) t (unat w) (put buf (t + 6) [0, 0])"
      using reg h l by (intro check_law_wire check_law_udp) simp_all
    from l4_check_store [OF this reg] show ?thesis
      using True udp h reg by (simp add: l4_valid_def Let_def pseudo_put flip: w_def ip_def t_def)
  next
    case False
    then have h: "ip + 40 \<le> t" using at(4) by simp
    have "check_law (\<lambda>b. map_option udp_checksum_for_wire (calculate_udp_checksum sse2 b None (Some ip) t w))
        (\<lambda>b. pseudo6 b ip IPPROTO_UDP w) t (unat w) (put buf (t + 6) [0, 0])"
      using reg h l by (intro check_law_wire check_law_udp) simp_all
    from l4_check_store [OF this reg] show ?thesis
      using False udp h reg by (simp add: l4_valid_def Let_def pseudo_put flip: w_def ip_def t_def)
  qed
qed

text \<open>L4 writes leave the IP header alone.\<close>

lemma frag_ctx_put:
  assumes "frag_ctx n r k buf" "unat (l4_offset r) \<le> at" "at + length w \<le> length buf"
  shows "frag_ctx n r k (put buf at w)"
proof -
  have "put buf at w ! unat (ip_offset r) = buf ! unat (ip_offset r)" if "is_ipv4 r"
    using l4_field_at(3) [OF assms(1) that] assms(2,3) by (intro nth_put_other) simp_all
  then show ?thesis using assms by (simp add: frag_ctx_def hdr_len4_def)
qed

definition tcp_seq :: "packet_parse_result \<Rightarrow> bytes \<Rightarrow> u32" where
  "tcp_seq r b = (let t = unat (l4_offset r) in of_be32 (b ! (t + 4)) (b ! (t + 5)) (b ! (t + 6)) (b ! (t + 7)))"

definition udp_len_field :: "packet_parse_result \<Rightarrow> bytes \<Rightarrow> u16" where
  "udp_len_field r b = (let t = unat (l4_offset r) in of_be16 (b ! (t + 4)) (b ! (t + 5)))"

lemma fragment_tcp_run:
  assumes ctx: "frag_ctx n r k buf" and tcp: "is_tcp r"
  shows "\<exists>buf'. fragment_tcp sse2 r off (int k) recalc buf = Some buf' \<and>
    same_except buf' buf (l4_mut r) \<and> tcp_seq r buf' = tcp_seq r buf + of_int off \<and>
    (recalc \<longrightarrow> l4_valid r k buf')"
proof -
  let ?t = "unat (l4_offset r)" and ?ip = "unat (ip_offset r)"
  let ?s = "tcp_seq r buf + of_int off"
  let ?b = "put buf (?t + 4) (be32 ?s)"
  have in1: "?t + 20 \<le> length buf"
    using l4_field_at(2) [OF ctx] frag_ctxD(7) [OF ctx tcp] by linarith
  have rd: "rd32 buf (?t + 4) = Some (tcp_seq r buf)"
    using in1 by (simp add: rd32_in tcp_seq_def Let_def add.commute)
  have wr: "wr_bytes buf (?t + 4) (be32 ?s) = Some ?b" using in1 by (simp add: wr_bytes_in)
  have se: "same_except ?b buf (l4_mut r)"
    using in1 tcp by (intro same_except_put) (auto simp: l4_mut_def Let_def)
  have sq: "tcp_seq r ?b = ?s"
    using put_be32_read [of "?t + 4" buf ?s] in1 by (simp add: tcp_seq_def Let_def add.commute)
  have v6: "\<not> is_ipv4 r \<Longrightarrow> is_ipv6 r" using frag_ctxD(6) [OF ctx] by blast
  show ?thesis
  proof (cases recalc)
    case False
    then show ?thesis using rd wr se sq by (simp add: fragment_tcp_def Let_def)
  next
    case True
    have "frag_ctx n r k ?b" using in1 by (intro frag_ctx_put [OF ctx]) simp_all
    from tcp_store [OF this tcp] obtain c where
      c: "(if is_ipv4 r then store_check ?b (?t + 16) (\<lambda>b. calculate_tcp_checksum sse2 b (Some ?ip) None ?t (l4_hdr_len r + of_nat k))
           else store_check ?b (?t + 16) (\<lambda>b. calculate_tcp_checksum sse2 b None (Some ?ip) ?t (l4_hdr_len r + of_nat k)))
          = Some (put ?b (?t + 16) (le16 c))" "l4_valid r k (put ?b (?t + 16) (le16 c))" by blast
    let ?c = "put ?b (?t + 16) (le16 c)"
    have "same_except ?c ?b (l4_mut r)"
      using in1 tcp by (intro same_except_put) (auto simp: l4_mut_def Let_def)
    from same_except_trans [OF this se] have se2: "same_except ?c buf (l4_mut r)" by (simp only: Un_absorb)
    have "tcp_seq r ?c = tcp_seq r ?b"
      using in1 by (simp add: tcp_seq_def Let_def nth_put_other)
    then show ?thesis using rd wr se2 sq c True v6
      by (auto simp: fragment_tcp_def Let_def split: if_splits)
  qed
qed

lemma fragment_udp_run:
  assumes ctx: "frag_ctx n r k buf" and udp: "\<not> is_tcp r"
  shows "\<exists>buf'. fragment_udp sse2 r (int k) recalc buf = Some buf' \<and>
    same_except buf' buf (l4_mut r) \<and> unat (udp_len_field r buf') = 8 + k \<and>
    (recalc \<longrightarrow> l4_valid r k buf')"
proof -
  let ?t = "unat (l4_offset r)" and ?ip = "unat (ip_offset r)"
  let ?w = "l4_hdr_len r + of_nat k"
  let ?b = "put buf (?t + 4) (be16 ?w)"
  have w: "unat ?w = 8 + k" using l4_field_at(1) [OF ctx] frag_ctxD(8) [OF ctx udp] by simp
  have in1: "?t + 8 \<le> length buf"
    using l4_field_at(2) [OF ctx] frag_ctxD(8) [OF ctx udp] by linarith
  have wr: "wr_bytes buf (?t + 4) (be16 ?w) = Some ?b" using in1 by (simp add: wr_bytes_in)
  have se: "same_except ?b buf (l4_mut r)"
    using in1 udp by (intro same_except_put) (auto simp: l4_mut_def Let_def)
  have sq: "udp_len_field r ?b = ?w"
    using put_be16_read [of "?t + 4" buf ?w] in1 by (simp add: udp_len_field_def Let_def add.commute)
  have v6: "\<not> is_ipv4 r \<Longrightarrow> is_ipv6 r" using frag_ctxD(6) [OF ctx] by blast
  show ?thesis
  proof (cases recalc)
    case False
    then show ?thesis using wr se sq w by (simp add: fragment_udp_def Let_def)
  next
    case True
    have "frag_ctx n r k ?b" using in1 by (intro frag_ctx_put [OF ctx]) simp_all
    from udp_store [OF this udp] obtain c where
      c: "(if is_ipv4 r
           then store_check ?b (?t + 6) (\<lambda>b. map_option udp_checksum_for_wire
                  (calculate_udp_checksum sse2 b (Some ?ip) None ?t ?w))
           else store_check ?b (?t + 6) (\<lambda>b. map_option udp_checksum_for_wire
                  (calculate_udp_checksum sse2 b None (Some ?ip) ?t ?w)))
          = Some (put ?b (?t + 6) (le16 c))" "l4_valid r k (put ?b (?t + 6) (le16 c))" by blast
    let ?c = "put ?b (?t + 6) (le16 c)"
    have "same_except ?c ?b (l4_mut r)"
      using in1 udp by (intro same_except_put) (auto simp: l4_mut_def Let_def)
    from same_except_trans [OF this se] have se2: "same_except ?c buf (l4_mut r)" by (simp only: Un_absorb)
    have "udp_len_field r ?c = udp_len_field r ?b"
      using in1 by (simp add: udp_len_field_def Let_def nth_put_other)
    then show ?thesis using wr se2 sq w c True v6
      by (auto simp: fragment_udp_def Let_def split: if_splits)
  qed
qed

lemma mut_bounds:
  assumes "frag_ctx n r k buf"
  shows "x \<in> ip_mut r \<Longrightarrow> unat (ip_offset r) + 2 \<le> x \<and> x < unat (l4_offset r)"
    and "x \<in> l4_mut r \<Longrightarrow> unat (l4_offset r) + 4 \<le> x \<and> x < unat (payload_offset r)"
    and "x \<in> ip_mut r \<Longrightarrow> x < unat (payload_offset r)"
  using frag_ctxD [OF assms]
  by (auto simp: ip_mut_def l4_mut_def Let_def split: if_splits)

lemma frag_ctx_same_except:
  assumes "frag_ctx n r k b" "same_except b' b M" "unat (ip_offset r) \<notin> M"
  shows "frag_ctx n r k b'"
proof -
  have "unat (ip_offset r) < length b" if "is_ipv4 r" using frag_ctxD [OF assms(1)] that by simp
  then show ?thesis using assms by (simp add: frag_ctx_def same_except_def hdr_len4_def)
qed

text \<open>What a fragment with payload bytes \<open>off..off+k-1\<close> of the packet looks like.\<close>

definition fragment_of :: "packet_parse_result \<Rightarrow> bytes \<Rightarrow> nat \<Rightarrow> nat \<Rightarrow> bool \<Rightarrow> bytes \<Rightarrow> bool" where
  "fragment_of r pkt off k recalc out \<longleftrightarrow>
    take k (drop (unat (payload_offset r)) out) = take k (drop (unat (payload_offset r) + off) pkt) \<and>
    (\<forall>j < unat (payload_offset r). j \<notin> ip_mut r \<union> l4_mut r \<longrightarrow> out ! j = pkt ! j) \<and>
    declared_len r out = (if is_ipv4 r then unat (ip_hdr_len r) else unat (ipv6_ext_len r)) + unat (l4_hdr_len r) + k \<and>
    (if is_tcp r then tcp_seq r out = tcp_seq r pkt + of_nat off else unat (udp_len_field r out) = 8 + k) \<and>
    (recalc \<longrightarrow> l4_valid r k out \<and> (is_ipv4 r \<longrightarrow> ip_checksum_ok out (unat (ip_offset r))))"

lemma fragment_stages:
  assumes ctx: "frag_ctx n r k b0"
  shows "\<exists>b2. (fragment_ip sse2 r (int k) recalc b0 \<bind>
      (\<lambda>buf. if is_tcp r then fragment_tcp sse2 r (int off) (int k) recalc buf
             else if is_udp r then fragment_udp sse2 r (int k) recalc buf else Some buf)) = Some b2 \<and>
    same_except b2 b0 (ip_mut r \<union> l4_mut r) \<and>
    declared_len r b2 = (if is_ipv4 r then unat (ip_hdr_len r) else unat (ipv6_ext_len r)) + unat (l4_hdr_len r) + k \<and>
    (if is_tcp r then tcp_seq r b2 = tcp_seq r b0 + of_nat off else unat (udp_len_field r b2) = 8 + k) \<and>
    (recalc \<longrightarrow> l4_valid r k b2 \<and> (is_ipv4 r \<longrightarrow> ip_checksum_ok b2 (unat (ip_offset r))))"
proof -
  let ?ip = "unat (ip_offset r)" and ?l4 = "unat (l4_offset r)"
  obtain b1 where b1: "fragment_ip sse2 r (int k) recalc b0 = Some b1" "same_except b1 b0 (ip_mut r)"
    "declared_len r b1 = (if is_ipv4 r then unat (ip_hdr_len r) else unat (ipv6_ext_len r)) + unat (l4_hdr_len r) + k"
    "recalc \<and> is_ipv4 r \<longrightarrow> ip_checksum_ok b1 ?ip"
    using fragment_ip_run [OF ctx] by blast
  have ctx1: "frag_ctx n r k b1"
    using mut_bounds(1) [OF ctx, of ?ip] by (intro frag_ctx_same_except [OF ctx b1(2)]) auto
  note D = frag_ctxD [OF ctx1]
  have seq: "is_tcp r \<Longrightarrow> tcp_seq r b1 = tcp_seq r b0"
  proof -
    assume "is_tcp r"
    then have "?l4 + 8 \<le> length b0" using frag_ctxD [OF ctx] by simp
    moreover have "?l4 + j \<notin> ip_mut r" for j using mut_bounds(1) [OF ctx, of "?l4 + j"] by linarith
    ultimately show ?thesis using b1(2) by (simp add: tcp_seq_def same_except_def Let_def)
  qed
  obtain b2 where b2: "(if is_tcp r then fragment_tcp sse2 r (int off) (int k) recalc b1
      else if is_udp r then fragment_udp sse2 r (int k) recalc b1 else Some b1) = Some b2"
    "same_except b2 b1 (l4_mut r)"
    "if is_tcp r then tcp_seq r b2 = tcp_seq r b1 + of_nat off else unat (udp_len_field r b2) = 8 + k"
    "recalc \<longrightarrow> l4_valid r k b2"
    using fragment_tcp_run [OF ctx1, of sse2 "int off" recalc] fragment_udp_run [OF ctx1, of sse2 recalc] D(8)
    by (cases "is_tcp r") auto
  have low: "?ip + j \<notin> l4_mut r" if "?ip + j < ?l4" for j
    using mut_bounds(2) [OF ctx1, of "?ip + j"] that by linarith
  have "declared_len r b2 = declared_len r b1"
    using b2(2) low [of 2] low [of 3] low [of 4] low [of 5] D
    by (cases "is_ipv4 r") (simp_all add: declared_len_def Let_def same_except_def)
  moreover have "ip_checksum_ok b2 ?ip = ip_checksum_ok b1 ?ip" if "is_ipv4 r"
  proof (rule ip_checksum_ok_agree)
    have "l4_mut r \<inter> {?ip..<?ip + hdr_len4 b1 ?ip} = {}"
      using mut_bounds(2) [OF ctx1] D(1,5) that by fastforce
    then show "agree b2 b1 ?ip (?ip + hdr_len4 b1 ?ip)"
      using D that by (intro same_except_agree [OF b2(2)]) simp_all
  qed (use D that b2(2) in \<open>simp_all add: same_except_def\<close>)
  moreover have "same_except b2 b0 (ip_mut r \<union> l4_mut r)"
    using same_except_trans [OF b2(2) b1(2)] by (simp only: Un_commute)
  ultimately show ?thesis using b1 b2 seq by (intro exI [of _ b2]) (simp split: if_splits)
qed

lemma parsed_facts:
  assumes f: "frame_ok pkt caplen" and p: "parse_packet pkt caplen = Some (True, r)"
  shows "layers_ok (unat caplen) r"
    "unat (payload_offset r) + unat (payload_len r) \<le> unat caplen"
    "is_ipv4 r \<Longrightarrow> hdr_len4 pkt (unat (ip_offset r)) = unat (ip_hdr_len r)"
proof -
  obtain d r1 where s: "parse_shape pkt caplen d r1" "r = with_payload caplen d r1"
    using parse_packet_True [OF f p] .
  have l: "layers_ok (unat caplen) r1" by (rule parse_shape_layers [OF s(1) f])
  then show "layers_ok (unat caplen) r" by (simp add: s(2) with_payload_def)
  have po: "payload_offset r = payload_offset r1" by (simp add: s(2) with_payload_def)
  show "unat (payload_offset r) + unat (payload_len r) \<le> unat caplen"
  proof -
    have "unat (payload_len r) = min d (unat caplen - unat (payload_offset r1))"
      using with_payload_bound [OF l, of d] f by (simp add: s(2) frame_ok_def)
    moreover have "unat (payload_offset r1) \<le> unat caplen" using l by (simp add: layers_ok_def)
    ultimately show ?thesis unfolding po by simp
  qed
  show "hdr_len4 pkt (unat (ip_offset r)) = unat (ip_hdr_len r)" if "is_ipv4 r"
    using s(1)
  proof cases
    case (v4 ip)
    then show ?thesis
      unfolding s(2) by (simp add: with_payload_def ipv4_result_def Let_def hdr_len4_def unat_nibble_low)
  next
    case (v6 ip nh l4)
    then show ?thesis using that unfolding s(2) by (simp add: with_payload_def ipv6_result_def Let_def)
  qed
qed

lemma build_fragment_run:
  assumes f: "frame_ok pkt caplen" and p: "parse_packet pkt caplen = Some (True, r)"
    and off: "off = i * m" "off < unat (payload_len r)" and m: "0 < m"
    and k: "k = min m (unat (payload_len r) - off)" and out: "unat (payload_offset r) + k \<le> length out"
  shows "\<exists>out'. build_fragment sse2 r pkt (int i) (int m) recalc out = Some (int (unat (payload_offset r) + k), out') \<and>
    length out' = length out \<and> fragment_of r pkt off k recalc out' \<and>
    drop (unat (payload_offset r) + k) out' = drop (unat (payload_offset r) + k) out"
proof -
  let ?po = "unat (payload_offset r)" and ?pl = "unat (payload_len r)"
  note pf = parsed_facts [OF f p]
  have len: "unat caplen \<le> length pkt" "unat caplen \<le> 65535" using f by (simp_all add: frame_ok_def)
  have kpos: "0 < k" "off + k \<le> ?pl" using k off(2) m by auto
  have in_pkt: "?po + off + k \<le> length pkt" using pf(2) kpos(2) len by linarith
  define body where "body = take k (drop (?po + off) pkt)"
  have lb: "length body = k" using in_pkt by (simp add: body_def)
  define b0 where "b0 = put (put out 0 (take ?po pkt)) ?po body"
  have po_le: "?po \<le> length pkt" using in_pkt by simp
  then have po_pkt: "length (take ?po pkt) = ?po" by simp
  have b0: "b0 = take ?po pkt @ body @ drop (?po + k) out"
    using out po_pkt lb by (simp add: b0_def put_def add.commute)
  have ctx: "frag_ctx (unat caplen) r k b0"
    using pf kpos(2) len out po_pkt lb unfolding frag_ctx_def b0
    by (auto simp: hdr_len4_def nth_append layers_ok_def)
  obtain b2 where b2: "(fragment_ip sse2 r (int k) recalc b0 \<bind>
      (\<lambda>buf. if is_tcp r then fragment_tcp sse2 r (int off) (int k) recalc buf
             else if is_udp r then fragment_udp sse2 r (int k) recalc buf else Some buf)) = Some b2"
    "same_except b2 b0 (ip_mut r \<union> l4_mut r)"
    and rest: "declared_len r b2 = (if is_ipv4 r then unat (ip_hdr_len r) else unat (ipv6_ext_len r)) + unat (l4_hdr_len r) + k"
    "if is_tcp r then tcp_seq r b2 = tcp_seq r b0 + of_nat off else unat (udp_len_field r b2) = 8 + k"
    "recalc \<longrightarrow> l4_valid r k b2 \<and> (is_ipv4 r \<longrightarrow> ip_checksum_ok b2 (unat (ip_offset r)))"
    using fragment_stages [OF ctx] by blast
  have lb2: "length b2 = length out" "length b0 = length out"
    using b2(2) out po_pkt lb by (simp_all add: same_except_def b0)
  have hi: "j \<notin> ip_mut r \<union> l4_mut r" if "?po \<le> j" for j
    using mut_bounds(2,3) [OF ctx, of j] that by auto
  have tail: "drop ?po b2 = drop ?po b0"
    using b2(2) hi lb2 by (intro nth_equalityI) (simp_all add: same_except_def)
  have hdr: "\<forall>j < ?po. j \<notin> ip_mut r \<union> l4_mut r \<longrightarrow> b2 ! j = pkt ! j"
    using b2(2) lb2 out po_le by (simp add: same_except_def b0 nth_append)
  have seq: "is_tcp r \<Longrightarrow> tcp_seq r b0 = tcp_seq r pkt"
    using frag_ctxD(2,7) [OF ctx] po_le unfolding b0 by (simp add: tcp_seq_def Let_def nth_append)
  have "fragment_of r pkt off k recalc b2"
    using tail hdr rest seq lb po_pkt unfolding fragment_of_def by (simp add: b0 body_def split: if_splits)
  moreover have "drop (?po + k) b2 = drop (?po + k) out"
    using arg_cong [OF tail, of "drop k"] lb po_pkt by (simp add: b0 add.commute)
  moreover have "build_fragment sse2 r pkt (int i) (int m) recalc out = Some (int (?po + k), b2)"
  proof -
    have e: "int i * int m = int off" using off(1) by simp
    have "c_int (int a - int b) = Some (int a - int b)" if "a \<le> 65535" "b \<le> 65535" for a b
      using that by (auto simp: c_int_def)
    moreover have le: "off \<le> 65535" "?pl \<le> 65535" using off(2) pf(2) len(2) by linarith+
    ultimately have c: "c_int (int ?pl - int off) = Some (int ?pl - int off)" "c_int (int off) = Some (int off)"
      by (blast, simp add: c_int_def)
    have "(if int a - int off > int m then int m else int a - int off) = int (min m (a - off))"
      if "off < a" for a using that by (auto simp: min_def)
    note kk = this [OF off(2), folded k]
    have "payload r = Some ?po" using pf(1) by (simp add: layers_ok_def)
    moreover have "rd_bytes pkt (?po + off) k = Some body" "rd_bytes pkt 0 ?po = Some (take ?po pkt)"
      using in_pkt by (simp_all add: rd_bytes_in body_def)
    moreover have "wr_bytes out 0 (take ?po pkt) = Some (put out 0 (take ?po pkt))"
      "wr_bytes (put out 0 (take ?po pkt)) ?po body = Some b0"
      using out lb po_pkt by (simp_all add: wr_bytes_in b0_def)
    moreover have "nat (int ?po + int off) = ?po + off"
      by (simp only: of_nat_add [symmetric] nat_int)
    ultimately show ?thesis
      unfolding build_fragment_def e c bind.bind_lunit Let_def kk
      using b2(1) kpos(1) by (simp add: bind_eq_Some_conv)
  qed
  ultimately show ?thesis using lb2 by blast
qed

section \<open>A fragment parses again\<close>

lemma vlan_outcome_stable:
  assumes "vlan_outcome pkt c et 14 et' ip" "agree out pkt 14 (unat ip)" "frame_ok out c'" "unat ip \<le> unat c'"
  shows "vlan_outcome out c' et 14 et' ip"
proof -
  have "parse_vlan out c' et 14 parse_zero =
      Some (Inr (et', ip, if is_vlan_ethertype et then vlan_mark 14 parse_zero else parse_zero))"
    using assms by (simp add: vlan_outcome_def)
  moreover have "unat (14 :: u16) \<le> unat c'"
    using assms(1,4) by (simp add: vlan_outcome_def)
  ultimately show ?thesis using parse_vlan_outcome [OF assms(3)] by blast
qed

lemma ext_outcome_stable:
  assumes "ext_outcome pkt c nh off nh' off'" "agree out pkt (unat off) (unat off')" "frame_ok out c'" "unat off' \<le> unat c'"
  shows "ext_outcome out c' nh off nh' off'"
proof -
  have "parse_ext out c' nh off parse_zero =
      Some (Inr (nh', off', parse_zero\<lparr>ipv6_ext_len := ipv6_ext_len parse_zero + (off' - off)\<rparr>))"
    using assms unfolding ext_outcome_def by blast
  moreover have "unat off \<le> unat c'" using assms(1,4) by (simp add: ext_outcome_def)
  ultimately show ?thesis using parse_ext_outcome [OF assms(3)] by blast
qed

lemma l4_stable:
  assumes acc: "l4_accepts pkt n proto (unat off)" and r: "\<not> is_tcp r" "\<not> is_udp r"
    and e: "proto = IPPROTO_TCP \<Longrightarrow> out ! (unat off + 12) = pkt ! (unat off + 12)"
    and n: "unat off + unat (l4_hdr_len (l4_result pkt proto off r)) \<le> n'"
  shows "l4_accepts out n' proto (unat off)"
proof -
  have "IPPROTO_UDP \<noteq> IPPROTO_TCP" by (simp add: header_consts)
  then show ?thesis
    using acc n e l4_accepts_len(3) [OF acc r]
    by (auto simp: l4_accepts_def l4_result_def unat_nibble_shift)
qed

lemma l4_result_cong:
  "(proto = IPPROTO_TCP \<Longrightarrow> out ! (unat off + 12) = pkt ! (unat off + 12)) \<Longrightarrow>
     l4_result out proto off r = l4_result pkt proto off r"
  by (simp add: l4_result_def)

lemma base_result_cong:
  "out ! 12 = pkt ! 12 \<Longrightarrow> out ! 13 = pkt ! 13 \<Longrightarrow> base_result out ip = base_result pkt ip"
  by (simp add: base_result_def)

lemma not_mut:
  assumes "layers_ok n r"
  shows "j < unat (ip_offset r) + 2 \<Longrightarrow> j \<notin> ip_mut r \<union> l4_mut r"
    and "is_ipv4 r \<Longrightarrow> unat (ip_offset r) + 6 \<le> j \<Longrightarrow> j \<le> unat (ip_offset r) + 9 \<Longrightarrow> j \<notin> ip_mut r \<union> l4_mut r"
    and "\<not> is_ipv4 r \<Longrightarrow> unat (ip_offset r) + 6 \<le> j \<Longrightarrow> j < unat (l4_offset r) \<Longrightarrow> j \<notin> ip_mut r \<union> l4_mut r"
    and "is_tcp r \<Longrightarrow> unat (l4_offset r) + 12 \<notin> ip_mut r \<union> l4_mut r"
  using assms by (auto simp: layers_ok_def ip_mut_def l4_mut_def Let_def split: if_splits)

lemma parse_shape_stable4:
  assumes shape: "parse_shape pkt c d r" and f: "frame_ok pkt c" and f': "frame_ok out c'"
    and po: "unat (payload_offset r) \<le> unat c'"
    and same: "\<And>j. j < unat (payload_offset r) \<Longrightarrow> j \<notin> ip_mut r \<union> l4_mut r \<Longrightarrow> out ! j = pkt ! j"
    and decl: "declared_len r out = (if is_ipv4 r then unat (ip_hdr_len r) else unat (ipv6_ext_len r)) + unat (l4_hdr_len r) + d'"
    and v4: "14 \<le> unat c" "vlan_outcome pkt c (ether_type0 pkt) 14 ETHERTYPE_IP ip"
      "ipv4_accepts pkt (unat c) (unat ip)" "r = ipv4_result pkt ip (base_result pkt ip)"
  shows "parse_shape out c' d' r"
proof -
  note lo = parse_shape_layers [OF shape f]
  let ?hl = "ucast (pkt ! unat ip AND 0x0F) * 4 :: u16"
  let ?rb = "(base_result pkt ip)\<lparr>is_ipv4 := True, ipv4_hdr := Some (unat ip), ip_hdr_len := ?hl, l4_offset := ip + ?hl\<rparr>"
  have fields: "ip_offset r = ip" "is_ipv4 r" "l4_offset r = ip + ?hl" "ip_hdr_len r = ?hl"
    "l4_hdr_len r = l4_hdr_len (l4_result pkt (pkt ! (unat ip + 9)) (ip + ?hl) ?rb)"
    by (simp_all add: v4(4) ipv4_result_def Let_def)
  have tcp: "is_tcp r" if "pkt ! (unat ip + 9) = IPPROTO_TCP"
    using that by (simp add: v4(4) ipv4_result_def Let_def l4_result_def)
  have hl: "unat ?hl = hdr_len4 pkt (unat ip)" by (simp add: unat_nibble_low hdr_len4_def)
  have po': "unat (payload_offset r) = unat ip + hdr_len4 pkt (unat ip) + unat (l4_hdr_len r)"
    "unat (ip + ?hl) = unat ip + hdr_len4 pkt (unat ip)" "20 \<le> hdr_len4 pkt (unat ip)" "8 \<le> unat (l4_hdr_len r)" "14 \<le> unat ip"
    using lo fields hl by (auto simp: layers_ok_def split: if_splits)
  have low: "out ! j = pkt ! j" if "j < unat ip + 2" for j
    using that po' fields(1) by (intro same not_mut(1) [OF lo]) simp_all
  have mid: "out ! j = pkt ! j" if "unat ip + 6 \<le> j" "j \<le> unat ip + 9" for j
    using that po' fields(1,2) by (intro same not_mut(2) [OF lo]) simp_all
  have e: "out ! unat ip = pkt ! unat ip" "out ! 12 = pkt ! 12" "out ! 13 = pkt ! 13"
    "out ! (unat ip + 6) = pkt ! (unat ip + 6)" "out ! (unat ip + 7) = pkt ! (unat ip + 7)"
    "out ! (unat ip + 9) = pkt ! (unat ip + 9)"
    by (rule low mid, use po' in simp_all)+
  have hd: "hdr_len4 out (unat ip) = hdr_len4 pkt (unat ip)" using e by (simp add: hdr_len4_def)
  have ag: "agree out pkt 14 (unat ip)"
    by (simp add: agree_def low)
  have l4acc: "l4_accepts pkt (unat c) (pkt ! (unat ip + 9)) (unat (ip + ?hl))"
    using v4(3) po'(2) by (simp add: ipv4_accepts_def)
  have e12: "out ! (unat (ip + ?hl) + 12) = pkt ! (unat (ip + ?hl) + 12)" if "pkt ! (unat ip + 9) = IPPROTO_TCP"
    using tcp [OF that] not_mut(4) [OF lo] lo po' fields(3) by (intro same) (auto simp: layers_ok_def)
  have acc': "l4_accepts out (unat c') (pkt ! (unat ip + 9)) (unat (ip + ?hl))"
    using po po' fields(5) by (intro l4_stable [OF l4acc _ _ e12, of ?rb]) simp_all
  have "ipv4_accepts out (unat c') (unat ip)"
    using v4(3) po po' e hd acc' by (simp add: ipv4_accepts_def)
  moreover have "ipv4_result out ip (base_result out ip) = r"
    by (simp add: v4(4) ipv4_result_def base_result_cong [OF e(2,3)] Let_def e l4_result_cong [OF e12])
  moreover have "vlan_outcome out c' (ether_type0 out) 14 ETHERTYPE_IP ip"
    using vlan_outcome_stable [OF v4(2) ag f'] po po' e by simp
  moreover have "14 \<le> unat c'" using po po' by linarith
  ultimately show ?thesis
    using decl fields by (intro parse_shape.v4 [of _ _ ip]) (simp_all add: declared_len_def Let_def)
qed

lemma parse_shape_stable6:
  assumes shape: "parse_shape pkt c d r" and f: "frame_ok pkt c" and f': "frame_ok out c'"
    and po: "unat (payload_offset r) \<le> unat c'"
    and same: "\<And>j. j < unat (payload_offset r) \<Longrightarrow> j \<notin> ip_mut r \<union> l4_mut r \<Longrightarrow> out ! j = pkt ! j"
    and decl: "declared_len r out = (if is_ipv4 r then unat (ip_hdr_len r) else unat (ipv6_ext_len r)) + unat (l4_hdr_len r) + d'"
    and v6: "14 \<le> unat c" "vlan_outcome pkt c (ether_type0 pkt) 14 ETHERTYPE_IPV6 ip"
      "unat ip + 40 \<le> unat c" "ext_outcome pkt c (pkt ! (unat ip + 6)) (ip + 40) nh l4"
      "nh \<noteq> IPPROTO_FRAGMENT" "l4_accepts pkt (unat c) nh (unat l4)"
      "r = ipv6_result pkt ip nh l4 (base_result pkt ip)"
  shows "parse_shape out c' d' r"
proof -
  note lo = parse_shape_layers [OF shape f]
  let ?rb = "(base_result pkt ip)\<lparr>is_ipv6 := True, ipv6_hdr := Some (unat ip), ip_hdr_len := 40,
               ipv6_ext_len := l4 - (ip + 40), l4_offset := l4\<rparr>"
  have fields: "ip_offset r = ip" "\<not> is_ipv4 r" "l4_offset r = l4" "ip_hdr_len r = 40"
    "l4_hdr_len r = l4_hdr_len (l4_result pkt nh l4 ?rb)"
    by (simp_all add: v6(7) ipv6_result_def Let_def)
  have tcp: "is_tcp r" if "nh = IPPROTO_TCP"
    using that by (simp add: v6(7) ipv6_result_def Let_def l4_result_def)
  have po': "unat (payload_offset r) = unat l4 + unat (l4_hdr_len r)" "unat ip + 40 \<le> unat l4"
    "8 \<le> unat (l4_hdr_len r)" "14 \<le> unat ip"
    using lo fields by (auto simp: layers_ok_def split: if_splits)
  have o40: "unat (ip + 40) = unat ip + 40"
    using unat_add16 [of ip 40] v6(3) f by (simp add: frame_ok_def)
  have low: "out ! j = pkt ! j" if "j < unat ip + 2" for j
    using that po' fields(1) by (intro same not_mut(1) [OF lo]) simp_all
  have mid: "out ! j = pkt ! j" if "unat ip + 6 \<le> j" "j < unat l4" for j
    using that po' fields by (intro same not_mut(3) [OF lo]) simp_all
  have e: "out ! 12 = pkt ! 12" "out ! 13 = pkt ! 13" "out ! (unat ip + 6) = pkt ! (unat ip + 6)"
    by (rule low mid, use po' in simp_all)+
  have ag: "agree out pkt 14 (unat ip)" "agree out pkt (unat (ip + 40)) (unat l4)"
    using o40 by (simp_all add: agree_def low mid)
  have e12: "out ! (unat l4 + 12) = pkt ! (unat l4 + 12)" if "nh = IPPROTO_TCP"
    using tcp [OF that] not_mut(4) [OF lo] lo po' fields(3) by (intro same) (auto simp: layers_ok_def)
  have "l4_accepts out (unat c') nh (unat l4)"
    using po po' fields(5) by (intro l4_stable [OF v6(6) _ _ e12, of ?rb]) simp_all
  moreover have "r = ipv6_result out ip nh l4 (base_result out ip)"
    by (simp add: v6(7) ipv6_result_def base_result_cong [OF e(1,2)] Let_def l4_result_cong [OF e12])
  moreover have "vlan_outcome out c' (ether_type0 out) 14 ETHERTYPE_IPV6 ip"
    using vlan_outcome_stable [OF v6(2) ag(1) f'] po po' e by simp
  moreover have "ext_outcome out c' (out ! (unat ip + 6)) (ip + 40) nh l4"
    using ext_outcome_stable [OF v6(4) ag(2) f'] po po' e by simp
  moreover have "14 \<le> unat c'" "unat ip + 40 \<le> unat c'" using po po' by linarith+
  ultimately show ?thesis
    using decl fields v6(5) by (intro parse_shape.v6 [of _ _ ip nh l4]) (simp_all add: declared_len_def Let_def)
qed

lemma parse_shape_stable:
  assumes shape: "parse_shape pkt c d r" and f: "frame_ok pkt c" and f': "frame_ok out c'"
    and po: "unat (payload_offset r) \<le> unat c'"
    and same: "\<And>j. j < unat (payload_offset r) \<Longrightarrow> j \<notin> ip_mut r \<union> l4_mut r \<Longrightarrow> out ! j = pkt ! j"
    and decl: "declared_len r out = (if is_ipv4 r then unat (ip_hdr_len r) else unat (ipv6_ext_len r)) + unat (l4_hdr_len r) + d'"
  shows "parse_shape out c' d' r"
  using shape
proof cases
  case (v4 ip)
  from parse_shape_stable4 [OF assms v4(1-4)] show ?thesis .
next
  case (v6 ip nh l4)
  from parse_shape_stable6 [OF assms v6(1-7)] show ?thesis .
qed

lemma fragment_reparse:
  assumes f: "frame_ok pkt caplen" and p: "parse_packet pkt caplen = Some (True, r)"
    and k: "unat (payload_offset r) + k \<le> length out" "unat (payload_offset r) + k \<le> 65535"
    and fr: "fragment_of r pkt off k recalc out"
  shows "parse_packet (take (unat (payload_offset r) + k) out) (of_nat (unat (payload_offset r) + k))
           = Some (True, r\<lparr>payload_len := of_nat k\<rparr>)"
proof -
  let ?po = "unat (payload_offset r)"
  let ?o = "take (?po + k) out" and ?c = "of_nat (?po + k) :: u32"
  obtain d r1 where s: "parse_shape pkt caplen d r1" "r = with_payload caplen d r1"
    using parse_packet_True [OF f p] .
  have r1: "payload_offset r1 = payload_offset r" "ip_mut r1 = ip_mut r" "l4_mut r1 = l4_mut r"
    "is_ipv4 r1 = is_ipv4 r" "ip_hdr_len r1 = ip_hdr_len r" "ipv6_ext_len r1 = ipv6_ext_len r"
    "l4_hdr_len r1 = l4_hdr_len r" "declared_len r1 x = declared_len r x" for x
    by (simp_all add: s(2) with_payload_def ip_mut_def l4_mut_def declared_len_def)
  have c: "unat ?c = ?po + k" using k(2) by (intro unat_of_nat_u32) simp
  then have f': "frame_ok ?o ?c" using k by (simp add: frame_ok_def)
  have lo: "layers_ok (unat caplen) r" by (rule parsed_facts [OF f p])
  have "unat (ip_offset r) + 6 \<le> ?po" using lo by (auto simp: layers_ok_def split: if_splits)
  then have decl: "declared_len r ?o = declared_len r out" by (simp add: declared_len_def Let_def)
  have "parse_shape ?o ?c k r1"
  proof (rule parse_shape_stable [OF s(1) f f'])
    show "unat (payload_offset r1) \<le> unat ?c" using c by (simp add: r1)
    show "?o ! j = pkt ! j" if "j < unat (payload_offset r1)" "j \<notin> ip_mut r1 \<union> l4_mut r1" for j
      using that fr by (simp add: r1 fragment_of_def)
    show "declared_len r1 ?o = (if is_ipv4 r1 then unat (ip_hdr_len r1) else unat (ipv6_ext_len r1))
        + unat (l4_hdr_len r1) + k"
      using fr by (simp add: r1 decl fragment_of_def)
  qed
  from parse_of_shape [OF this f'] show ?thesis
    using c by (simp add: with_payload_def s(2))
qed

lemma slices_concat:
  assumes "0 < m" "c * m \<ge> length xs" "\<And>i. i < c \<Longrightarrow> ps ! i = take m (drop (i * m) xs)" "length ps = c"
  shows "concat ps = (xs :: 'a list)"
proof -
  have "concat (map (\<lambda>i. take m (drop (i * m) xs)) [0..<j]) = take (j * m) xs" for j
  proof (induction j)
    case (Suc j)
    have "Suc j * m = j * m + m" by simp
    with Suc show ?case by (simp only: take_add upt_Suc_append map_append concat_append) simp
  qed simp
  moreover have "ps = map (\<lambda>i. take m (drop (i * m) xs)) [0..<c]"
    using assms(3,4) by (intro nth_equalityI) simp_all
  ultimately show ?thesis using assms(2) by simp
qed

lemma fragment_count_bounds:
  assumes "0 < m" "0 < unat (payload_len r)"
  shows "0 < calculate_fragment_count r (int m)"
    "i < nat (calculate_fragment_count r (int m)) \<longleftrightarrow> i * m < unat (payload_len r)"
proof -
  let ?n = "unat (payload_len r)"
  define c where "c = (if ?n \<le> m then 1 else (?n + m - 1) div m)"
  have "(if int m \<le> 0 \<or> int n \<le> int m then 1 else (int n + int m - 1) div int m)
      = int (if n \<le> m then 1 else (n + m - 1) div m)" for n
    using assms(1) by (simp add: zdiv_int)
  from this [of ?n] have "calculate_fragment_count r (int m) = int c"
    unfolding calculate_fragment_count_def c_def .
  moreover have "0 < c" using assms by (auto simp: c_def div_greater_zero_iff)
  moreover have "i < c \<longleftrightarrow> i * m < ?n"
  proof (cases "?n \<le> m")
    case True
    then show ?thesis using assms by (cases i) (simp_all add: c_def)
  next
    case False
    have "i < (?n + m - 1) div m \<longleftrightarrow> (i + 1) * m \<le> ?n + m - 1"
      using assms(1) by (simp add: less_eq_div_iff_mult_less_eq Suc_le_eq [symmetric])
    then show ?thesis using False assms by (auto simp: c_def)
  qed
  ultimately show "0 < calculate_fragment_count r (int m)"
    "i < nat (calculate_fragment_count r (int m)) \<longleftrightarrow> i * m < ?n" by simp_all
qed

section \<open>Properties\<close>

text \<open>A UDP over IPv4 frame with a six-byte payload, behind one VLAN tag.\<close>

definition sample_frame :: bytes where
  "sample_frame =
    [0, 1, 2, 3, 4, 5, 6, 7, 8, 9, 10, 11, 0x81, 0, 0, 7, 8, 0,
     0x45, 0, 0, 34, 0, 1, 0x40, 0, 64, 17, 0, 0, 10, 0, 0, 1, 10, 0, 0, 2,
     0x13, 0x88, 0x13, 0x89, 0, 14, 0, 0, 65, 66, 67, 68, 69, 70]"

definition sample_parsed :: packet_parse_result where
  "sample_parsed = parse_zero\<lparr>eth_hdr := Some 0, has_vlan := True, vlan_offset := 14, vlan_hdr := Some 14,
     ip_offset := 18, is_ipv4 := True, ipv4_hdr := Some 18, ip_hdr_len := 20, l4_offset := 38,
     is_udp := True, udp_hdr := Some 38, l4_hdr_len := 8, payload_offset := 46, payload := Some 46,
     payload_len := 6\<rparr>"

lemma sample_parse: "parse_packet sample_frame 52 = Some (True, sample_parsed)"
  by (simp add: parse_packet_def sample_frame_def sample_parsed_def parse_vlan.simps rd16_def rd8_def
      of_be16_def header_consts parse_ipv4_def parse_l4_def Let_def parse_zero_def)

text \<open>(C26) On any frame of at most 65535 captured bytes \<open>parse_packet\<close> returns, reads only
  captured bytes, and when it accepts, the layers it reports follow one another inside the
  capture: Ethernet and VLAN tags, the IP header with its extension headers, the L4 header,
  and a payload that ends within the capture.\<close>

theorem parse_packet_safe:
  assumes "unat caplen \<le> length pkt" "unat caplen \<le> 65535"
  shows "\<exists>ok r. parse_packet pkt caplen = Some (ok, r) \<and>
    (ok \<longrightarrow> layers_ok (unat caplen) r \<and>
       unat (payload_offset r) + unat (payload_len r) \<le> unat caplen)"
proof -
  have f: "frame_ok pkt caplen" using assms by (simp add: frame_ok_def)
  then obtain ok r where p: "parse_packet pkt caplen = Some (ok, r)"
    using parse_packet_total_shape parse_of_shape by blast
  then show ?thesis using parsed_facts [OF f, of r] by (cases ok) auto
qed

theorem parse_packet_safe_witness:
  "\<exists>ok r. parse_packet sample_frame 52 = Some (ok, r) \<and>
    (ok \<longrightarrow> layers_ok 52 r \<and> unat (payload_offset r) + unat (payload_len r) \<le> 52)"
  using parse_packet_safe [of 52 sample_frame] by (simp add: sample_frame_def)





text \<open>The frame that makes the VLAN walk wrap: every four-byte group is the start of another tag.\<close>

definition vlan_storm :: bytes where
  "vlan_storm = concat (replicate 16385 [0x81, 0, 0, 0])"

lemma storm_nth:
  assumes "j < 16385"
  shows "vlan_storm ! (4 * j) = 0x81" "vlan_storm ! (4 * j + 1) = 0" "length vlan_storm = 65540"
proof -
  have l: "length (concat (replicate n [0x81, 0, 0, 0 :: u8])) = 4 * n" for n by (induction n) simp_all
  have "concat (replicate n [0x81, 0, 0, 0 :: u8]) ! (4 * j) = 0x81 \<and>
        concat (replicate n [0x81, 0, 0, 0 :: u8]) ! (4 * j + 1) = 0" if "j < n" for n
    using that
  proof (induction n arbitrary: j)
    case (Suc n)
    then show ?case by (cases j) simp_all
  qed simp
  with assms l show "vlan_storm ! (4 * j) = 0x81" "vlan_storm ! (4 * j + 1) = 0" "length vlan_storm = 65540"
    unfolding vlan_storm_def by simp_all
qed

lemma storm_ethertype:
  assumes "unat off mod 4 = 2"
  shows "rd16 vlan_storm (unat (off :: u16) + 2) = Some ETHERTYPE_VLAN"
proof -
  define j where "j = (unat off + 2) div 4"
  have d: "unat off + 2 = 4 * j" using assms unfolding j_def by presburger
  have "4 * j < 65540" using unat_u16_lt [of off] d by linarith
  then have "j < 16385" by simp
  from storm_nth [OF this] show ?thesis
    unfolding d using \<open>4 * j < 65540\<close> by (simp add: rd16_in of_be16_def header_consts)
qed

lemma storm_step: "unat off mod 4 = 2 \<Longrightarrow> unat (off + 4 :: u16) mod 4 = 2"
proof -
  assume a: "unat off mod 4 = 2"
  have "unat (off + 4) = (unat off + 4) mod 65536" by (simp add: unat_word_ariths)
  moreover have "(unat off + 4) mod 65536 mod 4 = (unat off + 4) mod 4" by (rule mod_mod_cancel) simp
  ultimately show ?thesis using a by simp
qed

lemma parse_vlan_storm:
  assumes "parse_vlan pkt caplen et off r = Some v"
  shows "\<not> (pkt = vlan_storm \<and> caplen = 65540 \<and> et = ETHERTYPE_VLAN \<and> unat off mod 4 = 2)"
proof (rule parse_vlan.raw_induct [where P = "\<lambda>pkt caplen et off r v.
    \<not> (pkt = vlan_storm \<and> caplen = 65540 \<and> et = ETHERTYPE_VLAN \<and> unat off mod 4 = 2)", OF _ assms])
  fix f :: "bytes \<Rightarrow> u32 \<Rightarrow> u16 \<Rightarrow> u16 \<Rightarrow> packet_parse_result \<Rightarrow> (u16 \<times> u16 \<times> packet_parse_result) stage"
    and pkt caplen et off r v
  assume ih: "\<And>pkt caplen et off r v. f pkt caplen et off r = Some v \<Longrightarrow>
      \<not> (pkt = vlan_storm \<and> caplen = 65540 \<and> et = ETHERTYPE_VLAN \<and> unat off mod 4 = 2)"
    and run: "(if et = ETHERTYPE_VLAN \<or> et = ETHERTYPE_DOT1AD \<or> et = ETHERTYPE_VLAN_9100 \<or> et = ETHERTYPE_VLAN_9200
     then if unat caplen < unat off + 4 then Some (Inl r)
          else let r = (if \<not> has_vlan r
                        then r\<lparr>has_vlan := True, vlan_offset := off, vlan_hdr := Some (unat off)\<rparr>
                        else r)
               in do { et \<leftarrow> rd16 pkt (unat off + 2); f pkt caplen et (off + 4) r }
     else Some (Inr (et, off, r))) = Some v"
  have "\<not> 65540 < unat off + 4" using unat_u16_lt [of off] by linarith
  then show "\<not> (pkt = vlan_storm \<and> caplen = 65540 \<and> et = ETHERTYPE_VLAN \<and> unat off mod 4 = 2)"
    using run ih storm_ethertype [of off] storm_step [of off] by (auto simp: Let_def)
qed

text \<open>(C31) The bound on the captured length is needed: \<open>parse_packet\<close> keeps its offset in a
  \<open>uint16_t\<close>, and on a 65540-byte frame of nothing but VLAN tags the offset wraps to the start
  of the frame, so the VLAN loop never ends.\<close>

theorem parse_packet_vlan_wraps: "parse_packet vlan_storm 65540 = None"
proof -
  have "rd16 vlan_storm 12 = Some ETHERTYPE_VLAN"
    using storm_nth [of 3] by (simp add: rd16_in of_be16_def header_consts)
  moreover have "parse_vlan vlan_storm 65540 ETHERTYPE_VLAN 14 r = None" for r
    using parse_vlan_storm [of vlan_storm 65540 ETHERTYPE_VLAN 14 r] by (cases "parse_vlan vlan_storm 65540 ETHERTYPE_VLAN 14 r") auto
  ultimately show ?thesis by (simp add: parse_packet_def Let_def)
qed

end
