(* ===== verification/Ring_Buffer.thy ===== *)
theory Ring_Buffer
  imports CP_Prelude "HOL-Library.Multiset" "HOL-Library.Sublist"
begin

text \<open>
  \<open>ring_buffer.c\<close>: the single-producer single-consumer message ring between the
  capture loop and the output thread, the accounting allocator of its messages, and the
  (currently unused) ring memory pool.  \<open>size_t\<close> values are natural numbers where the code
  bounds them and 64-bit words in the allocator, whose additions could wrap.

  The ring is modelled twice: its operations as functions, refined to the queue contract
  \<open>bounded_fifo\<close>, and its atomic loads and stores as an interleaving step relation of the two
  threads.  The acquire loads and release stores of the code order the slot accesses, so the
  interleavings of single steps are the executions to consider.
\<close>

section \<open>Messages\<close>

text \<open>\<open>ring_msg_t\<close>: a captured packet with its direction and \<open>struct pcap_pkthdr\<close>, or a
  heartbeat.  The \<open>user\<close> pointer is the address of the task.\<close>

datatype msg_body =
    RING_MSG_PACKET int pcap_pkthdr bytes
  | RING_MSG_HEARTBEAT u64

record ring_msg =
  rm_user :: "nat option"
  rm_body :: msg_body

text \<open>\<open>sizeof(ring_msg_t)\<close> on LP64.\<close>

definition sizeof_ring_msg :: nat where
  "sizeof_ring_msg = 48"

section \<open>The SPSC ring\<close>

record 'm spsc_ring =
  r_buf :: "'m option list"
  r_size :: nat
  r_head :: nat
  r_tail :: nat

definition spsc_ring_create :: "nat \<Rightarrow> 'm spsc_ring" where
  "spsc_ring_create n = \<lparr>r_buf = replicate n None, r_size = n, r_head = 0, r_tail = 0\<rparr>"

definition spsc_ring_size :: "'m spsc_ring \<Rightarrow> nat" where
  "spsc_ring_size r = r_size r"

definition spsc_ring_used :: "'m spsc_ring \<Rightarrow> nat" where
  "spsc_ring_used r = (if r_tail r \<le> r_head r then r_head r - r_tail r else r_size r - r_tail r + r_head r)"

text \<open>A zero-sized ring divides by zero; an index outside \<open>buf\<close> is undefined as well.\<close>

definition spsc_ring_push :: "'m spsc_ring \<Rightarrow> 'm \<Rightarrow> (bool \<times> 'm spsc_ring) option" where
  "spsc_ring_push r msg =
    (if r_size r = 0 then None
     else let nxt = (r_head r + 1) mod r_size r in
       if nxt = r_tail r then Some (False, r)
       else if r_head r < length (r_buf r)
       then Some (True, r\<lparr>r_buf := (r_buf r)[r_head r := Some msg], r_head := nxt\<rparr>)
       else None)"

definition spsc_ring_pop :: "'m spsc_ring \<Rightarrow> (bool \<times> 'm option \<times> 'm spsc_ring) option" where
  "spsc_ring_pop r =
    (if r_tail r = r_head r then Some (False, None, r)
     else if r_size r = 0 \<or> length (r_buf r) \<le> r_tail r then None
     else Some (True, r_buf r ! r_tail r, r\<lparr>r_tail := (r_tail r + 1) mod r_size r\<rparr>))"

section \<open>The memory pool\<close>

text \<open>An allocation is the offset of its first byte in \<open>mem\<close>; \<^term>\<open>None\<close> outside is a failed
  \<open>assert\<close>.\<close>

record mempool =
  mp_capacity :: nat
  mp_head :: nat
  mp_tail :: nat
  mp_limit :: nat

definition mempool_create :: "nat \<Rightarrow> mempool" where
  "mempool_create cap = \<lparr>mp_capacity = cap, mp_head = 0, mp_tail = 0, mp_limit = cap\<rparr>"

definition mempool_alloc :: "mempool \<Rightarrow> nat \<Rightarrow> (nat option \<times> mempool) option" where
  "mempool_alloc mp sz =
    (if sz = 0 then None
     else let hd = mp_head mp; tl = mp_tail mp; cap = mp_capacity mp in
       if hd \<ge> tl
       then if cap - hd \<ge> sz
            then let new_head = hd + sz;
                     new_head = (if new_head = cap then 0 else new_head)
                 in Some (Some hd, mp\<lparr>mp_head := new_head\<rparr>)
            else if sz \<ge> tl then Some (None, mp)
            else Some (Some 0, mp\<lparr>mp_limit := hd, mp_head := sz\<rparr>)
       else if tl - hd - 1 < sz then Some (None, mp)
       else Some (Some hd, mp\<lparr>mp_head := hd + sz\<rparr>))"

definition mempool_free :: "mempool \<Rightarrow> nat \<Rightarrow> mempool option" where
  "mempool_free mp sz =
    (if sz = 0 then None
     else let new_tail = mp_tail mp + sz; cap = mp_capacity mp in
       if mp_limit mp \<noteq> cap
       then if new_tail \<ge> mp_limit mp
            then if new_tail = mp_limit mp then Some (mp\<lparr>mp_limit := cap, mp_tail := 0\<rparr>) else None
            else Some (mp\<lparr>mp_tail := new_tail\<rparr>)
       else if new_tail \<ge> cap
       then if new_tail = cap then Some (mp\<lparr>mp_tail := 0\<rparr>) else None
       else Some (mp\<lparr>mp_tail := new_tail\<rparr>))"

section \<open>The accounting allocator\<close>

record simple_allocator =
  a_capacity :: u64
  a_used :: u64

definition simple_allocator_create :: "u64 \<Rightarrow> simple_allocator" where
  "simple_allocator_create cap = \<lparr>a_capacity = cap, a_used = 0\<rparr>"

text \<open>The CAS loop run without interference: \<open>malloc_ok\<close> says whether \<open>malloc\<close> succeeds.\<close>

definition simple_alloc_packet ::
  "simple_allocator \<Rightarrow> bool \<Rightarrow> pcap_pkthdr \<Rightarrow> bytes \<Rightarrow> (ring_msg option \<times> simple_allocator) option" where
  "simple_alloc_packet a malloc_ok header pkt_data =
    (let total = of_nat sizeof_ring_msg + ucast (ph_caplen header) in
     if a_used a + total > a_capacity a then Some (None, a)
     else if \<not> malloc_ok then Some (None, a)
     else do {
       d \<leftarrow> rd_bytes pkt_data 0 (unat (ph_caplen header));
       Some (Some \<lparr>rm_user = None, rm_body = RING_MSG_PACKET 0 header d\<rparr>, a\<lparr>a_used := a_used a + total\<rparr>)
     })"

definition simple_alloc_heartbeat ::
  "simple_allocator \<Rightarrow> bool \<Rightarrow> u64 \<Rightarrow> ring_msg option \<times> simple_allocator" where
  "simple_alloc_heartbeat a malloc_ok t =
    (let n = of_nat sizeof_ring_msg in
     if a_used a + n > a_capacity a then (None, a)
     else if \<not> malloc_ok then (None, a)
     else (Some \<lparr>rm_user = None, rm_body = RING_MSG_HEARTBEAT t\<rparr>, a\<lparr>a_used := a_used a + n\<rparr>))"

definition msg_size :: "ring_msg \<Rightarrow> u64" where
  "msg_size m = (case rm_body m of
     RING_MSG_PACKET d h p \<Rightarrow> of_nat sizeof_ring_msg + ucast (ph_caplen h)
   | RING_MSG_HEARTBEAT t \<Rightarrow> of_nat sizeof_ring_msg)"

definition simple_msg_free :: "simple_allocator \<Rightarrow> ring_msg \<Rightarrow> simple_allocator" where
  "simple_msg_free a msg =
    (let n = msg_size msg;
         n = (if a_used a < n then a_used a else n)
     in a\<lparr>a_used := a_used a - n\<rparr>)"

definition simple_allocator_resize :: "simple_allocator \<Rightarrow> u64 \<Rightarrow> simple_allocator" where
  "simple_allocator_resize a new_capacity = a\<lparr>a_capacity := new_capacity\<rparr>"

section \<open>The queue contract\<close>

datatype 'm queue_op = Push 'm | Pop

fun queue_run :: "('q \<Rightarrow> 'm \<Rightarrow> (bool \<times> 'q) option) \<Rightarrow> ('q \<Rightarrow> (bool \<times> 'm option \<times> 'q) option) \<Rightarrow>
    'm queue_op list \<Rightarrow> 'q \<Rightarrow> ('m list \<times> 'm list \<times> 'q) option" where
  "queue_run push pop [] q = Some ([], [], q)"
| "queue_run push pop (Push m # ops) q = do {
     (ok, q) \<leftarrow> push q m;
     (ins, outs, q) \<leftarrow> queue_run push pop ops q;
     Some (if ok then m # ins else ins, outs, q) }"
| "queue_run push pop (Pop # ops) q = do {
     (ok, x, q) \<leftarrow> pop q;
     (ins, outs, q) \<leftarrow> queue_run push pop ops q;
     Some (ins, (case x of Some m \<Rightarrow> m # outs | None \<Rightarrow> outs), q) }"

text \<open>What the capture loop and the output thread rely on: a FIFO that refuses when full.
  \<open>queue_run\<close> returns the messages a sequence of operations accepted and delivered.\<close>

locale bounded_fifo =
  fixes push :: "'q \<Rightarrow> 'm \<Rightarrow> (bool \<times> 'q) option"
    and pop :: "'q \<Rightarrow> (bool \<times> 'm option \<times> 'q) option"
    and content :: "'q \<Rightarrow> 'm list"
    and inv :: "'q \<Rightarrow> bool"
    and room :: "'q \<Rightarrow> nat"
  assumes push_room: "inv q \<Longrightarrow> length (content q) < room q \<Longrightarrow>
      \<exists>q'. push q m = Some (True, q') \<and> inv q' \<and> content q' = content q @ [m] \<and> room q' = room q"
    and push_full: "inv q \<Longrightarrow> \<not> length (content q) < room q \<Longrightarrow> push q m = Some (False, q)"
    and pop_empty: "inv q \<Longrightarrow> content q = [] \<Longrightarrow> pop q = Some (False, None, q)"
    and pop_first: "inv q \<Longrightarrow> content q = m # ms \<Longrightarrow>
      \<exists>q'. pop q = Some (True, Some m, q') \<and> inv q' \<and> content q' = ms \<and> room q' = room q"
begin

text \<open>Every run returns; what comes out, followed by what is left, is what went in.\<close>

lemma run_fifo:
  "inv q \<Longrightarrow> \<exists>ins outs q'. queue_run push pop ops q = Some (ins, outs, q') \<and> inv q' \<and>
     content q @ ins = outs @ content q'"
proof (induction ops arbitrary: q)
  case (Cons op ops)
  show ?case
  proof (cases op)
    case (Push m)
    show ?thesis
    proof (cases "length (content q) < room q")
      case True
      then obtain q1 where "push q m = Some (True, q1)" "inv q1" "content q1 = content q @ [m]"
        using push_room [OF Cons.prems] by blast
      then show ?thesis using Cons.IH [of q1] Push by auto
    next
      case False
      then show ?thesis using Cons.IH [OF Cons.prems] push_full [OF Cons.prems] Push by auto
    qed
  next
    case Pop
    show ?thesis
    proof (cases "content q")
      case Nil
      then show ?thesis using Cons.IH [OF Cons.prems] pop_empty [OF Cons.prems] Pop by auto
    next
      case (Cons m ms)
      then obtain q1 where "pop q = Some (True, Some m, q1)" "inv q1" "content q1 = ms"
        using pop_first [OF Cons.prems] by blast
      then show ?thesis using Cons.IH [of q1] Pop Cons by auto
    qed
  qed
qed simp

end

section \<open>The ring refines the queue\<close>

definition ring_inv :: "'m spsc_ring \<Rightarrow> bool" where
  "ring_inv r \<longleftrightarrow> 0 < r_size r \<and> length (r_buf r) = r_size r \<and> r_head r < r_size r \<and> r_tail r < r_size r \<and>
    (\<forall>i < spsc_ring_used r. r_buf r ! ((r_tail r + i) mod r_size r) \<noteq> None)"

definition ring_content :: "'m spsc_ring \<Rightarrow> 'm list" where
  "ring_content r = map (\<lambda>i. the (r_buf r ! ((r_tail r + i) mod r_size r))) [0..<spsc_ring_used r]"

lemma used_char:
  assumes "r_head r < r_size r" "r_tail r < r_size r"
  shows "spsc_ring_used r < r_size r" "r_head r = (r_tail r + spsc_ring_used r) mod r_size r"
  using assms by (auto simp: spsc_ring_used_def mod_if)

lemma used_unique:
  assumes "r_head r < r_size r" "r_tail r < r_size r" "u < r_size r" "r_head r = (r_tail r + u) mod r_size r"
  shows "spsc_ring_used r = u"
  using assms by (auto simp: spsc_ring_used_def mod_if split: if_splits)

lemma slot_inj:
  fixes n :: nat
  assumes "i < n" "j < n" "(t + i) mod n = (t + j) mod n"
  shows "i = j"
proof -
  have "j' = i'" if "i' \<le> j'" "j' < n" "(t + i') mod n = (t + j') mod n" for i' j'
  proof -
    have "n dvd (t + j') - (t + i')" using that by (subst mod_eq_dvd_iff_nat [symmetric]) simp_all
    then have d: "n dvd j' - i'" by simp
    show ?thesis
    proof (rule ccontr)
      assume "j' \<noteq> i'"
      then have "0 < j' - i'" "j' - i' < n" using that by simp_all
      with d show False using nat_dvd_not_less by blast
    qed
  qed
  then show ?thesis using assms by (metis nat_le_linear)
qed

lemma next_slot:
  assumes "r_head r < r_size r" "r_tail r < r_size r"
  shows "(r_head r + 1) mod r_size r = (r_tail r + (spsc_ring_used r + 1)) mod r_size r"
    and "(r_head r + 1) mod r_size r = r_tail r \<longleftrightarrow> \<not> spsc_ring_used r < r_size r - 1"
proof -
  note u = used_char [OF assms]
  show e: "(r_head r + 1) mod r_size r = (r_tail r + (spsc_ring_used r + 1)) mod r_size r"
    by (subst u(2)) (simp add: mod_Suc_eq)
  show "(r_head r + 1) mod r_size r = r_tail r \<longleftrightarrow> \<not> spsc_ring_used r < r_size r - 1"
  proof (cases "spsc_ring_used r < r_size r - 1")
    case True
    then have "spsc_ring_used r + 1 < r_size r" "0 < r_size r" by linarith+
    from slot_inj [OF this, of "r_tail r"]
    have "(r_tail r + (spsc_ring_used r + 1)) mod r_size r \<noteq> (r_tail r + 0) mod r_size r" by auto
    then show ?thesis using True e assms by simp
  next
    case False
    then have "spsc_ring_used r + 1 = r_size r" using u(1) by linarith
    then show ?thesis using False e assms by simp
  qed
qed

lemma push_refines:
  assumes inv: "ring_inv r" and room: "length (ring_content r) < r_size r - 1"
  shows "\<exists>r'. spsc_ring_push r m = Some (True, r') \<and> ring_inv r' \<and>
           ring_content r' = ring_content r @ [m] \<and> r_size r' - 1 = r_size r - 1"
proof -
  let ?n = "r_size r" and ?u = "spsc_ring_used r"
  let ?r = "r\<lparr>r_buf := (r_buf r)[r_head r := Some m], r_head := (r_head r + 1) mod ?n\<rparr>"
  have b: "0 < ?n" "length (r_buf r) = ?n" "r_head r < ?n" "r_tail r < ?n"
    "\<And>i. i < ?u \<Longrightarrow> r_buf r ! ((r_tail r + i) mod ?n) \<noteq> None"
    using inv by (simp_all add: ring_inv_def)
  have u: "?u < ?n - 1" using room by (simp add: ring_content_def)
  note uc = used_char [OF b(3,4)]
  have push: "spsc_ring_push r m = Some (True, ?r)"
    using b next_slot(2) [OF b(3,4)] u by (simp add: spsc_ring_push_def Let_def)
  have used': "spsc_ring_used ?r = ?u + 1"
    using b u next_slot(1) [OF b(3,4)] by (intro used_unique) simp_all
  have slot: "r_buf ?r ! ((r_tail r + i) mod ?n) = (if i = ?u then Some m else r_buf r ! ((r_tail r + i) mod ?n))"
    if "i < ?n" for i
    using slot_inj [OF that uc(1), of "r_tail r"] uc(2) b by (auto simp: nth_list_update)
  have "ring_content ?r = ring_content r @ [m]"
    unfolding ring_content_def used' using slot u by auto
  moreover have "ring_inv ?r"
    unfolding ring_inv_def used' using slot u b by (auto simp: less_Suc_eq)
  ultimately show ?thesis using push by auto
qed

lemma pop_refines:
  assumes inv: "ring_inv r" and c: "ring_content r = m # ms"
  shows "\<exists>r'. spsc_ring_pop r = Some (True, Some m, r') \<and> ring_inv r' \<and> ring_content r' = ms \<and>
           r_size r' - 1 = r_size r - 1"
proof -
  let ?n = "r_size r" and ?u = "spsc_ring_used r"
  let ?r = "r\<lparr>r_tail := (r_tail r + 1) mod ?n\<rparr>"
  have b: "0 < ?n" "length (r_buf r) = ?n" "r_head r < ?n" "r_tail r < ?n"
    "\<And>i. i < ?u \<Longrightarrow> r_buf r ! ((r_tail r + i) mod ?n) \<noteq> None"
    using inv by (simp_all add: ring_inv_def)
  note uc = used_char [OF b(3,4)]
  obtain v where v: "?u = Suc v" using c by (cases ?u) (simp_all add: ring_content_def)
  then have ne: "r_tail r \<noteq> r_head r" by (auto simp: spsc_ring_used_def)
  have shift: "((r_tail r + 1) mod ?n + i) mod ?n = (r_tail r + Suc i) mod ?n" for i
    by (simp add: mod_add_left_eq)
  have used': "spsc_ring_used ?r = v"
  proof (rule used_unique)
    show "r_head ?r = (r_tail ?r + v) mod r_size ?r" using uc(2) unfolding v by (simp add: mod_add_left_eq)
  qed (use b uc(1) v in simp_all)
  have split: "[0..<?u] = 0 # map Suc [0..<v]"
    unfolding v by (simp add: map_Suc_upt upt_conv_Cons)
  have "ring_content r = the (r_buf r ! r_tail r) # ring_content ?r"
    unfolding ring_content_def used' split using b by (simp add: mod_add_left_eq o_def)
  moreover have "r_buf r ! r_tail r \<noteq> None" using b(5) [of 0] b(4) v by simp
  moreover have "r_buf r ! ((r_tail r + Suc i) mod ?n) \<noteq> None" if "i < v" for i
    using b(5) [of "Suc i"] that v by simp
  then have "ring_inv ?r" unfolding ring_inv_def used' using b by (simp add: mod_add_left_eq)
  moreover have "spsc_ring_pop r = Some (True, r_buf r ! r_tail r, ?r)"
    using b ne by (simp add: spsc_ring_pop_def)
  ultimately show ?thesis using c by auto
qed

interpretation spsc: bounded_fifo spsc_ring_push spsc_ring_pop ring_content ring_inv "\<lambda>r. r_size r - 1"
proof unfold_locales
  fix q :: "'a spsc_ring" and m :: 'a
  assume i: "ring_inv q"
  then have b: "r_head q < r_size q" "r_tail q < r_size q" "0 < r_size q" by (simp_all add: ring_inv_def)
  show "spsc_ring_push q m = Some (False, q)" if "\<not> length (ring_content q) < r_size q - 1"
    using that b next_slot(2) [OF b(1,2)] by (simp add: spsc_ring_push_def ring_content_def Let_def)
  show "spsc_ring_pop q = Some (False, None, q)" if "ring_content q = []"
  proof -
    have "spsc_ring_used q = 0" using that by (simp add: ring_content_def)
    then have "r_tail q = r_head q" using used_char(2) [OF b(1,2)] b by simp
    then show ?thesis by (simp add: spsc_ring_pop_def)
  qed
  show "\<exists>q'. spsc_ring_push q m = Some (True, q') \<and> ring_inv q' \<and>
      ring_content q' = ring_content q @ [m] \<and> r_size q' - 1 = r_size q - 1"
    if "length (ring_content q) < r_size q - 1"
    by (rule push_refines [OF i that])
  show "\<exists>q'. spsc_ring_pop q = Some (True, Some m, q') \<and> ring_inv q' \<and> ring_content q' = ms \<and>
      r_size q' - 1 = r_size q - 1" if "ring_content q = m # ms" for ms
    by (rule pop_refines [OF i that])
qed

lemma ring_create_inv: "0 < n \<Longrightarrow> ring_inv (spsc_ring_create n) \<and> ring_content (spsc_ring_create n) = []"
  by (simp add: ring_inv_def spsc_ring_create_def spsc_ring_used_def ring_content_def)

section \<open>Producer and consumer interleaved\<close>

text \<open>The program counters between the atomic accesses of \<open>spsc_ring_push\<close> and
  \<open>spsc_ring_pop\<close>, with the locals loaded so far; \<open>pushed\<close> and \<open>popped\<close> record the messages
  whose push or pop has taken effect.\<close>

datatype 'm prod_pc = PIdle | PHead 'm nat | PTail 'm nat nat | PWrote 'm nat
datatype 'm cons_pc = CIdle | CHead nat | CTail nat nat | CRead "'m option" nat

record 'm conc =
  ring :: "'m spsc_ring"
  prod :: "'m prod_pc"
  cons :: "'m cons_pc"
  pushed :: "'m list"
  popped :: "'m option list"

definition conc_init :: "nat \<Rightarrow> 'm conc" where
  "conc_init n = \<lparr>ring = spsc_ring_create n, prod = PIdle, cons = CIdle, pushed = [], popped = []\<rparr>"

inductive conc_step :: "'m conc \<Rightarrow> 'm conc \<Rightarrow> bool" where
  push_load_head: "prod s = PIdle \<Longrightarrow> conc_step s (s\<lparr>prod := PHead m (r_head (ring s))\<rparr>)"
| push_load_tail: "prod s = PHead m h \<Longrightarrow> conc_step s (s\<lparr>prod := PTail m h (r_tail (ring s))\<rparr>)"
| push_full: "prod s = PTail m h t \<Longrightarrow> (h + 1) mod r_size (ring s) = t \<Longrightarrow> conc_step s (s\<lparr>prod := PIdle\<rparr>)"
| push_write: "prod s = PTail m h t \<Longrightarrow> (h + 1) mod r_size (ring s) \<noteq> t \<Longrightarrow>
    conc_step s (s\<lparr>ring := (ring s)\<lparr>r_buf := (r_buf (ring s))[h := Some m]\<rparr>, prod := PWrote m h\<rparr>)"
| push_publish: "prod s = PWrote m h \<Longrightarrow>
    conc_step s (s\<lparr>ring := (ring s)\<lparr>r_head := (h + 1) mod r_size (ring s)\<rparr>, prod := PIdle,
                   pushed := pushed s @ [m]\<rparr>)"
| pop_load_head: "cons s = CIdle \<Longrightarrow> conc_step s (s\<lparr>cons := CHead (r_head (ring s))\<rparr>)"
| pop_load_tail: "cons s = CHead h \<Longrightarrow> conc_step s (s\<lparr>cons := CTail h (r_tail (ring s))\<rparr>)"
| pop_empty: "cons s = CTail h t \<Longrightarrow> t = h \<Longrightarrow> conc_step s (s\<lparr>cons := CIdle\<rparr>)"
| pop_read: "cons s = CTail h t \<Longrightarrow> t \<noteq> h \<Longrightarrow> conc_step s (s\<lparr>cons := CRead (r_buf (ring s) ! t) t\<rparr>)"
| pop_retire: "cons s = CRead x t \<Longrightarrow>
    conc_step s (s\<lparr>ring := (ring s)\<lparr>r_tail := (t + 1) mod r_size (ring s)\<rparr>, cons := CIdle,
                   popped := popped s @ [x]\<rparr>)"

text \<open>With \<open>P\<close> messages pushed and \<open>C\<close> popped, the ring holds messages \<open>C..P-1\<close> at their index
  modulo the size, and the locals of each thread are earlier values of the other's counter.\<close>

definition prod_ok :: "nat \<Rightarrow> 'm spsc_ring \<Rightarrow> nat \<Rightarrow> nat \<Rightarrow> 'm prod_pc \<Rightarrow> bool" where
  "prod_ok n r P C pc = (case pc of
     PIdle \<Rightarrow> True
   | PHead m h \<Rightarrow> h = P mod n
   | PTail m h t \<Rightarrow> h = P mod n \<and> (\<exists>c. t = c mod n \<and> c \<le> C \<and> P - c < n)
   | PWrote m h \<Rightarrow> h = P mod n \<and> r_buf r ! h = Some m \<and> P + 1 - C < n)"

definition cons_ok :: "nat \<Rightarrow> 'm list \<Rightarrow> nat \<Rightarrow> nat \<Rightarrow> 'm cons_pc \<Rightarrow> bool" where
  "cons_ok n ms P C pc = (case pc of
     CIdle \<Rightarrow> True
   | CHead h \<Rightarrow> (\<exists>p. h = p mod n \<and> C \<le> p \<and> p \<le> P)
   | CTail h t \<Rightarrow> t = C mod n \<and> (\<exists>p. h = p mod n \<and> C \<le> p \<and> p \<le> P)
   | CRead x t \<Rightarrow> t = C mod n \<and> C < P \<and> x = Some (ms ! C))"

definition conc_inv :: "nat \<Rightarrow> 'm conc \<Rightarrow> bool" where
  "conc_inv n s \<longleftrightarrow>
    (let r = ring s; P = length (pushed s); C = length (popped s) in
     0 < n \<and> r_size r = n \<and> length (r_buf r) = n \<and> r_head r = P mod n \<and> r_tail r = C mod n \<and>
     C \<le> P \<and> P - C < n \<and> (\<forall>i. C \<le> i \<and> i < P \<longrightarrow> r_buf r ! (i mod n) = Some (pushed s ! i)) \<and>
     map Some (take C (pushed s)) = popped s \<and>
     prod_ok n r P C (prod s) \<and> cons_ok n (pushed s) P C (cons s))"

lemma mod_window: "i mod n = j mod n \<Longrightarrow> i \<le> j \<Longrightarrow> j - i < n \<Longrightarrow> i = (j :: nat)"
  using slot_inj [of 0 n "j - i" i] by simp

lemma conc_inv_init: "0 < n \<Longrightarrow> conc_inv n (conc_init n)"
  by (simp add: conc_inv_def conc_init_def spsc_ring_create_def prod_ok_def cons_ok_def)

lemma conc_step_inv:
  assumes "conc_step s s'" "conc_inv n s"
  shows "conc_inv n s'"
  using assms
proof (induction rule: conc_step.induct)
  case (push_write s m h t)
  let ?P = "length (pushed s)" and ?C = "length (popped s)"
  have i: "0 < n" "h = ?P mod n" "?C \<le> ?P" "?P - ?C < n" "r_size (ring s) = n" "length (r_buf (ring s)) = n"
    using push_write by (simp_all add: conc_inv_def prod_ok_def Let_def)
  obtain c where c: "t = c mod n" "c \<le> ?C" "?P - c < n"
    using push_write by (auto simp: conc_inv_def prod_ok_def Let_def)
  have "?P + 1 - c \<noteq> n"
  proof
    assume "?P + 1 - c = n"
    then have "?P + 1 = c + n" using c i by linarith
    then have "(?P + 1) mod n = c mod n" by simp
    then show False using push_write(2) c i by (simp add: mod_Suc_eq)
  qed
  then have room: "?P + 1 - ?C < n" using c i by linarith
  have "i mod n \<noteq> h" if "?C \<le> i" "i < ?P" for i
  proof -
    have "?P - i < n" using that i(4) by linarith
    then show ?thesis using mod_window [of i n ?P] that i(2) by auto
  qed
  moreover have "\<forall>i. ?C \<le> i \<and> i < ?P \<longrightarrow> r_buf (ring s) ! (i mod n) = Some (pushed s ! i)"
    using push_write(3) by (simp add: conc_inv_def Let_def)
  ultimately have "\<forall>i. ?C \<le> i \<and> i < ?P \<longrightarrow> (r_buf (ring s))[h := Some m] ! (i mod n) = Some (pushed s ! i)"
    by (metis nth_list_update_neq)
  moreover have "(r_buf (ring s))[h := Some m] ! h = Some m" using i by simp
  ultimately show ?case
    using push_write(1,3) i(2) room by (simp add: conc_inv_def prod_ok_def Let_def)
next
  case (push_publish s m h)
  then show ?case
    by (auto simp: conc_inv_def prod_ok_def cons_ok_def Let_def mod_Suc_eq nth_append less_Suc_eq
        split: cons_pc.splits)
next
  case (pop_read s h t)
  let ?P = "length (pushed s)" and ?C = "length (popped s)"
  have co: "cons_ok n (pushed s) ?P ?C (cons s)" using pop_read(3) by (simp add: conc_inv_def Let_def)
  obtain p where p: "h = p mod n" "?C \<le> p" "p \<le> ?P" "t = ?C mod n"
    using pop_read(1) co by (auto simp: cons_ok_def)
  then have "?C < ?P" using pop_read(2) by (cases "?C = p") auto
  then show ?case
    using pop_read(3) p(4) by (simp add: conc_inv_def cons_ok_def Let_def)
next
  case (pop_retire s x t)
  then show ?case
    by (auto simp: conc_inv_def prod_ok_def cons_ok_def Let_def mod_Suc_eq take_Suc_conv_app_nth
        split: prod_pc.splits)
qed (auto simp: conc_inv_def prod_ok_def cons_ok_def Let_def)

section \<open>The allocator under concurrency\<close>

text \<open>Threads inside \<open>simple_alloc_packet\<close>/\<open>simple_alloc_heartbeat\<close> (capacity loaded, in the CAS
  loop with the last value of \<open>used\<close>, or past the CAS and before \<open>malloc\<close>) and inside
  \<open>simple_msg_free\<close> (before and after the load of \<open>used\<close>); \<open>live\<close> are the sizes of the messages
  handed out and not being freed.\<close>

datatype alloc_thread =
    ACap u64 u64
  | ALoop u64 u64 u64
  | AReserved u64
  | FStart u64
  | FLoaded u64 u64

record alloc_state =
  al_alloc :: simple_allocator
  al_live :: "u64 multiset"
  al_threads :: "alloc_thread multiset"

inductive alloc_step :: "alloc_state \<Rightarrow> alloc_state \<Rightarrow> bool" where
  load_cap: "sz \<le> 0x200000000 \<Longrightarrow>
    alloc_step s (s\<lparr>al_threads := add_mset (ACap sz (a_capacity (al_alloc s))) (al_threads s)\<rparr>)"
| load_used: "al_threads s = add_mset (ACap sz cap) T \<Longrightarrow>
    alloc_step s (s\<lparr>al_threads := add_mset (ALoop sz cap (a_used (al_alloc s))) T\<rparr>)"
| no_room: "al_threads s = add_mset (ALoop sz cap old) T \<Longrightarrow> old + sz > cap \<Longrightarrow>
    alloc_step s (s\<lparr>al_threads := T\<rparr>)"
| cas_ok: "al_threads s = add_mset (ALoop sz cap old) T \<Longrightarrow> \<not> old + sz > cap \<Longrightarrow>
    a_used (al_alloc s) = old \<Longrightarrow>
    alloc_step s (s\<lparr>al_alloc := (al_alloc s)\<lparr>a_used := old + sz\<rparr>, al_threads := add_mset (AReserved sz) T\<rparr>)"
| cas_fail: "al_threads s = add_mset (ALoop sz cap old) T \<Longrightarrow> \<not> old + sz > cap \<Longrightarrow>
    alloc_step s (s\<lparr>al_threads := add_mset (ALoop sz cap (a_used (al_alloc s))) T\<rparr>)"
| malloc_ok: "al_threads s = add_mset (AReserved sz) T \<Longrightarrow>
    alloc_step s (s\<lparr>al_threads := T, al_live := add_mset sz (al_live s)\<rparr>)"
| malloc_fail: "al_threads s = add_mset (AReserved sz) T \<Longrightarrow>
    alloc_step s (s\<lparr>al_alloc := (al_alloc s)\<lparr>a_used := a_used (al_alloc s) - sz\<rparr>, al_threads := T\<rparr>)"
| free_start: "al_live s = add_mset sz L \<Longrightarrow>
    alloc_step s (s\<lparr>al_live := L, al_threads := add_mset (FStart sz) (al_threads s)\<rparr>)"
| free_load: "al_threads s = add_mset (FStart sz) T \<Longrightarrow>
    alloc_step s (s\<lparr>al_threads := add_mset (FLoaded sz (a_used (al_alloc s))) T\<rparr>)"
| free_sub: "al_threads s = add_mset (FLoaded sz cur) T \<Longrightarrow>
    alloc_step s (s\<lparr>al_alloc := (al_alloc s)\<lparr>a_used := a_used (al_alloc s) - (if cur < sz then cur else sz)\<rparr>,
                    al_threads := T\<rparr>)"
| resize: "new_cap \<le> 0x8000000000000000 \<Longrightarrow>
    alloc_step s (s\<lparr>al_alloc := simple_allocator_resize (al_alloc s) new_cap\<rparr>)"

definition alloc_init :: "u64 \<Rightarrow> alloc_state" where
  "alloc_init cap = \<lparr>al_alloc = simple_allocator_create cap, al_live = {#}, al_threads = {#}\<rparr>"

fun held :: "alloc_thread \<Rightarrow> nat" where
  "held (AReserved sz) = unat sz"
| "held (FStart sz) = unat sz"
| "held (FLoaded sz cur) = unat sz"
| "held (ACap sz cap) = 0"
| "held (ALoop sz cap old) = 0"

fun thread_ok :: "alloc_thread \<Rightarrow> bool" where
  "thread_ok (ACap sz cap) = (sz \<le> 0x200000000 \<and> cap \<le> 0x8000000000000000)"
| "thread_ok (ALoop sz cap old) = (sz \<le> 0x200000000 \<and> cap \<le> 0x8000000000000000 \<and> old \<le> 0x8000000000000000)"
| "thread_ok (FLoaded sz cur) = (sz \<le> cur)"
| "thread_ok (AReserved sz) = True"
| "thread_ok (FStart sz) = True"

definition accounted :: "alloc_state \<Rightarrow> nat" where
  "accounted s = sum_mset (image_mset unat (al_live s)) + sum_mset (image_mset held (al_threads s))"

definition alloc_inv :: "alloc_state \<Rightarrow> bool" where
  "alloc_inv s \<longleftrightarrow> unat (a_used (al_alloc s)) = accounted s \<and>
    a_used (al_alloc s) \<le> 0x8000000000000000 \<and> a_capacity (al_alloc s) \<le> 0x8000000000000000 \<and>
    (\<forall>t \<in># al_threads s. thread_ok t)"

lemma alloc_no_wrap:
  fixes old sz :: u64
  assumes "old \<le> 0x8000000000000000" "sz \<le> 0x200000000"
  shows "unat (old + sz) = unat old + unat sz"
  using assms by (simp add: word_le_nat_alt unat_word_ariths)

lemma alloc_step_inv: "alloc_step s s' \<Longrightarrow> alloc_inv s \<Longrightarrow> alloc_inv s'"
proof (induction rule: alloc_step.induct)
  case (cas_ok s sz cap old T)
  then have "unat (old + sz) = unat old + unat sz"
    by (intro alloc_no_wrap) (simp_all add: alloc_inv_def)
  then show ?case using cas_ok by (auto simp: alloc_inv_def accounted_def)
next
  case (malloc_fail s sz T)
  then have "sz \<le> a_used (al_alloc s)" by (simp add: alloc_inv_def accounted_def word_le_nat_alt)
  then show ?case using malloc_fail
    by (auto simp: alloc_inv_def accounted_def unat_sub word_le_nat_alt)
next
  case (free_load s sz T)
  then show ?case by (auto simp: alloc_inv_def accounted_def word_le_nat_alt)
next
  case (free_sub s sz cur T)
  then have "sz \<le> a_used (al_alloc s)" "\<not> cur < sz"
    by (auto simp: alloc_inv_def accounted_def word_le_nat_alt not_less)
  then show ?case using free_sub
    by (auto simp: alloc_inv_def accounted_def unat_sub word_le_nat_alt)
qed (auto simp: alloc_inv_def accounted_def simple_allocator_resize_def)

lemma alloc_inv_init: "cap \<le> 0x8000000000000000 \<Longrightarrow> alloc_inv (alloc_init cap)"
  by (simp add: alloc_inv_def alloc_init_def simple_allocator_create_def accounted_def)

section \<open>Properties\<close>



text \<open>(C3) Under every interleaving of the atomic steps of one producer and one consumer, the
  messages popped are a prefix of the messages pushed (none lost, duplicated, reordered or read
  before it was written), at most \<open>n - 1\<close> are in flight, and both threads index inside the buffer.\<close>

theorem spsc_ring_interleaved:
  assumes "conc_step\<^sup>*\<^sup>* (conc_init n) s" "0 < n"
  shows "\<exists>rest. map Some (pushed s) = popped s @ rest \<and> length rest < n \<and>
    r_head (ring s) < length (r_buf (ring s)) \<and> r_tail (ring s) < length (r_buf (ring s))"
proof -
  have i: "conc_inv n s"
    by (rule rtranclp_inv [where I = "conc_inv n", OF assms(1) conc_inv_init [OF assms(2)] conc_step_inv])
  let ?C = "length (popped s)"
  have "map Some (pushed s) = map Some (take ?C (pushed s)) @ map Some (drop ?C (pushed s))"
    by (simp flip: map_append)
  then have "map Some (pushed s) = popped s @ map Some (drop ?C (pushed s))"
    using i by (simp add: conc_inv_def Let_def)
  moreover have "length (map Some (drop ?C (pushed s))) < n" using i by (simp add: conc_inv_def Let_def)
  ultimately show ?thesis using i by (intro exI) (auto simp: conc_inv_def Let_def)
qed

theorem spsc_ring_interleaved_witness:
  "let s0 = conc_init 4 :: nat conc; s1 = s0\<lparr>cons := CHead 0\<rparr>; s2 = s1\<lparr>prod := PHead 7 0\<rparr>
   in \<exists>rest. map Some (pushed s2) = popped s2 @ rest \<and> length rest < 4 \<and>
    r_head (ring s2) < length (r_buf (ring s2)) \<and> r_tail (ring s2) < length (r_buf (ring s2))"
proof -
  let ?s0 = "conc_init 4 :: nat conc"
  have "conc_step ?s0 (?s0\<lparr>cons := CHead (r_head (ring ?s0))\<rparr>)"
    by (rule pop_load_head) (simp add: conc_init_def)
  moreover have "conc_step (?s0\<lparr>cons := CHead (r_head (ring ?s0))\<rparr>)
      (?s0\<lparr>cons := CHead (r_head (ring ?s0)), prod := PHead 7 (r_head (ring ?s0))\<rparr>)"
    using push_load_head [of "?s0\<lparr>cons := CHead (r_head (ring ?s0))\<rparr>" 7] by (simp add: conc_init_def)
  ultimately have "conc_step\<^sup>*\<^sup>* ?s0 (?s0\<lparr>cons := CHead (r_head (ring ?s0)), prod := PHead 7 (r_head (ring ?s0))\<rparr>)"
    by (meson r_into_rtranclp rtranclp_trans)
  from spsc_ring_interleaved [OF this] show ?thesis
    by (simp add: Let_def conc_init_def spsc_ring_create_def)
qed




end
