(* ===== verification/Ratelimit.thy ===== *)
theory Ratelimit
  imports CP_Prelude Complex_Main "HOL-Library.Log_Nat"
begin

text \<open>
  \<open>ratelimit.c\<close>: the token bucket of the outputs.  The code computes elapsed time and refill in
  \<open>double\<close>; the model computes the same operations on rationals, each followed by \<open>fl\<close>, the
  rounding to a 53-bit significand (nearest, ties to even).  The values involved (seconds,
  microseconds and bits per second) are far from the ends of the exponent range, so \<open>fl\<close> has no
  exponent bounds.
\<close>

section \<open>Double rounding\<close>

definition pow2 :: "int \<Rightarrow> rat" where
  "pow2 e = (if 0 \<le> e then 2 ^ nat e else 1 / 2 ^ nat (- e))"

definition rne :: "rat \<Rightarrow> int" where
  "rne x = (let f = \<lfloor>x\<rfloor>; d = x - of_int f in
     if d < 1 / 2 then f else if d > 1 / 2 then f + 1 else if even f then f else f + 1)"

text \<open>The exponent of a positive rational: \<open>2^(ilog2 x) \<le> x < 2^(ilog2 x + 1)\<close>.\<close>

definition ilog2 :: "rat \<Rightarrow> int" where
  "ilog2 x = (let (p, q) = quotient_of x; e = int (nat (bitlen p)) - int (nat (bitlen q))
     in if pow2 e \<le> x then e else e - 1)"

definition fl :: "rat \<Rightarrow> rat" where
  "fl x = (if x = 0 then 0
           else let u = pow2 (ilog2 \<bar>x\<bar> - 52) in sgn x * of_int (rne (\<bar>x\<bar> / u)) * u)"

section \<open>The token bucket\<close>

record token_bucket =
  rate_bps :: u64
  tb_capacity :: u64
  tokens :: u64
  last_ts :: timeval

definition timeval_diff :: "timeval \<Rightarrow> timeval \<Rightarrow> rat" where
  "timeval_diff a b =
    (let sec = tv_sec a - tv_sec b;
         usec = tv_usec a - tv_usec b;
         (sec, usec) = (if usec < 0 then (sec - 1, usec + 1000000) else (sec, usec))
     in fl (fl (of_int sec) + fl (fl (of_int usec) / 1000000)))"

definition token_bucket_init :: "u64 \<Rightarrow> token_bucket" where
  "token_bucket_init rate = \<lparr>rate_bps = rate, tb_capacity = rate, tokens = rate, last_ts = \<lparr>tv_sec = 0, tv_usec = 0\<rparr>\<rparr>"

definition token_bucket_consume :: "token_bucket \<Rightarrow> u64 \<Rightarrow> timeval \<Rightarrow> bool \<times> token_bucket" where
  "token_bucket_consume tb bytes ts =
    (let t0 = tokens tb;
         t1 = (if tv_sec (last_ts tb) > 0
               then let elapsed = timeval_diff ts (last_ts tb);
                        t = (if elapsed \<ge> 1 then t0 + rate_bps tb
                             else if elapsed > 0
                             then t0 + of_int \<lfloor>fl (elapsed * fl (of_nat (unat (rate_bps tb))))\<rfloor>
                             else t0)
                    in if t > tb_capacity tb then tb_capacity tb else t
               else t0);
         tb = tb\<lparr>tokens := t1, last_ts := ts\<rparr>;
         required = bytes * 8
     in if t1 \<ge> required then (True, tb\<lparr>tokens := t1 - required\<rparr>) else (False, tb))"

section \<open>Rounding error\<close>

lemma pow2_pos: "0 < pow2 e"
  by (simp add: pow2_def)

lemma pow2_add1: "pow2 (e + 1) = 2 * pow2 e"
proof (cases "0 \<le> e")
  case True
  then show ?thesis by (simp add: pow2_def nat_add_distrib)
next
  case False
  then have "nat (- e) = Suc (nat (- e - 1))" by simp
  then show ?thesis using False by (auto simp: pow2_def)
qed

lemma pow2_plus_nat: "pow2 (e + int n) = 2 ^ n * pow2 e"
proof (induction n)
  case (Suc n)
  have "e + int (Suc n) = (e + int n) + 1" by simp
  then show ?case using Suc pow2_add1 [of "e + int n"] by (simp only: power_Suc mult.assoc)
qed simp

lemma rne_bounds: "of_int (rne x) \<le> x + 1 / 2" "x - 1 / 2 \<le> of_int (rne x)"
proof -
  define d where "d = x - of_int \<lfloor>x\<rfloor>"
  have d: "0 \<le> d" "d < 1" unfolding d_def by linarith+
  have "rne x = \<lfloor>x\<rfloor> \<and> d \<le> 1 / 2 \<or> rne x = \<lfloor>x\<rfloor> + 1 \<and> 1 / 2 \<le> d"
    unfolding rne_def Let_def d_def [symmetric] by (simp only: split: if_split) linarith
  then have "of_int (rne x) = x - d \<and> d \<le> 1 / 2 \<or> of_int (rne x) = x - d + 1 \<and> 1 / 2 \<le> d"
    unfolding d_def by auto
  then show "of_int (rne x) \<le> x + 1 / 2" "x - 1 / 2 \<le> of_int (rne x)"
    using d by linarith+
qed

lemma rne_nonneg: "0 \<le> x \<Longrightarrow> 0 \<le> rne x"
  by (auto simp: rne_def Let_def)

lemma pow2_diff: "pow2 (int a - int b) = 2 ^ a / 2 ^ b"
proof -
  have "pow2 (int a - int b + int b) = 2 ^ b * pow2 (int a - int b)" by (rule pow2_plus_nat)
  then have "2 ^ a = 2 ^ b * pow2 (int a - int b)" by (simp add: pow2_def)
  then show ?thesis by (simp add: field_simps)
qed

lemma ilog2_le:
  assumes "0 < x"
  shows "pow2 (ilog2 x) \<le> x"
proof -
  obtain p q where pq: "quotient_of x = (p, q)" by fastforce
  have q: "0 < q" and x: "x = of_int p / of_int q"
    using quotient_of_denom_pos [OF pq] quotient_of_div [OF pq] by simp_all
  have p: "0 < p" using assms x q by (simp add: zero_less_divide_iff)
  define a b where "a = nat (bitlen p)" and "b = nat (bitlen q)"
  have bl: "0 < bitlen p" using p bitlen_eq_zero_iff [of p] bitlen_nonneg [of p] by linarith
  then have "a - 1 = nat (bitlen p - 1)" by (simp add: a_def nat_diff_distrib)
  then have pb: "2 ^ (a - 1) \<le> p" "0 < a"
    using bitlen_bounds [OF p] bl by (simp_all add: a_def)
  have qb: "q < 2 ^ b" using bitlen_bounds [OF q] by (simp add: b_def)
  have "pow2 (int a - int b - 1) \<le> x"
  proof -
    have "pow2 (int a - int b - 1) = 2 ^ (a - 1) / 2 ^ b"
      using pow2_diff [of "a - 1" b] pb(2) by (simp add: algebra_simps)
    also have "\<dots> \<le> of_int p / 2 ^ b"
      using pb(1) by (intro divide_right_mono) (metis of_int_le_iff of_int_numeral of_int_power, simp)
    also have "\<dots> \<le> of_int p / of_int q"
    proof (rule divide_left_mono)
      show "of_int q \<le> (2 :: rat) ^ b"
        using qb by (metis less_imp_le of_int_le_iff of_int_numeral of_int_power)
    qed (use p q in simp_all)
    finally show ?thesis by (simp add: x)
  qed
  then show ?thesis
    unfolding ilog2_def pq by (auto simp: Let_def a_def b_def)
qed

abbreviation ulp :: rat where
  "ulp \<equiv> 1 / 2 ^ 53"

lemma fl_0 [simp]: "fl 0 = 0"
  by (simp add: fl_def)

lemma fl_bounds:
  assumes "0 \<le> x"
  shows "0 \<le> fl x" "fl x \<le> x * (1 + ulp)" "x * (1 - ulp) \<le> fl x"
proof -
  have "0 \<le> fl x \<and> fl x \<le> x * (1 + ulp) \<and> x * (1 - ulp) \<le> fl x"
  proof (cases "x = 0")
    case False
    then have x: "0 < x" using assms by simp
    define u where "u = pow2 (ilog2 x - 52)"
    have u: "0 < u" unfolding u_def by (rule pow2_pos)
    have f: "fl x = of_int (rne (x / u)) * u" using x by (simp add: fl_def u_def Let_def)
    have "pow2 (ilog2 x) = 2 ^ 52 * u" using pow2_plus_nat [of "ilog2 x - 52" 52] by (simp add: u_def)
    then have ux: "2 ^ 52 * u \<le> x" using ilog2_le [OF x] by simp
    have "of_int (rne (x / u)) * u \<le> (x / u + 1 / 2) * u" "(x / u - 1 / 2) * u \<le> of_int (rne (x / u)) * u"
      using u rne_bounds [of "x / u"] by (auto intro: mult_right_mono)
    moreover have "(x / u + 1 / 2) * u = x + u / 2" "(x / u - 1 / 2) * u = x - u / 2"
      using u by (simp_all add: field_simps)
    ultimately have b: "fl x \<le> x + u / 2" "x - u / 2 \<le> fl x" unfolding f by (simp_all only:)
    moreover have "0 \<le> fl x" using f u x rne_nonneg [of "x / u"] by simp
    moreover have "x + u / 2 \<le> x * (1 + ulp)" "x * (1 - ulp) \<le> x - u / 2" using ux by (simp_all add: field_simps)
    ultimately show ?thesis by linarith
  qed simp
  then show "0 \<le> fl x" "fl x \<le> x * (1 + ulp)" "x * (1 - ulp) \<le> fl x" by simp_all
qed

lemma fl_minus: "fl (- x) = - fl x"
  by (simp add: fl_def Let_def sgn_minus)

section \<open>The bucket enforces the rate\<close>

text \<open>The exact time between two timestamps, and the part of it that refills the bucket.\<close>

definition exact_diff :: "timeval \<Rightarrow> timeval \<Rightarrow> rat" where
  "exact_diff a b = of_int (tv_sec a - tv_sec b) + of_int (tv_usec a - tv_usec b) / 1000000"

definition tv_ok :: "timeval \<Rightarrow> bool" where
  "tv_ok t \<longleftrightarrow> 0 \<le> tv_usec t \<and> tv_usec t < 1000000"

lemma fl_up: "0 \<le> x \<Longrightarrow> x \<le> y * (1 + ulp) ^ n \<Longrightarrow> fl x \<le> y * (1 + ulp) ^ Suc n"
proof -
  assume "0 \<le> x" "x \<le> y * (1 + ulp) ^ n"
  then have "fl x \<le> x * (1 + ulp)" "x * (1 + ulp) \<le> y * (1 + ulp) ^ n * (1 + ulp)"
    using fl_bounds by (auto intro: mult_right_mono)
  then show ?thesis by (simp add: mult.commute mult.left_commute)
qed

lemma neg_elapsed:
  assumes "sec < 0" "u \<le> of_int usec / 1000000 * (1 + ulp) ^ 2" "usec < 1000000"
  shows "fl (fl (of_int sec) + u) \<le> 0"
proof -
  have "1 \<le> - sec" using assms(1) by linarith
  then have s1: "(1 :: rat) \<le> of_int (- sec)" by (simp only: of_int_1_le_iff)
  then have "(1 :: rat) * (1 - ulp) \<le> of_int (- sec) * (1 - ulp)" by (intro mult_right_mono) simp_all
  also have "\<dots> \<le> fl (of_int (- sec))" using s1 by (intro fl_bounds(3)) linarith
  finally have "1 - ulp \<le> fl (of_int (- sec))" by simp
  then have f1: "fl (of_int sec) \<le> ulp - 1" using fl_minus [of "of_int sec"] by simp
  have "usec \<le> 999999" using assms(3) by simp
  then have "of_int usec \<le> (999999 :: rat)" by (metis of_int_le_iff of_int_numeral)
  then have "of_int usec / 1000000 * (1 + ulp) ^ 2 \<le> 999999 / 1000000 * (1 + ulp) ^ 2"
    by (intro mult_right_mono divide_right_mono) simp_all
  with assms(2) f1 have "fl (of_int sec) + u \<le> ulp - 1 + 999999 / 1000000 * (1 + ulp) ^ 2" by linarith
  also have "\<dots> \<le> 0" by (simp add: power2_eq_square)
  finally have "0 \<le> fl (- (fl (of_int sec) + u))" by (intro fl_bounds(1)) simp
  then show ?thesis unfolding fl_minus by simp
qed

lemma timeval_diff_le:
  assumes "tv_ok a" "tv_ok b" "0 < timeval_diff a b"
  shows "0 \<le> exact_diff a b" "timeval_diff a b \<le> exact_diff a b * (1 + ulp) ^ 3"
proof -
  define usec0 where "usec0 = tv_usec a - tv_usec b"
  define sec usec where "sec = (if usec0 < 0 then tv_sec a - tv_sec b - 1 else tv_sec a - tv_sec b)"
    and "usec = (if usec0 < 0 then usec0 + 1000000 else usec0)"
  have u: "0 \<le> usec" "usec < 1000000"
    using assms(1,2) by (auto simp: usec_def usec0_def tv_ok_def)
  have ex: "exact_diff a b = of_int sec + of_int usec / 1000000"
    by (auto simp: exact_diff_def sec_def usec_def usec0_def field_simps)
  have td: "timeval_diff a b = fl (fl (of_int sec) + fl (fl (of_int usec) / 1000000))"
    by (simp add: timeval_diff_def sec_def usec_def usec0_def Let_def)
  let ?u = "fl (fl (of_int usec) / 1000000)"
  have u0: "0 \<le> ?u" using fl_bounds(1) u by simp
  have "fl (of_int usec) / 1000000 \<le> of_int usec / 1000000 * (1 + ulp) ^ 1"
    using fl_bounds(2) [of "of_int usec"] u by (simp add: field_simps)
  then have u2: "?u \<le> of_int usec / 1000000 * (1 + ulp) ^ 2"
    using fl_up [of "fl (of_int usec) / 1000000" "of_int usec / 1000000" 1] fl_bounds(1) u
    by (simp add: numeral_2_eq_2)
  have sec: "0 \<le> sec"
    using neg_elapsed [of sec ?u usec] u2 u(2) assms(3) unfolding td by fastforce
  then show "0 \<le> exact_diff a b" using ex u by simp
  have one: "(1 + ulp) ^ 1 \<le> (1 + ulp :: rat) ^ 2" by (intro power_increasing) simp_all
  have "fl (of_int sec) \<le> of_int sec * (1 + ulp) ^ 1" using fl_bounds(2) sec by simp
  also have "\<dots> \<le> of_int sec * (1 + ulp) ^ 2" using one sec by (intro mult_left_mono) simp_all
  finally have "fl (of_int sec) + ?u \<le> exact_diff a b * (1 + ulp) ^ 2"
    using u2 unfolding ex by (simp only: distrib_right)
  moreover have "0 \<le> fl (of_int sec) + ?u" using fl_bounds(1) sec u0 by simp
  ultimately show "timeval_diff a b \<le> exact_diff a b * (1 + ulp) ^ 3"
    unfolding td numeral_3_eq_3 by (intro fl_up) (simp_all add: numeral_2_eq_2)
qed

definition refill :: "token_bucket \<Rightarrow> timeval \<Rightarrow> nat" where
  "refill tb ts =
    (if tv_sec (last_ts tb) > 0
     then let elapsed = timeval_diff ts (last_ts tb) in
       if elapsed \<ge> 1 then unat (rate_bps tb)
       else if elapsed > 0 then nat \<lfloor>fl (elapsed * fl (of_nat (unat (rate_bps tb))))\<rfloor>
       else 0
     else 0)"

definition tb_inv :: "token_bucket \<Rightarrow> bool" where
  "tb_inv tb \<longleftrightarrow> tb_capacity tb = rate_bps tb \<and> tokens tb \<le> tb_capacity tb \<and>
     unat (rate_bps tb) \<le> 2147483647 * 1000000 \<and> tv_ok (last_ts tb)"

text \<open>The share of the exact elapsed time that can refill the bucket.\<close>

definition gap :: "token_bucket \<Rightarrow> timeval \<Rightarrow> rat" where
  "gap tb ts = (if tv_sec (last_ts tb) > 0 then max 0 (exact_diff ts (last_ts tb)) else 0)"

lemma pow34: "a * x ^ 3 * x = a * (x :: rat) ^ 4"
  by (simp add: numeral_eq_Suc)

lemma refill_le:
  assumes "tb_inv tb" "tv_ok ts"
  shows "of_nat (refill tb ts) \<le> of_nat (unat (rate_bps tb)) * gap tb ts * (1 + ulp) ^ 5"
proof -
  define N where "N = unat (rate_bps tb)"
  let ?e = "timeval_diff ts (last_ts tb)" and ?R = "of_nat N :: rat"
  note refill_N = refill_def [of tb ts, folded N_def]
  have lt: "tv_ok (last_ts tb)" using assms(1) by (simp add: tb_inv_def)
  have R0: "0 \<le> ?R" by simp
  have "of_nat (refill tb ts) \<le> ?R * gap tb ts * (1 + ulp) ^ 5"
  proof (cases "tv_sec (last_ts tb) > 0 \<and> ?e > 0")
    case False
    then have "refill tb ts = 0" by (auto simp: refill_N Let_def)
    then show ?thesis using R0 by (simp add: gap_def)
  next
    case True
    note d = timeval_diff_le [OF assms(2) lt conjunct2 [OF True]]
    have g: "gap tb ts = exact_diff ts (last_ts tb)" using d(1) True by (simp add: gap_def)
    have G0: "0 \<le> ?R * gap tb ts" using d(1) g R0 by simp
    have "?R * ?e \<le> ?R * (gap tb ts * (1 + ulp) ^ 3)"
      using d(2) R0 unfolding g by (rule mult_left_mono)
    then have Re: "?R * ?e \<le> ?R * gap tb ts * (1 + ulp) ^ 3" by (simp only: mult.assoc)
    show ?thesis
    proof (cases "1 \<le> ?e")
      case big: True
      have "of_nat (refill tb ts) \<le> ?R * ?e"
        using mult_left_mono [OF big R0] True big by (simp add: refill_N Let_def)
      also note Re
      also have "?R * gap tb ts * (1 + ulp) ^ 3 \<le> ?R * gap tb ts * (1 + ulp) ^ 5"
        using G0 by (intro mult_left_mono power_increasing) simp_all
      finally show ?thesis .
    next
      case small: False
      have fR: "0 \<le> fl ?R" "fl ?R \<le> ?R * (1 + ulp)" using fl_bounds [OF R0] by simp_all
      have "?e * fl ?R \<le> ?e * (?R * (1 + ulp))" using fR True by (intro mult_left_mono) simp_all
      also have "\<dots> = ?R * ?e * (1 + ulp)" by (simp only: mult.commute mult.left_commute)
      also have "\<dots> \<le> ?R * gap tb ts * (1 + ulp) ^ 3 * (1 + ulp)" using Re by (intro mult_right_mono) simp_all
      also have "\<dots> = ?R * gap tb ts * (1 + ulp) ^ 4" by (rule pow34)
      finally have "fl (?e * fl ?R) \<le> ?R * gap tb ts * (1 + ulp) ^ Suc 4"
        using fR True by (intro fl_up) simp_all
      moreover have "of_nat (refill tb ts) \<le> fl (?e * fl ?R)"
      proof -
        have "0 \<le> fl (?e * fl ?R)" using fR True by (intro fl_bounds(1)) simp
        then show ?thesis using True small by (simp add: refill_N Let_def)
      qed
      moreover have "Suc 4 = 5" by simp
      ultimately show ?thesis by (simp only:)
    qed
  qed
  then show ?thesis unfolding N_def .
qed

lemma refill_bound:
  assumes "tb_inv tb"
  shows "refill tb ts \<le> 2 * unat (rate_bps tb)"
proof -
  define N where "N = unat (rate_bps tb)"
  let ?e = "timeval_diff ts (last_ts tb)" and ?R = "of_nat N :: rat"
  note refill_N = refill_def [of tb ts, folded N_def]
  have "of_nat (nat \<lfloor>fl (?e * fl ?R)\<rfloor>) \<le> (2 * ?R)" if "0 < ?e" "?e < 1"
  proof -
    have fR: "0 \<le> fl ?R" "fl ?R \<le> ?R * (1 + ulp)" using fl_bounds [of ?R] by simp_all
    have p: "0 \<le> ?e * fl ?R" "?e * fl ?R \<le> fl ?R"
      using fR that mult_right_mono [of ?e 1 "fl ?R"] by simp_all
    have "fl (?e * fl ?R) \<le> ?e * fl ?R * (1 + ulp)" by (rule fl_bounds(2) [OF p(1)])
    also have "\<dots> \<le> ?R * (1 + ulp) * (1 + ulp)" using p fR by (intro mult_right_mono) simp_all
    also have "\<dots> = ?R * ((1 + ulp) * (1 + ulp))" by (simp only: mult.assoc)
    also have "\<dots> \<le> ?R * 2" by (intro mult_left_mono) simp_all
    finally show ?thesis using fl_bounds(1) [OF p(1)] by simp linarith
  qed
  then have "nat \<lfloor>fl (?e * fl ?R)\<rfloor> \<le> 2 * N" if "0 < ?e" "?e < 1"
    using that by (metis of_nat_le_iff of_nat_mult of_nat_numeral)
  then have "refill tb ts \<le> 2 * N" by (auto simp: refill_N Let_def)
  then show ?thesis unfolding N_def .
qed

lemma unat_of_int64: "0 \<le> f \<Longrightarrow> nat f < 18446744073709551616 \<Longrightarrow> unat (of_int f :: u64) = nat f"
  by (simp add: unat_eq_nat_uint unsigned_of_int take_bit_int_eq_self nat_less_iff)

lemma consume_step:
  assumes inv: "tb_inv tb" and ts: "tv_ok ts" and b: "unat bytes \<le> 4294967295"
  shows "\<exists>ok tb'. token_bucket_consume tb bytes ts = (ok, tb') \<and> tb_inv tb' \<and>
    rate_bps tb' = rate_bps tb \<and> last_ts tb' = ts \<and>
    ok = (8 * unat bytes \<le> min (unat (rate_bps tb)) (unat (tokens tb) + refill tb ts)) \<and>
    unat (tokens tb') + (if ok then 8 * unat bytes else 0)
      = min (unat (rate_bps tb)) (unat (tokens tb) + refill tb ts)"
proof -
  let ?e = "timeval_diff ts (last_ts tb)" and ?t = "tokens tb" and ?r = "rate_bps tb"
  define f where "f = \<lfloor>fl (?e * fl (of_nat (unat ?r)))\<rfloor>"
  define t1 where "t1 = (if tv_sec (last_ts tb) > 0
       then let t = (if ?e \<ge> 1 then ?t + ?r else if ?e > 0 then ?t + of_int f else ?t)
            in if t > tb_capacity tb then tb_capacity tb else t
       else ?t)"
  have i: "tb_capacity tb = ?r" "unat ?t \<le> unat ?r" "unat ?r \<le> 2147483647000000"
    using inv by (auto simp: tb_inv_def word_le_nat_alt)
  have refill: "refill tb ts = (if tv_sec (last_ts tb) > 0
      then if ?e \<ge> 1 then unat ?r else if ?e > 0 then nat f else 0 else 0)"
    by (simp add: refill_def f_def Let_def)
  have f: "nat f \<le> 2 * unat ?r" "0 \<le> f" if "tv_sec (last_ts tb) > 0" "\<not> ?e \<ge> 1" "?e > 0"
  proof -
    show "nat f \<le> 2 * unat ?r" using refill_bound [OF inv, of ts] that unfolding refill by simp
    have "0 \<le> fl (of_nat (unat ?r))" by (rule fl_bounds(1), rule of_nat_0_le_iff)
    then have "0 \<le> ?e * fl (of_nat (unat ?r))" by (rule mult_nonneg_nonneg [OF less_imp_le [OF that(3)]])
    then have "0 \<le> fl (?e * fl (of_nat (unat ?r)))" by (rule fl_bounds(1))
    then show "0 \<le> f" unfolding f_def by (simp only: zero_le_floor)
  qed
  have fu: "unat (of_int f :: u64) = nat f" if "tv_sec (last_ts tb) > 0" "\<not> ?e \<ge> 1" "?e > 0"
    using f [OF that] i(3) by (simp add: unat_of_int64)
  have t1: "unat t1 = min (unat ?r) (unat ?t + refill tb ts)"
    using i f fu unfolding t1_def refill
    by (auto simp: Let_def word_less_nat_alt unat_word_ariths split: if_splits)
  have req: "unat (bytes * 8) = 8 * unat bytes" using b by (simp add: unat_word_ariths)
  have "token_bucket_consume tb bytes ts =
     (if t1 \<ge> bytes * 8 then (True, tb\<lparr>tokens := t1 - bytes * 8, last_ts := ts\<rparr>)
      else (False, tb\<lparr>tokens := t1, last_ts := ts\<rparr>))"
    by (simp add: token_bucket_consume_def t1_def f_def Let_def)
  then show ?thesis
    using t1 req i inv ts by (auto simp: tb_inv_def word_le_nat_alt unat_sub)
qed

subsection \<open>A whole run\<close>

text \<open>The bits a bucket grants over a sequence of requests \<open>(bytes, ts)\<close>, and the
  time that passes forwards between consecutive requests.\<close>

fun consume_all :: "token_bucket \<Rightarrow> (u64 \<times> timeval) list \<Rightarrow> nat \<times> token_bucket" where
  "consume_all tb [] = (0, tb)"
| "consume_all tb ((bytes, ts) # reqs) =
    (let (ok, tb') = token_bucket_consume tb bytes ts; (g, tb'') = consume_all tb' reqs
     in ((if ok then 8 * unat bytes else 0) + g, tb''))"

fun elapsed_all :: "timeval \<Rightarrow> timeval list \<Rightarrow> rat" where
  "elapsed_all t [] = 0"
| "elapsed_all t (ts # tss) = max 0 (exact_diff ts t) + elapsed_all ts tss"

definition req_ok :: "u64 \<times> timeval \<Rightarrow> bool" where
  "req_ok r \<longleftrightarrow> unat (fst r) \<le> 4294967295 \<and> tv_ok (snd r)"

lemma consume_all_bound:
  assumes "tb_inv tb" "\<forall>r\<in>set reqs. req_ok r" "consume_all tb reqs = (g, tb')"
  shows "tb_inv tb' \<and> rate_bps tb' = rate_bps tb \<and>
    of_nat (g + unat (tokens tb')) \<le> of_nat (unat (tokens tb)) + of_nat (unat (rate_bps tb)) *
      (if tv_sec (last_ts tb) > 0 then elapsed_all (last_ts tb) (map snd reqs)
       else case reqs of [] \<Rightarrow> 0 | r # rs \<Rightarrow> elapsed_all (snd r) (map snd rs)) * (1 + ulp :: rat) ^ 5"
  using assms
proof (induction reqs arbitrary: tb g)
  case Nil
  then show ?case by simp
next
  case (Cons r reqs)
  obtain bytes ts where r: "r = (bytes, ts)" by (cases r)
  let ?R = "of_nat (unat (rate_bps tb)) :: rat" and ?k = "(1 + ulp :: rat) ^ 5"
  obtain ok tb1 where c: "token_bucket_consume tb bytes ts = (ok, tb1)" and inv1: "tb_inv tb1"
    and same: "rate_bps tb1 = rate_bps tb" "last_ts tb1 = ts"
    and tok: "unat (tokens tb1) + (if ok then 8 * unat bytes else 0) \<le> unat (tokens tb) + refill tb ts"
    using consume_step [of tb ts bytes] Cons.prems(1,2) by (auto simp: r req_ok_def)
  obtain g1 where g1: "consume_all tb1 reqs = (g1, tb')" and g: "g = (if ok then 8 * unat bytes else 0) + g1"
    using Cons.prems(3) by (auto simp: r c split: prod.splits)
  have E0: "0 \<le> elapsed_all t tss" for t tss
    by (induction tss arbitrary: t) (auto intro: add_nonneg_nonneg)
  let ?rest = "if tv_sec ts > 0 then elapsed_all ts (map snd reqs)
       else case reqs of [] \<Rightarrow> 0 | r # rs \<Rightarrow> elapsed_all (snd r) (map snd rs)"
  have rest: "?rest \<le> elapsed_all ts (map snd reqs)" by (cases reqs) auto
  have IH: "tb_inv tb'" "rate_bps tb' = rate_bps tb"
    "of_nat (g1 + unat (tokens tb')) \<le> of_nat (unat (tokens tb1)) + ?R * ?rest * ?k"
    using Cons.IH [OF inv1 _ g1] Cons.prems(2) unfolding same by auto
  have "?R * ?rest * ?k \<le> ?R * elapsed_all ts (map snd reqs) * ?k"
    by (intro mult_right_mono mult_left_mono rest of_nat_0_le_iff zero_le_power) simp
  moreover have "of_nat (refill tb ts) \<le> ?R * gap tb ts * ?k"
    using refill_le [OF Cons.prems(1)] Cons.prems(2) by (simp add: r req_ok_def)
  moreover have "of_nat (unat (tokens tb1)) + of_nat (if ok then 8 * unat bytes else 0)
      \<le> (of_nat (unat (tokens tb)) + of_nat (refill tb ts) :: rat)"
    using tok by (simp only: of_nat_add [symmetric] of_nat_le_iff)
  ultimately have "of_nat (g + unat (tokens tb')) \<le> of_nat (unat (tokens tb)) +
      (?R * gap tb ts * ?k + ?R * elapsed_all ts (map snd reqs) * ?k)"
    using IH(3) unfolding g of_nat_add by linarith
  then show ?case using IH(1,2)
    by (cases "tv_sec (last_ts tb) > 0") (simp_all add: gap_def r distrib_left distrib_right)
qed

text \<open>(C6) The rate limit is enforced over a whole run.  A bucket created for
  \<open>rate\<close> bits per second (at most \<open>INT_MAX\<close> megabits, what the configuration
  parser lets through) is asked for any sequence of packets with microsecond time stamps, in order
  or not.  The bits granted together never exceed the initial burst of one second at \<open>rate\<close>
  plus \<open>rate\<close> times the time that passed forwards between consecutive packets, up to the
  rounding of the five double operations of the refill (a relative error of \<open>2\<^sup>-\<^sup>5\<^sup>3\<close> each), and the
  token count never exceeds the capacity.  The clock value of the first packet does not
  count, and the 64-bit token counter never wraps.\<close>

theorem token_bucket_rate:
  assumes "unat rate \<le> 2147483647 * 1000000" "\<forall>r\<in>set ((bytes, ts) # reqs). req_ok r"
    "consume_all (token_bucket_init rate) ((bytes, ts) # reqs) = (granted, tb')"
  shows "of_nat granted \<le> of_nat (unat rate) *
      (1 + elapsed_all ts (map snd reqs) * (1 + 1 / 9007199254740992 :: rat) ^ 5) \<and>
    tokens tb' \<le> rate"
proof (intro conjI)
  have inv: "tb_inv (token_bucket_init rate)"
    using assms(1) by (simp add: tb_inv_def token_bucket_init_def tv_ok_def)
  note b = consume_all_bound [OF inv assms(2,3)]
  show "tokens tb' \<le> rate" using b by (auto simp: tb_inv_def token_bucket_init_def)
  have "of_nat (granted + unat (tokens tb')) \<le> of_nat (unat rate) + of_nat (unat rate) *
     elapsed_all ts (map snd reqs) * (1 + ulp :: rat) ^ 5"
    using b by (simp add: token_bucket_init_def)
  then have "of_nat granted \<le> of_nat (unat rate) + of_nat (unat rate) *
     elapsed_all ts (map snd reqs) * (1 + ulp :: rat) ^ 5"
    unfolding of_nat_add using of_nat_0_le_iff [where 'a = rat, of "unat (tokens tb')"] by linarith
  then show "of_nat granted \<le> of_nat (unat rate) *
      (1 + elapsed_all ts (map snd reqs) * (1 + 1 / 9007199254740992 :: rat) ^ 5)"
    by (simp add: distrib_left mult.assoc)
qed

definition sample_requests :: "(u64 \<times> timeval) list" where
  "sample_requests = [(100, \<lparr>tv_sec = 10, tv_usec = 0\<rparr>), (100, \<lparr>tv_sec = 10, tv_usec = 500000\<rparr>),
     (50, \<lparr>tv_sec = 10, tv_usec = 750000\<rparr>)]"

lemma sample_fl:
  "fl (1 / 2) = 1 / 2" "fl (1 / 4) = 1 / 4" "fl 500 = 500" "fl 250 = 250" "fl 1000 = 1000"
  "fl 500000 = 500000" "fl 250000 = 250000"
  by code_simp+

lemma sample_run: "consume_all (token_bucket_init 1000) sample_requests =
    (1200, \<lparr>rate_bps = 1000, tb_capacity = 1000, tokens = 550, last_ts = \<lparr>tv_sec = 10, tv_usec = 750000\<rparr>\<rparr>)"
  by (simp add: sample_requests_def token_bucket_init_def token_bucket_consume_def timeval_diff_def sample_fl)

theorem token_bucket_rate_witness:
  "(1200 :: rat) \<le> 1000 * (1 + (1 / 2 + 1 / 4) * (1 + 1 / 9007199254740992) ^ 5)"
  using token_bucket_rate [of 1000 100 "\<lparr>tv_sec = 10, tv_usec = 0\<rparr>"
      "[(100, \<lparr>tv_sec = 10, tv_usec = 500000\<rparr>), (50, \<lparr>tv_sec = 10, tv_usec = 750000\<rparr>)]"
      1200 "\<lparr>rate_bps = 1000, tb_capacity = 1000, tokens = 550, last_ts = \<lparr>tv_sec = 10, tv_usec = 750000\<rparr>\<rparr>"]
    sample_run
  by (simp add: sample_requests_def req_ok_def tv_ok_def exact_diff_def)

end
