(* ===== verification/Errorf.thy ===== *)
theory Errorf
  imports CP_Prelude
begin

text \<open>
  \<open>errorf.c\<close>: error messages in a caller's buffer of \<open>ERROR_BUFFER_SIZE\<close> characters.
  The buffer is modelled as the list of its characters with checked writes; \<open>c_str\<close> reads the
  text before the terminating NUL.  The arguments of the \<open>printf\<close> family are
  given formatted, as the text the format string produces.
\<close>

definition ERROR_BUFFER_SIZE :: nat where
  "ERROR_BUFFER_SIZE = 256"

abbreviation NUL :: char where
  "NUL \<equiv> CHR 0x00"

section \<open>C strings in character buffers\<close>

definition c_str :: "string \<Rightarrow> string" where
  "c_str buf = takeWhile (\<lambda>c. c \<noteq> NUL) buf"

definition wr_chars :: "string \<Rightarrow> nat \<Rightarrow> string \<Rightarrow> string option" where
  "wr_chars buf i xs =
    (if i + length xs \<le> length buf then Some (take i buf @ xs @ drop (i + length xs) buf) else None)"

text \<open>\<open>vsnprintf(buf, size, ...)\<close> for a formatted text: at most \<open>size - 1\<close> characters and
  the NUL are stored, the length of the whole text is returned.\<close>

definition vsnprintf :: "string \<Rightarrow> nat \<Rightarrow> string \<Rightarrow> (nat \<times> string) option" where
  "vsnprintf buf n msg = do {
     buf \<leftarrow> wr_chars buf 0 (take (n - 1) msg @ [NUL]);
     Some (length msg, buf) }"

text \<open>\<open>strncpy(dst, src, n)\<close> for a source buffer holding a C string: the text, padded with NULs.\<close>

definition strncpy :: "string \<Rightarrow> nat \<Rightarrow> string" where
  "strncpy src n = take n (c_str src) @ replicate (n - length (c_str src)) NUL"

section \<open>The two operations\<close>

definition error_format :: "string \<Rightarrow> string \<Rightarrow> string option" where
  "error_format errbuf msg = do { (written, errbuf) \<leftarrow> vsnprintf errbuf ERROR_BUFFER_SIZE msg; Some errbuf }"

definition error_wrap_format :: "string \<Rightarrow> string \<Rightarrow> string option" where
  "error_wrap_format errbuf msg =
    (let old_msg = (strncpy errbuf ERROR_BUFFER_SIZE)[ERROR_BUFFER_SIZE - 1 := NUL] in do {
     (written, errbuf) \<leftarrow> vsnprintf errbuf ERROR_BUFFER_SIZE msg;
     if old_msg ! 0 = NUL then Some errbuf
     else
       let new_len = (if written \<ge> ERROR_BUFFER_SIZE then ERROR_BUFFER_SIZE - 1 else written);
           remaining_space = ERROR_BUFFER_SIZE - new_len - 1
       in if remaining_space \<ge> 2 then do {
            errbuf \<leftarrow> wr_chars errbuf new_len '':'';
            errbuf \<leftarrow> wr_chars errbuf (new_len + 1) '' '';
            let new_len = new_len + 2;
            let remaining_space = remaining_space - 2;
            let old_len = length (c_str old_msg);
            let copy_len = (if old_len \<le> remaining_space then old_len else remaining_space);
            errbuf \<leftarrow> (if copy_len > 0 then wr_chars errbuf new_len (take copy_len old_msg) else Some errbuf);
            let new_len = (if copy_len > 0 then new_len + copy_len else new_len);
            wr_chars errbuf new_len [NUL] }
          else Some errbuf })"

section \<open>Lemmas\<close>

lemma c_str_append_NUL [simp]: "NUL \<notin> set xs \<Longrightarrow> c_str (xs @ NUL # ys) = xs"
  unfolding c_str_def by (induction xs) auto

lemma NUL_c_str [simp]: "NUL \<notin> set (c_str xs)"
  unfolding c_str_def by (auto dest: set_takeWhileD)

lemma c_str_split: "NUL \<in> set buf \<Longrightarrow> \<exists>rest. buf = c_str buf @ NUL # rest"
  unfolding c_str_def by (induction buf) auto

lemma wr_chars_at:
  "length ys \<le> length rest \<Longrightarrow> n = length xs \<Longrightarrow>
     wr_chars (xs @ rest) n ys = Some ((xs @ ys) @ drop (length ys) rest)"
  by (simp add: wr_chars_def)

lemma vsnprintf_run:
  "length buf = n \<Longrightarrow> 0 < n \<Longrightarrow>
    vsnprintf buf n msg = Some (length msg, take (n - 1) msg @ NUL # drop (min (n - 1) (length msg) + 1) buf)"
  using wr_chars_at [of "take (n - 1) msg @ [NUL]" buf 0 "[]"] by (simp add: vsnprintf_def min.commute)

lemma old_msg:
  assumes "length errbuf = 256" "NUL \<in> set errbuf"
  shows "(strncpy errbuf 256)[255 := NUL] = c_str errbuf @ replicate (256 - length (c_str errbuf)) NUL"
proof -
  obtain rest where r: "errbuf = c_str errbuf @ NUL # rest" using c_str_split [OF assms(2)] by blast
  have l: "length (c_str errbuf) \<le> 255"
    using arg_cong [OF r, of length] assms(1) by simp
  then have "255 - length (c_str errbuf) < 256 - length (c_str errbuf)" by simp
  then show ?thesis using l
    by (auto simp: strncpy_def list_update_append nth_list_update intro: nth_equalityI)
qed

lemma old_c_str: "c_str (c_str xs @ replicate n NUL) = c_str xs"
  by (cases n) (simp_all, simp add: c_str_def)

text \<open>What the buffer holds after \<open>error_wrap_format\<close>: the new text and the old one joined with
  \<open>": "\<close>, truncated to the buffer, or the new text alone when there is no old text or no room for
  the separator.\<close>

definition wrapped :: "string \<Rightarrow> string \<Rightarrow> string" where
  "wrapped old msg =
    (if old = [] \<or> 254 \<le> length msg then take 255 msg else take 255 (msg @ '': '' @ old))"

text \<open>(C23) On a 256-character buffer with a terminated message, \<open>error_wrap_format\<close> writes only
  inside the buffer and leaves the terminated message \<open>new: old\<close>, truncated to 255
  characters; the separator is never cut in half.\<close>

theorem error_wrap_format_joins:
  assumes "length errbuf = ERROR_BUFFER_SIZE" "NUL \<in> set errbuf" "NUL \<notin> set msg"
  shows "\<exists>buf. error_wrap_format errbuf msg = Some buf \<and> length buf = ERROR_BUFFER_SIZE \<and>
     NUL \<in> set buf \<and> c_str buf = wrapped (c_str errbuf) msg"
proof -
  let ?o = "c_str errbuf"
  have len: "length errbuf = 256" using assms(1) by (simp add: ERROR_BUFFER_SIZE_def)
  note om = old_msg [OF len assms(2)]
  let ?b = "take 255 msg @ NUL # drop (min 255 (length msg) + 1) errbuf"
  have v: "vsnprintf errbuf 256 msg = Some (length msg, ?b)" using vsnprintf_run [OF len, of msg] by simp
  have nt: "NUL \<notin> set (take 255 msg)" using assms(3) in_set_takeD by fastforce
  have lb: "length ?b = 256" using len by simp
  have first: "(?o @ replicate (256 - length ?o) NUL) ! 0 = NUL \<longleftrightarrow> ?o = []"
    using NUL_c_str [of errbuf] by (cases ?o) auto
  show ?thesis
  proof (cases "?o = [] \<or> 254 \<le> length msg")
    case True
    then have "error_wrap_format errbuf msg = Some ?b"
      using om v first by (auto simp: error_wrap_format_def ERROR_BUFFER_SIZE_def Let_def)
    then show ?thesis using True nt lb by (auto simp: wrapped_def ERROR_BUFFER_SIZE_def)
  next
    case False
    then have lt: "length msg < 254" and ne: "?o \<noteq> []" by auto
    obtain c rest where b: "?b = msg @ NUL # c # rest" and lr: "length rest = 254 - length msg"
      using lt len by (cases "drop (length msg + 1) errbuf") (auto simp: min_def dest: arg_cong [where f = length])
    let ?k = "min (length ?o) (253 - length msg)"
    have wk: "take ?k (?o @ replicate (256 - length ?o) NUL) = take (253 - length msg) ?o"
      by (simp add: min_def)
    have fit: "255 - length msg - 2 = 253 - length msg" "?k \<le> 253 - length msg"
      "?k + 1 \<le> length rest" using lt lr by auto
    have sp: "2 \<le> 255 - length msg" using lt by simp
    have w1: "wr_chars ?b (length msg) '':'' = Some ((msg @ '':'') @ c # rest)"
      unfolding b by (subst wr_chars_at) simp_all
    have w2: "wr_chars ((msg @ '':'') @ c # rest) (length msg + 1) '' '' = Some ((msg @ '': '') @ rest)"
      by (subst wr_chars_at) simp_all
    have w3: "(if 0 < ?k then wr_chars ((msg @ '': '') @ rest) (length msg + 2) (take (253 - length msg) ?o)
        else Some ((msg @ '': '') @ rest)) = Some ((msg @ '': '' @ take (253 - length msg) ?o) @ drop ?k rest)"
      using fit(3) by (subst wr_chars_at) (auto simp: min.commute)
    have w4: "wr_chars ((msg @ '': '' @ take (253 - length msg) ?o) @ drop ?k rest) (length msg + 2 + ?k) [NUL]
       = Some ((msg @ '': '' @ take (253 - length msg) ?o) @ NUL # drop (?k + 1) rest)"
      using fit(3) by (subst wr_chars_at) (auto simp: min.commute)
    have "error_wrap_format errbuf msg = Some ((msg @ '': '' @ take (253 - length msg) ?o) @ NUL # drop (?k + 1) rest)"
      using first ne lt w1 w2 w3 w4 wk fit(1) sp
      by (cases "length msg < 253") (simp_all add: error_wrap_format_def ERROR_BUFFER_SIZE_def Let_def om v old_c_str flip: min_def)
    moreover have "NUL \<notin> set (msg @ '': '' @ take (253 - length msg) ?o)"
      using assms(3) NUL_c_str [of errbuf] in_set_takeD [of NUL _ ?o] by auto
    moreover have "length rest = 254 - length msg" by (rule lr)
    moreover have "take 255 (msg @ '': '' @ ?o) = msg @ '': '' @ take (253 - length msg) ?o"
      using lt by (simp add: take_Cons' numeral_eq_Suc)
    ultimately show ?thesis using False fit lt
      c_str_append_NUL [of "msg @ '': '' @ take (253 - length msg) ?o" "drop (?k + 1) rest"]
      by (auto simp: wrapped_def ERROR_BUFFER_SIZE_def simp del: c_str_append_NUL)
  qed
qed

theorem error_wrap_format_joins_witness:
  "\<exists>buf. error_wrap_format (''bad port'' @ replicate 248 NUL) ''invalid bpf'' = Some buf \<and>
     c_str buf = ''invalid bpf: bad port''"
proof -
  have "c_str (''bad port'' @ replicate 248 NUL) = ''bad port''"
    using c_str_append_NUL [of "''bad port''" "replicate 247 NUL"] by (simp add: numeral_eq_Suc)
  then show ?thesis
    using error_wrap_format_joins [of "''bad port'' @ replicate 248 NUL" "''invalid bpf''"]
    by (auto simp: ERROR_BUFFER_SIZE_def wrapped_def)
qed

end
