(* ===== verification/Output_Common.thy ===== *)
theory Output_Common
  imports Stats Ratelimit Errorf
begin

text \<open>
  \<open>output.h\<close>, \<open>pkt_dir.h\<close> and \<open>output_null.c\<close>: what every output shares.  An output is a record
  that extends \<open>output_core\<close> (its statistics, rate limiter and slice length).  The
  locale \<open>counting_output\<close> is the contract of the outputs that handle a packet at once:
  every packet handed over is counted exactly once, in one of four classes, with its length
  after slicing.  The socket an output sends on is an environment that answers the \<open>n\<close>-th call of
  \<open>sendto\<close> with an arbitrary reply and keeps the datagrams handed to it.
\<close>

section \<open>Directions and frame lengths\<close>

definition PKT_DIR_UNKNOWN :: int where "PKT_DIR_UNKNOWN = -1"
definition PKT_DIR_NONCHECK :: int where "PKT_DIR_NONCHECK = 0"
definition PKT_DIR_INCOMING :: int where "PKT_DIR_INCOMING = 1"
definition PKT_DIR_OUTGOING :: int where "PKT_DIR_OUTGOING = 2"

lemmas pkt_dir_defs =
  PKT_DIR_UNKNOWN_def PKT_DIR_NONCHECK_def PKT_DIR_INCOMING_def PKT_DIR_OUTGOING_def

definition output_frame_len :: "u32 \<Rightarrow> int \<Rightarrow> u64 \<Rightarrow> u64" where
  "output_frame_len caplen sl max_len =
    (let frame_len = (if sl > 0 \<and> (word_of_int sl :: u32) < caplen then ucast (word_of_int sl :: u32) else ucast caplen)
     in if frame_len < max_len then frame_len else max_len)"

definition SIZE_MAX :: u64 where
  "SIZE_MAX = 0xFFFFFFFFFFFFFFFF"

section \<open>Counting\<close>

text \<open>The four classes a packet can be counted in.\<close>

datatype outcome = Forwarded | Direction_drop | Ratelimit_drop | Error_drop

fun count_packet :: "outcome \<Rightarrow> output_stats \<Rightarrow> u64 \<Rightarrow> output_stats" where
  "count_packet Forwarded st n = st\<lparr>fwd_bytes := bytes_stats_add (fwd_bytes st) n,
     fwd_packets := packets_stats_add (fwd_packets st) 1\<rparr>"
| "count_packet Direction_drop st n = st\<lparr>direction_drop_bytes := bytes_stats_add (direction_drop_bytes st) n,
     direction_drop_packets := packets_stats_add (direction_drop_packets st) 1\<rparr>"
| "count_packet Ratelimit_drop st n = st\<lparr>ratelimit_drop_bytes := bytes_stats_add (ratelimit_drop_bytes st) n,
     ratelimit_drop_packets := packets_stats_add (ratelimit_drop_packets st) 1\<rparr>"
| "count_packet Error_drop st n = st\<lparr>error_drop_bytes := bytes_stats_add (error_drop_bytes st) n,
     error_drop_packets := packets_stats_add (error_drop_packets st) 1\<rparr>"

fun class_bytes :: "outcome \<Rightarrow> output_stats \<Rightarrow> bytes_stats" where
  "class_bytes Forwarded = fwd_bytes"
| "class_bytes Direction_drop = direction_drop_bytes"
| "class_bytes Ratelimit_drop = ratelimit_drop_bytes"
| "class_bytes Error_drop = error_drop_bytes"

fun class_packets :: "outcome \<Rightarrow> output_stats \<Rightarrow> packets_stats" where
  "class_packets Forwarded = fwd_packets"
| "class_packets Direction_drop = direction_drop_packets"
| "class_packets Ratelimit_drop = ratelimit_drop_packets"
| "class_packets Error_drop = error_drop_packets"

definition bytes_stats_zero :: bytes_stats where
  "bytes_stats_zero = \<lparr>bs_bytes = 0, bs_eib = 0\<rparr>"

definition packets_stats_zero :: packets_stats where
  "packets_stats_zero = \<lparr>ps_packets = 0, ps_peta = 0\<rparr>"

definition output_stats_zero :: output_stats where
  "output_stats_zero = \<lparr>fwd_bytes = bytes_stats_zero, fwd_packets = packets_stats_zero,
     direction_drop_bytes = bytes_stats_zero, direction_drop_packets = packets_stats_zero,
     error_drop_bytes = bytes_stats_zero, error_drop_packets = packets_stats_zero,
     ratelimit_drop_bytes = bytes_stats_zero, ratelimit_drop_packets = packets_stats_zero,
     heartbeat_packets = packets_stats_zero\<rparr>"

section \<open>What all outputs have\<close>

record output_core =
  o_stats :: output_stats
  o_rate_limit_mbps :: u64
  o_throttle :: token_bucket
  o_slice :: int

text \<open>A zeroed (\<open>calloc\<close>) token bucket, and the throttle an output starts with.\<close>

definition token_bucket_zero :: token_bucket where
  "token_bucket_zero = \<lparr>rate_bps = 0, tb_capacity = 0, tokens = 0, last_ts = \<lparr>tv_sec = 0, tv_usec = 0\<rparr>\<rparr>"

definition new_throttle :: "u64 \<Rightarrow> token_bucket" where
  "new_throttle mbps = (if mbps > 0 then token_bucket_init (mbps * 1000000) else token_bucket_zero)"

text \<open>The opening of every \<open>send_packet\<close>: a packet of unknown direction and a packet above the
  rate limit are counted and dropped.\<close>

definition output_admit ::
  "'a output_core_scheme \<Rightarrow> u64 \<Rightarrow> timeval \<Rightarrow> int \<Rightarrow> bool \<times> 'a output_core_scheme" where
  "output_admit out frame_len ts direct =
    (if direct = PKT_DIR_UNKNOWN
     then (False, out\<lparr>o_stats := count_packet Direction_drop (o_stats out) frame_len\<rparr>)
     else if o_rate_limit_mbps out > 0
     then let (granted, tb) = token_bucket_consume (o_throttle out) frame_len ts; out = out\<lparr>o_throttle := tb\<rparr>
          in if \<not> granted then (False, out\<lparr>o_stats := count_packet Ratelimit_drop (o_stats out) frame_len\<rparr>)
             else (True, out)
     else (True, out))"

definition count_as :: "outcome \<Rightarrow> u64 \<Rightarrow> 'a output_core_scheme \<Rightarrow> 'a output_core_scheme" where
  "count_as c n out = out\<lparr>o_stats := count_packet c (o_stats out) n\<rparr>"

section \<open>The socket of an output\<close>

text \<open>The reply of one \<open>sendto\<close>: -1 with \<open>errno\<close>, or the number of bytes sent.\<close>

datatype send_reply = Send_errno int | Send_bytes u64

record socket_env =
  sk_reply :: "nat \<Rightarrow> send_reply"
  sk_strerror :: "int \<Rightarrow> string"
  sk_sent :: "bytes list"
  sk_slept :: "nat list"

definition sendto :: "socket_env \<Rightarrow> bytes \<Rightarrow> send_reply \<times> socket_env" where
  "sendto sk datagram = (sk_reply sk (length (sk_sent sk)), sk\<lparr>sk_sent := sk_sent sk @ [datagram]\<rparr>)"

definition usleep :: "nat \<Rightarrow> socket_env \<Rightarrow> socket_env" where
  "usleep us sk = sk\<lparr>sk_slept := sk_slept sk @ [us]\<rparr>"

definition ENOBUFS :: int where "ENOBUFS = 105"

text \<open>The send-error record of the datagram outputs.\<close>

record error_info =
  first_pktsec :: int
  nb_nobufs_drops :: u64
  nb_partial_sends :: u64
  nb_other_send_error_drops :: u64
  other_send_error :: string

definition error_info_zero :: error_info where
  "error_info_zero = \<lparr>first_pktsec = 0, nb_nobufs_drops = 0, nb_partial_sends = 0,
     nb_other_send_error_drops = 0, other_send_error = []\<rparr>"

definition ERROR_INFO_FLUSH_MAX_DUR_SEC :: int where "ERROR_INFO_FLUSH_MAX_DUR_SEC = 5"

definition flush_error_info :: "error_info \<Rightarrow> error_info" where
  "flush_error_info ei =
    (let ei = ei\<lparr>first_pktsec := 0\<rparr>
     in if nb_nobufs_drops ei > 0 \<or> nb_partial_sends ei > 0 \<or> nb_other_send_error_drops ei > 0
        then ei\<lparr>nb_nobufs_drops := 0, nb_partial_sends := 0, nb_other_send_error_drops := 0, other_send_error := []\<rparr>
        else ei)"

text \<open>The "check error_info" step before a datagram is sent.\<close>

definition check_error_info :: "int \<Rightarrow> error_info \<Rightarrow> error_info" where
  "check_error_info sec ei =
    (if first_pktsec ei = 0 then ei\<lparr>first_pktsec := sec\<rparr>
     else if sec > first_pktsec ei + ERROR_INFO_FLUSH_MAX_DUR_SEC
     then (flush_error_info ei)\<lparr>first_pktsec := sec\<rparr>
     else ei)"

text \<open>The retry loop of the datagram outputs: up to \<open>max_retries\<close> repetitions after \<open>ENOBUFS\<close>,
  with growing pauses.  It returns whether the whole datagram was sent.\<close>

definition max_retries :: nat where "max_retries = 10"

function send_loop :: "bytes \<Rightarrow> nat \<Rightarrow> socket_env \<times> error_info \<Rightarrow> bool \<times> socket_env \<times> error_info" where
  "send_loop datagram retry_count (sk, ei) =
    (case sendto sk datagram of
       (Send_errno e, sk) \<Rightarrow>
         if e = ENOBUFS \<and> retry_count < max_retries
         then let duration = 100 + retry_count * 200;
                  duration = (if duration > 1000 then 1000 else duration)
              in send_loop datagram (retry_count + 1) (usleep duration sk, ei)
         else if e = ENOBUFS then (False, sk, ei\<lparr>nb_nobufs_drops := nb_nobufs_drops ei + 1\<rparr>)
         else let ei = (if nb_other_send_error_drops ei = 0
                        then ei\<lparr>other_send_error := take (ERROR_BUFFER_SIZE - 1) (sk_strerror sk e)\<rparr> else ei)
              in (False, sk, ei\<lparr>nb_other_send_error_drops := nb_other_send_error_drops ei + 1\<rparr>)
     | (Send_bytes n, sk) \<Rightarrow>
         if n < of_nat (length datagram) then (False, sk, ei\<lparr>nb_partial_sends := nb_partial_sends ei + 1\<rparr>)
         else (True, sk, ei))"
  by pat_completeness auto
termination
  by (relation "measure (\<lambda>(d, r, s). max_retries - r)") auto

declare send_loop.simps [simp del]

text \<open>The replies of the library calls that create the socket: \<open>inet_pton\<close>, \<open>socket\<close>, the two
  \<open>setsockopt\<close> calls and \<open>calloc\<close>.\<close>

record socket_setup =
  ss_inet_pton :: bool
  ss_socket :: bool
  ss_bind_device :: bool
  ss_mtu_discover :: bool
  ss_calloc :: bool

section \<open>The null output\<close>

type_synonym null_output = output_core

definition null_output_new :: "u64 \<Rightarrow> int \<Rightarrow> output_stats \<Rightarrow> bool \<Rightarrow> string + null_output" where
  "null_output_new mbps sl st calloc_ok =
    (if \<not> calloc_ok then Inl ''failed to allocate memory for null_output_t''
     else Inr \<lparr>o_stats = st, o_rate_limit_mbps = mbps, o_throttle = new_throttle mbps, o_slice = sl\<rparr>)"

definition null_send_packet :: "null_output \<Rightarrow> pcap_pkthdr \<Rightarrow> bytes \<Rightarrow> int \<Rightarrow> (null_output \<times> int) option" where
  "null_send_packet out header pkt_data direct =
    (let frame_len = output_frame_len (ph_caplen header) (o_slice out) SIZE_MAX;
         (admitted, out) = output_admit out frame_len (ph_ts header) direct
     in if \<not> admitted then Some (out, -1)
        else Some (count_as Forwarded frame_len out, 0))"

section \<open>The counting contract\<close>

text \<open>A sequence of packets handed to an output.\<close>

type_synonym packet = "pcap_pkthdr \<times> bytes \<times> int"

fun send_seq :: "('o \<Rightarrow> pcap_pkthdr \<Rightarrow> bytes \<Rightarrow> int \<Rightarrow> ('o \<times> int) option) \<Rightarrow> 'o \<Rightarrow> packet list \<Rightarrow> ('o \<times> int list) option" where
  "send_seq snd_pkt out [] = Some (out, [])"
| "send_seq snd_pkt out ((h, d, dir) # ps) = do {
     (out, r) \<leftarrow> snd_pkt out h d dir;
     (out, rs) \<leftarrow> send_seq snd_pkt out ps;
     Some (out, r # rs) }"

definition packet_ok :: "packet \<Rightarrow> bool" where
  "packet_ok p \<longleftrightarrow> unat (ph_caplen (fst p)) \<le> length (fst (snd p)) \<and> snd (snd p) \<in> {-1, 0, 1, 2}"

definition packet_dir :: "packet \<Rightarrow> int" where
  "packet_dir p = snd (snd p)"

definition packet_caplen :: "packet \<Rightarrow> u32" where
  "packet_caplen p = ph_caplen (fst p)"

definition return_code :: "outcome \<Rightarrow> int" where
  "return_code c = (if c = Forwarded then 0 else -1)"

definition count_all :: "output_stats \<Rightarrow> (outcome \<times> u64) list \<Rightarrow> output_stats" where
  "count_all st cs = foldl (\<lambda>st (c, n). count_packet c st n) st cs"

lemma count_all_simps [simp]:
  "count_all st [] = st" "count_all st ((c, n) # cs) = count_all (count_packet c st n) cs"
  by (simp_all add: count_all_def)

text \<open>The counters of one class after counting a list: the packets and bytes of that class and no
  others were added.\<close>

lemma class_packets_list:
  "class_packets c (count_all st cs)
     = foldl packets_stats_add (class_packets c st) (map (\<lambda>_. 1) (filter (\<lambda>(c', n). c' = c) cs))"
proof (induction cs arbitrary: st)
  case (Cons x cs)
  obtain c' n where x: "x = (c', n)" by (cases x)
  show ?case using Cons by (cases c; cases c') (simp_all add: count_list_def x)
qed (simp add: count_list_def)

lemma class_bytes_list:
  "class_bytes c (count_all st cs)
     = foldl bytes_stats_add (class_bytes c st) (map snd (filter (\<lambda>(c', n). c' = c) cs))"
proof (induction cs arbitrary: st)
  case (Cons x cs)
  obtain c' n where x: "x = (c', n)" by (cases x)
  show ?case using Cons by (cases c; cases c') (simp_all add: count_list_def x)
qed (simp add: count_list_def)

locale counting_output =
  fixes snd_pkt :: "'o \<Rightarrow> pcap_pkthdr \<Rightarrow> bytes \<Rightarrow> int \<Rightarrow> ('o \<times> int) option"
    and stats_of :: "'o \<Rightarrow> output_stats"
    and flen :: "'o \<Rightarrow> u32 \<Rightarrow> u64"
    and wf :: "'o \<Rightarrow> bool"
  assumes counts_once:
    "wf out \<Longrightarrow> packet_ok (h, d, dir) \<Longrightarrow> \<exists>out' c. snd_pkt out h d dir = Some (out', return_code c) \<and> wf out' \<and>
       flen out' = flen out \<and> stats_of out' = count_packet c (stats_of out) (flen out (ph_caplen h)) \<and>
       (c = Direction_drop \<longleftrightarrow> dir = PKT_DIR_UNKNOWN)"
begin

lemma run_counts:
  assumes "wf out" "\<forall>p\<in>set ps. packet_ok p"
  shows "\<exists>out' cs. send_seq snd_pkt out ps = Some (out', map return_code cs) \<and> wf out' \<and>
     length cs = length ps \<and> flen out' = flen out \<and>
     stats_of out' = count_all (stats_of out) (zip cs (map (\<lambda>p. flen out (packet_caplen p)) ps)) \<and>
     (\<forall>i < length ps. cs ! i = Direction_drop \<longleftrightarrow> packet_dir (ps ! i) = PKT_DIR_UNKNOWN)"
  using assms
proof (induction ps arbitrary: out)
  case Nil
  then show ?case by auto
next
  case (Cons p ps)
  obtain h d dir where p: "p = (h, d, dir)" by (cases p)
  obtain out1 c where s: "snd_pkt out h d dir = Some (out1, return_code c)" "wf out1" "flen out1 = flen out"
    "stats_of out1 = count_packet c (stats_of out) (flen out (ph_caplen h))"
    "c = Direction_drop \<longleftrightarrow> dir = PKT_DIR_UNKNOWN"
    using counts_once [of out h d dir] Cons.prems by (auto simp: p)
  obtain out' cs where r: "send_seq snd_pkt out1 ps = Some (out', map return_code cs)" "wf out'"
     "length cs = length ps" "flen out' = flen out1"
     "stats_of out' = count_all (stats_of out1) (zip cs (map (\<lambda>p. flen out1 (packet_caplen p)) ps))"
     "\<forall>i < length ps. cs ! i = Direction_drop \<longleftrightarrow> packet_dir (ps ! i) = PKT_DIR_UNKNOWN"
    using Cons.IH [OF s(2)] Cons.prems(2) by auto
  have "\<forall>i < length (p # ps). (c # cs) ! i = Direction_drop \<longleftrightarrow> packet_dir ((p # ps) ! i) = PKT_DIR_UNKNOWN"
    using r(6) s(5) by (auto simp: nth_Cons p packet_dir_def split: nat.splits)
  moreover have "stats_of out' = count_all (stats_of out) (zip (c # cs) (map (\<lambda>p. flen out (packet_caplen p)) (p # ps)))"
    using r(5) s(3,4) by (simp add: p packet_caplen_def)
  moreover have "send_seq snd_pkt out (p # ps) = Some (out', map return_code (c # cs))"
    using r(1) s(1) by (simp add: p)
  ultimately show ?case using r(2,3,4) s(3) by (intro exI [of _ out'] exI [of _ "c # cs"]) simp
qed

end

section \<open>Facts the outputs share\<close>

lemma output_admit_cases:
  obtains (dropped) c tb where "c \<noteq> Forwarded" "c = Direction_drop \<longleftrightarrow> dir = PKT_DIR_UNKNOWN"
      "output_admit out n ts dir = (False, out\<lparr>o_throttle := tb, o_stats := count_packet c (o_stats out) n\<rparr>)"
  | (admitted) tb where "dir \<noteq> PKT_DIR_UNKNOWN" "output_admit out n ts dir = (True, out\<lparr>o_throttle := tb\<rparr>)"
proof (cases "dir = PKT_DIR_UNKNOWN")
  case True
  then show thesis using dropped [of Direction_drop "o_throttle out"] by (simp add: output_admit_def)
next
  case dir: False
  show thesis
  proof (cases "o_rate_limit_mbps out > 0")
    case True
    obtain g tb where "token_bucket_consume (o_throttle out) n ts = (g, tb)" by fastforce
    then show thesis using True dir dropped [of Ratelimit_drop tb] admitted [of tb]
      by (cases g) (simp_all add: output_admit_def)
  next
    case False
    then show thesis using dir admitted [of "o_throttle out"] by (simp add: output_admit_def)
  qed
qed

lemma take_put_append:
  "i + length xs \<le> length bs \<Longrightarrow> take (i + length xs) (put bs i xs) = take i bs @ xs"
  by (simp add: put_def)

lemma frame_len_le:
  "unat (output_frame_len caplen sl mx) \<le> unat caplen" "unat (output_frame_len caplen sl mx) \<le> unat mx"
proof -
  have u: "unat (ucast (w :: u32) :: u64) = unat w" for w by (rule unat_ucast_up) simp
  show "unat (output_frame_len caplen sl mx) \<le> unat caplen" "unat (output_frame_len caplen sl mx) \<le> unat mx"
    unfolding output_frame_len_def Let_def using u [of caplen] u [of "word_of_int sl"]
    by (simp_all add: word_less_nat_alt)
qed

text \<open>The retry loop hands the same datagram to the socket between one and eleven times, sleeps
  for at most a millisecond before each repetition, and reports success exactly when the
  last attempt sent all of it.\<close>

lemma send_loop_result:
  assumes "send_loop d r (sk, ei) = (ok, sk', ei')" "r \<le> max_retries"
  shows "(\<exists>k. 1 \<le> k \<and> k \<le> max_retries - r + 1 \<and> sk_sent sk' = sk_sent sk @ replicate k d) \<and>
    sk_reply sk' = sk_reply sk \<and> sk_strerror sk' = sk_strerror sk \<and>
    sum_list (sk_slept sk') \<le> sum_list (sk_slept sk) + 1000 * (max_retries - r) \<and>
    (ok \<longleftrightarrow> (\<exists>n. sk_reply sk (length (sk_sent sk') - 1) = Send_bytes n \<and> of_nat (length d) \<le> n)) \<and>
    (ok \<longrightarrow> ei' = ei)"
  using assms
proof (induction d r "(sk, ei)" arbitrary: sk ei rule: send_loop.induct)
  case (1 d r sk ei)
  let ?sk1 = "sk\<lparr>sk_sent := sk_sent sk @ [d]\<rparr>"
  have st: "sendto sk d = (sk_reply sk (length (sk_sent sk)), ?sk1)" by (simp add: sendto_def)
  show ?case
  proof (cases "sk_reply sk (length (sk_sent sk))")
    case (Send_errno e)
    show ?thesis
    proof (cases "e = ENOBUFS \<and> r < max_retries")
      case True
      define dur where "dur = (if 100 + r * 200 > 1000 then 1000 else 100 + r * 200)"
      have l: "send_loop d (r + 1) (usleep dur ?sk1, ei) = (ok, sk', ei')"
        using "1.prems"(1) True Send_errno by (simp add: send_loop.simps st dur_def Let_def)
      have IH: "(\<exists>k. 1 \<le> k \<and> k \<le> max_retries - (r + 1) + 1 \<and> sk_sent sk' = sk_sent (usleep dur ?sk1) @ replicate k d) \<and>
        sk_reply sk' = sk_reply (usleep dur ?sk1) \<and> sk_strerror sk' = sk_strerror (usleep dur ?sk1) \<and>
        sum_list (sk_slept sk') \<le> sum_list (sk_slept (usleep dur ?sk1)) + 1000 * (max_retries - (r + 1)) \<and>
        (ok \<longleftrightarrow> (\<exists>n. sk_reply (usleep dur ?sk1) (length (sk_sent sk') - 1) = Send_bytes n \<and> of_nat (length d) \<le> n)) \<and>
        (ok \<longrightarrow> ei' = ei)"
        using "1.hyps" [OF st [symmetric] Send_errno True refl dur_def l] True by simp
      have "dur \<le> 1000" by (simp add: dur_def)
      moreover obtain k where k: "1 \<le> k" "k \<le> max_retries - (r + 1) + 1" "sk_sent sk' = sk_sent sk @ replicate (k + 1) d"
        using IH by (auto simp: usleep_def)
      moreover have "k + 1 \<le> max_retries - r + 1" using k(2) True by (simp add: Suc_diff_Suc)
      ultimately show ?thesis using IH True by (auto simp: usleep_def intro!: exI [of _ "k + 1"])
    next
      case False
      then have "\<not> ok \<and> sk' = ?sk1" using "1.prems"(1) Send_errno
        by (auto simp: send_loop.simps st Let_def split: if_splits)
      then show ?thesis using Send_errno by (auto intro!: exI [of _ 1])
    qed
  next
    case (Send_bytes n)
    then have "sk' = ?sk1 \<and> (ok \<longleftrightarrow> of_nat (length d) \<le> n) \<and> (ok \<longrightarrow> ei' = ei)" using "1.prems"(1)
      by (auto simp: send_loop.simps st Let_def split: if_splits)
    then show ?thesis using Send_bytes by (auto intro!: exI [of _ 1])
  qed
qed

lemma null_counts:
  "packet_ok (h, d, dir) \<Longrightarrow> \<exists>out' c. null_send_packet out h d dir = Some (out', return_code c) \<and> True \<and>
    (\<lambda>n. output_frame_len n (o_slice out') SIZE_MAX) = (\<lambda>n. output_frame_len n (o_slice out) SIZE_MAX) \<and>
    o_stats out' = count_packet c (o_stats out) (output_frame_len (ph_caplen h) (o_slice out) SIZE_MAX) \<and>
    (c = Direction_drop \<longleftrightarrow> dir = PKT_DIR_UNKNOWN)"
  by (rule output_admit_cases [of dir out "output_frame_len (ph_caplen h) (o_slice out) SIZE_MAX" "ph_ts h"])
     (auto simp: null_send_packet_def count_as_def return_code_def)

interpretation null_out: counting_output null_send_packet o_stats
  "\<lambda>out n. output_frame_len n (o_slice out) SIZE_MAX" "\<lambda>_. True"
  by unfold_locales (rule null_counts)

definition sample_setup :: socket_setup where
  "sample_setup = \<lparr>ss_inet_pton = True, ss_socket = True, ss_bind_device = True, ss_mtu_discover = True, ss_calloc = True\<rparr>"

definition sample_socket :: socket_env where
  "sample_socket = \<lparr>sk_reply = \<lambda>n. if n = 0 then Send_errno 105 else Send_bytes 100, sk_strerror = \<lambda>_. [], sk_sent = [], sk_slept = []\<rparr>"

end
