(* ===== verification/Output_File.thy ===== *)
theory Output_File
  imports Output_Common "HOL-Library.Sublist"
begin

text \<open>
  \<open>output_file.c\<close> and \<open>output_rotating_file.c\<close>: the outputs that write savefiles.  The file
  system, the clock and libpcap's savefile writer are an environment: \<open>fe_ok n\<close> says whether
  the \<open>n\<close>-th library call that can fail succeeds, \<open>fe_clock n\<close> is the reply of \<open>time\<close>, and
  \<open>fe_files\<close> is the content of the savefiles by path.  Opening a path for writing truncates it.
\<close>

section \<open>The environment\<close>

type_synonym dump_record = "pcap_pkthdr \<times> bytes"

record tm =
  tm_year :: int
  tm_mon :: int
  tm_mday :: int
  tm_hour :: int
  tm_min :: int
  tm_sec :: int

record savefile =
  sf_snaplen :: int
  sf_records :: "dump_record list"

record file_env =
  fe_ok :: "nat \<Rightarrow> bool"
  fe_clock :: "nat \<Rightarrow> int"
  fe_localtime :: "int \<Rightarrow> tm"
  fe_calls :: nat
  fe_files :: "string \<rightharpoonup> savefile"

definition sys_call :: "file_env \<Rightarrow> bool \<times> file_env" where
  "sys_call env = (fe_ok env (fe_calls env), env\<lparr>fe_calls := fe_calls env + 1\<rparr>)"

definition sys_time :: "file_env \<Rightarrow> int \<times> file_env" where
  "sys_time env = (fe_clock env (fe_calls env), env\<lparr>fe_calls := fe_calls env + 1\<rparr>)"

definition sys_fopen :: "string \<Rightarrow> file_env \<Rightarrow> bool \<times> file_env" where
  "sys_fopen path env =
    (let (ok, env) = sys_call env
     in (ok, if ok then env\<lparr>fe_files := (fe_files env)(path \<mapsto> \<lparr>sf_snaplen = 0, sf_records = []\<rparr>)\<rparr> else env))"

definition pcap_dump_fopen :: "int \<Rightarrow> string \<Rightarrow> file_env \<Rightarrow> bool \<times> file_env" where
  "pcap_dump_fopen snaplen path env =
    (let (ok, env) = sys_call env
     in (ok, if ok then env\<lparr>fe_files := (fe_files env)(path \<mapsto> \<lparr>sf_snaplen = snaplen, sf_records = []\<rparr>)\<rparr> else env))"

definition pcap_dump :: "string \<Rightarrow> pcap_pkthdr \<Rightarrow> bytes \<Rightarrow> file_env \<Rightarrow> file_env option" where
  "pcap_dump path hdr pkt_data env = do {
     data \<leftarrow> rd_bytes pkt_data 0 (unat (ph_caplen hdr));
     sf \<leftarrow> fe_files env path;
     Some (env\<lparr>fe_files := (fe_files env)(path \<mapsto> sf\<lparr>sf_records := sf_records sf @ [(hdr, data)]\<rparr>)\<rparr>) }"

section \<open>The file output\<close>

definition slice_header :: "int \<Rightarrow> pcap_pkthdr \<Rightarrow> pcap_pkthdr" where
  "slice_header sl header =
    (if sl > 0 \<and> (word_of_int sl :: u32) < ph_caplen header then header\<lparr>ph_caplen := word_of_int sl\<rparr> else header)"

record file_output = output_core +
  fo_snaplen :: int
  fo_dumper :: string

definition file_output_snaplen :: "int \<Rightarrow> int \<Rightarrow> int" where
  "file_output_snaplen snaplen sl = (if sl > 0 \<and> sl < snaplen then sl else snaplen)"

definition file_output_new ::
  "string \<Rightarrow> int \<Rightarrow> int \<Rightarrow> u64 \<Rightarrow> output_stats \<Rightarrow> file_env \<Rightarrow> (string + file_output) \<times> file_env" where
  "file_output_new name snaplen sl mbps st env =
    (let (ok, env) = sys_fopen name env in
     if \<not> ok then (Inl ''open file error'', env) else
     let (ok, env) = sys_call env in
     if \<not> ok then (Inl ''pcap_open_dead failed'', env) else
     let (ok, env) = pcap_dump_fopen (file_output_snaplen snaplen sl) name env in
     if \<not> ok then (Inl ''pcap_dump_fopen failed'', env) else
     let (ok, env) = sys_call env in
     if \<not> ok then (Inl ''failed to allocate memory for file_output_t'', env) else
     (Inr \<lparr>o_stats = st, o_rate_limit_mbps = mbps, o_throttle = new_throttle mbps, o_slice = sl,
           fo_snaplen = file_output_snaplen snaplen sl, fo_dumper = name\<rparr>, env))"

definition file_write_packet ::
  "file_output \<times> file_env \<Rightarrow> pcap_pkthdr \<Rightarrow> bytes \<Rightarrow> int \<Rightarrow> ((file_output \<times> file_env) \<times> int) option" where
  "file_write_packet s header pkt_data direct =
    (let (out, env) = s;
         hdr = slice_header (o_slice out) header;
         (admitted, out) = output_admit out (ucast (ph_caplen hdr)) (ph_ts hdr) direct
     in if \<not> admitted then Some ((out, env), -1)
        else do {
          env \<leftarrow> pcap_dump (fo_dumper out) hdr pkt_data env;
          Some ((count_as Forwarded (ucast (ph_caplen hdr)) out, env), 0) })"

section \<open>The rotating file output\<close>

definition PATH_MAX :: nat where "PATH_MAX = 4096"

definition pad2 :: "int \<Rightarrow> string" where
  "pad2 i = (if 0 \<le> i \<and> i < 10 then ''0'' @ dec_int i else dec_int i)"

text \<open>\<open>strftime\<close> into a buffer of \<open>size\<close> characters: \<^term>\<open>None\<close> where the result does not fit and
  the content of the buffer is undefined.\<close>

definition strftime_fit :: "nat \<Rightarrow> string \<Rightarrow> string option" where
  "strftime_fit n s = (if length s < n then Some s else None)"

definition ymdh :: "tm \<Rightarrow> string" where
  "ymdh t = dec_int (tm_year t + 1900) @ pad2 (tm_mon t + 1) @ pad2 (tm_mday t) @ pad2 (tm_hour t)"

definition ymdhms :: "tm \<Rightarrow> string" where
  "ymdhms t = ymdh t @ pad2 (tm_min t) @ pad2 (tm_sec t)"

definition generate_path :: "string \<Rightarrow> tm \<Rightarrow> file_env \<Rightarrow> (string option \<times> file_env) option" where
  "generate_path root_dir ptm env = do {
     date \<leftarrow> strftime_fit 15 (ymdhms ptm);
     subPath \<leftarrow> strftime_fit 11 (ymdh ptm);
     let separator = (if length root_dir > 0 \<and> last root_dir \<noteq> CHR ''/'' then ''/'' else []);
     let currDir = root_dir @ separator @ subPath;
     if length currDir \<ge> PATH_MAX then Some (None, env)
     else
       let (found, env) = sys_call env;
           (made, env) = (if \<not> found then sys_call env else (True, env))
       in if \<not> made then Some (None, env)
          else let filepath = currDir @ ''/'' @ ''pktminerg_dump_'' @ date @ ''.pcap''
               in if length filepath \<ge> PATH_MAX then Some (None, env) else Some (Some filepath, env) }"

record rotating_file_output = output_core +
  rf_file_root :: string
  rf_max_file_interval :: int
  rf_snaplen :: int
  rf_file_time :: int
  rf_dumper_error :: bool
  rf_dumper :: "string option"

type_synonym rotating_state = "rotating_file_output \<times> file_env"

text \<open>\<open>create_dumper\<close> returns whether a dumper was installed.\<close>

definition create_dumper :: "rotating_state \<Rightarrow> (bool \<times> rotating_state) option" where
  "create_dumper s =
    (let (out, env) = s; ptm = fe_localtime env (rf_file_time out) in do {
     (path, env) \<leftarrow> generate_path (rf_file_root out) ptm env;
     case path of None \<Rightarrow> Some (False, out, env)
     | Some filepath \<Rightarrow>
         let (ok, env) = sys_fopen filepath env in
         if \<not> ok then Some (False, out, env) else
         let (ok, env) = pcap_dump_fopen (rf_snaplen out) filepath env in
         if \<not> ok then Some (False, out, env)
         else Some (True, out\<lparr>rf_dumper := Some filepath\<rparr>, env) })"

definition rotating_file_output_new ::
  "string \<Rightarrow> int \<Rightarrow> int \<Rightarrow> int \<Rightarrow> u64 \<Rightarrow> output_stats \<Rightarrow> file_env \<Rightarrow> (string + rotating_file_output) \<times> file_env" where
  "rotating_file_output_new file_root interval snaplen sl mbps st env =
    (let (ok, env) = sys_call env in
     if \<not> ok then (Inl ''stat file_root error'', env) else
     let (ok, env) = sys_call env in
     if \<not> ok then (Inl ''pcap_open_dead failed'', env) else
     let (ok, env) = sys_call env in
     if \<not> ok then (Inl ''failed to allocate memory for rotating_file_output_t'', env) else
     (Inr \<lparr>o_stats = st, o_rate_limit_mbps = mbps, o_throttle = new_throttle mbps, o_slice = sl,
           rf_file_root = file_root, rf_max_file_interval = interval, rf_snaplen = file_output_snaplen snaplen sl,
           rf_file_time = 0, rf_dumper_error = False, rf_dumper = None\<rparr>, env))"

text \<open>The part of \<open>rotating_file_write_packet\<close> that makes sure a current file is open.  It returns
  whether the packet can be written.\<close>

definition rotate_file :: "rotating_state \<Rightarrow> (bool \<times> rotating_state) option" where
  "rotate_file s =
    (let (out, env) = s;
         retry_interval = (if rf_max_file_interval out > 0 then rf_max_file_interval out else 1);
         (wait, env) = (if rf_dumper_error out
                        then let (now, env) = sys_time env in (now - rf_file_time out < retry_interval, env)
                        else (False, env))
     in if wait then Some (False, out, env)
        else if rf_dumper out = None then
          let (now, env) = sys_time env; out = out\<lparr>rf_file_time := now\<rparr> in do {
          (ok, out, env) \<leftarrow> create_dumper (out, env);
          Some (ok, out\<lparr>rf_dumper_error := \<not> ok\<rparr>, env) }
        else
          let (now, env) = sys_time env in
          if rf_max_file_interval out > 0 \<and> now - rf_file_time out \<ge> rf_max_file_interval out
          then do {
            (ok, out, env) \<leftarrow> create_dumper (out\<lparr>rf_file_time := now, rf_dumper := None\<rparr>, env);
            Some (ok, out\<lparr>rf_dumper_error := \<not> ok\<rparr>, env) }
          else Some (True, out, env))"

definition rotating_file_write_packet ::
  "rotating_state \<Rightarrow> pcap_pkthdr \<Rightarrow> bytes \<Rightarrow> int \<Rightarrow> (rotating_state \<times> int) option" where
  "rotating_file_write_packet s header pkt_data direct =
    (let (out, env) = s;
         hdr = slice_header (o_slice out) header;
         (admitted, out) = output_admit out (ucast (ph_caplen hdr)) (ph_ts hdr) direct
     in if \<not> admitted then Some ((out, env), -1)
        else do {
          (ok, out, env) \<leftarrow> rotate_file (out, env);
          if \<not> ok then Some ((count_as Error_drop (ucast (ph_caplen hdr)) out, env), -1)
          else do {
            path \<leftarrow> rf_dumper out;
            env \<leftarrow> pcap_dump path hdr pkt_data env;
            Some ((count_as Forwarded (ucast (ph_caplen hdr)) out, env), 0) } })"

section \<open>File names\<close>

text \<open>What the C library guarantees of \<open>localtime_r\<close> in the years 1000 to 9999.\<close>

definition tm_ok :: "tm \<Rightarrow> bool" where
  "tm_ok t \<longleftrightarrow> 1000 \<le> tm_year t + 1900 \<and> tm_year t + 1900 \<le> 9999 \<and> 0 \<le> tm_mon t \<and> tm_mon t \<le> 11 \<and>
     1 \<le> tm_mday t \<and> tm_mday t \<le> 31 \<and> 0 \<le> tm_hour t \<and> tm_hour t \<le> 23 \<and>
     0 \<le> tm_min t \<and> tm_min t \<le> 59 \<and> 0 \<le> tm_sec t \<and> tm_sec t \<le> 60"

lemma length_dec_nat:
  "n < 10 \<Longrightarrow> length (dec_nat n) = 1" "10 \<le> n \<Longrightarrow> n < 100 \<Longrightarrow> length (dec_nat n) = 2"
  "1000 \<le> n \<Longrightarrow> n < 10000 \<Longrightarrow> length (dec_nat n) = 4"
proof -
  have step: "10 \<le> k \<Longrightarrow> length (dec_nat k) = Suc (length (dec_nat (k div 10)))" for k
    by (subst dec_nat.simps) simp
  show one: "k < 10 \<Longrightarrow> length (dec_nat k) = 1" for k by (simp add: dec_nat.simps)
  show two: "10 \<le> k \<Longrightarrow> k < 100 \<Longrightarrow> length (dec_nat k) = 2" for k
    using step [of k] one [of "k div 10"] by (simp add: div_less_iff_less_mult)
  have three: "100 \<le> k \<Longrightarrow> k < 1000 \<Longrightarrow> length (dec_nat k) = 3" for k
    using step [of k] two [of "k div 10"] by (simp add: div_less_iff_less_mult less_eq_div_iff_mult_less_eq)
  show "1000 \<le> n \<Longrightarrow> n < 10000 \<Longrightarrow> length (dec_nat n) = 4"
    using step [of n] three [of "n div 10"] by (simp add: div_less_iff_less_mult less_eq_div_iff_mult_less_eq)
qed

lemma length_pad2: "0 \<le> i \<Longrightarrow> i < 100 \<Longrightarrow> length (pad2 i) = 2"
  by (auto simp: pad2_def dec_int_def length_dec_nat)

lemma length_date: "tm_ok t \<Longrightarrow> length (ymdh t) = 10" "tm_ok t \<Longrightarrow> length (ymdhms t) = 14"
  by (auto simp: tm_ok_def ymdh_def ymdhms_def length_pad2 dec_int_def length_dec_nat)

definition dump_path :: "string \<Rightarrow> tm \<Rightarrow> string" where
  "dump_path root_dir t = root_dir @ (if length root_dir > 0 \<and> last root_dir \<noteq> CHR ''/'' then ''/'' else []) @
     ymdh t @ ''/'' @ ''pktminerg_dump_'' @ ymdhms t @ ''.pcap''"

lemma dump_path_inj: "tm_ok t \<Longrightarrow> tm_ok u \<Longrightarrow> dump_path r t = dump_path r u \<Longrightarrow> ymdhms t = ymdhms u"
  by (simp add: dump_path_def length_date)

text \<open>The parts of the environment that library calls do not change.\<close>

definition env_keeps :: "file_env \<Rightarrow> file_env \<Rightarrow> bool" where
  "env_keeps env env' \<longleftrightarrow> fe_ok env' = fe_ok env \<and> fe_clock env' = fe_clock env \<and> fe_localtime env' = fe_localtime env"

lemma generate_path_run:
  assumes "tm_ok t"
  shows "\<exists>p env'. generate_path r t env = Some (p, env') \<and> env_keeps env env' \<and> fe_files env' = fe_files env \<and>
     (p = None \<or> p = Some (dump_path r t))"
  using length_date [OF assms]
  by (auto simp: generate_path_def strftime_fit_def sys_call_def Let_def dump_path_def env_keeps_def split: prod.splits if_splits)

section \<open>The current file\<close>

lemma create_dumper_run:
  assumes "tm_ok (fe_localtime env (rf_file_time out))"
  defines "p \<equiv> dump_path (rf_file_root out) (fe_localtime env (rf_file_time out))"
  shows "\<exists>ok env'. create_dumper (out, env) = Some (ok, if ok then out\<lparr>rf_dumper := Some p\<rparr> else out, env') \<and>
    env_keeps env env' \<and> (\<forall>q. q \<noteq> p \<longrightarrow> fe_files env' q = fe_files env q) \<and>
    (ok \<longrightarrow> fe_files env' p = Some \<lparr>sf_snaplen = rf_snaplen out, sf_records = []\<rparr>)"
proof -
  obtain q env1 where g: "generate_path (rf_file_root out) (fe_localtime env (rf_file_time out)) env = Some (q, env1)"
    "env_keeps env env1" "fe_files env1 = fe_files env" "q = None \<or> q = Some p"
    using generate_path_run [OF assms(1), of "rf_file_root out" env] unfolding p_def by blast
  show ?thesis
  proof (cases "q = None")
    case True
    then show ?thesis using g by (auto simp: create_dumper_def)
  next
    case False
    then have "q = Some p" using g(4) by blast
    then show ?thesis using g(1-3)
      by (auto simp: create_dumper_def sys_fopen_def pcap_dump_fopen_def sys_call_def Let_def env_keeps_def
          split: prod.splits if_splits)
  qed
qed

definition rot_ok :: "rotating_state \<Rightarrow> bool" where
  "rot_ok s \<longleftrightarrow> (\<forall>n. tm_ok (fe_localtime (snd s) (fe_clock (snd s) n))) \<and> (\<forall>p. rf_dumper (fst s) = Some p \<longrightarrow> p \<in> dom (fe_files (snd s))) \<and>
     (rf_dumper_error (fst s) \<longrightarrow> rf_dumper (fst s) = None)"

text \<open>An output that never tried to open a file.\<close>

definition rot_fresh :: "rotating_file_output \<Rightarrow> bool" where
  "rot_fresh out \<longleftrightarrow> rf_dumper out = None \<and> \<not> rf_dumper_error out"

definition same_core :: "rotating_file_output \<Rightarrow> rotating_file_output \<Rightarrow> bool" where
  "same_core out out' \<longleftrightarrow> o_stats out' = o_stats out \<and> o_slice out' = o_slice out \<and>
     rf_file_root out' = rf_file_root out \<and> rf_max_file_interval out' = rf_max_file_interval out"

text \<open>What one call of \<open>rotate_file\<close> does to the files: nothing, or it opens the file named after a
  time later than that of every earlier attempt.\<close>

definition rot_step :: "rotating_state \<Rightarrow> rotating_state \<Rightarrow> bool" where
  "rot_step s s' \<longleftrightarrow> (case s of (out, env) \<Rightarrow> case s' of (out', env') \<Rightarrow>
     (rf_file_time out' = rf_file_time out \<and> rf_dumper out' = rf_dumper out \<and>
        rf_dumper_error out' = rf_dumper_error out \<and> fe_files env' = fe_files env \<and> \<not> rot_fresh out) \<or>
     ((rot_fresh out \<or> rf_file_time out < rf_file_time out') \<and> \<not> rot_fresh out' \<and>
        rf_file_time out' \<in> range (fe_clock env) \<and>
        (rf_dumper out' = None \<or> rf_dumper out' = Some (dump_path (rf_file_root out) (fe_localtime env (rf_file_time out')))) \<and>
        (\<forall>q. q \<noteq> dump_path (rf_file_root out) (fe_localtime env (rf_file_time out')) \<longrightarrow> fe_files env' q = fe_files env q)))"

lemma open_run:
  assumes "tm_ok (fe_localtime env (rf_file_time out))" "rf_dumper out = None"
  defines "p \<equiv> dump_path (rf_file_root out) (fe_localtime env (rf_file_time out))"
  shows "\<exists>ok out' env'. do { (ok, out, env) \<leftarrow> create_dumper (out, env); Some (ok, out\<lparr>rf_dumper_error := \<not> ok\<rparr>, env) }
      = Some (ok, out', env') \<and> env_keeps env env' \<and> same_core out out' \<and> rf_file_time out' = rf_file_time out \<and>
    \<not> rot_fresh out' \<and> (rf_dumper_error out' \<longrightarrow> rf_dumper out' = None) \<and> (ok \<longrightarrow> rf_dumper out' \<noteq> None) \<and>
    (rf_dumper out' = None \<or> rf_dumper out' = Some p \<and> p \<in> dom (fe_files env')) \<and>
    (\<forall>q. q \<noteq> p \<longrightarrow> fe_files env' q = fe_files env q)"
proof -
  obtain ok env' where c: "create_dumper (out, env) = Some (ok, if ok then out\<lparr>rf_dumper := Some p\<rparr> else out, env')"
    "env_keeps env env'" "\<forall>q. q \<noteq> p \<longrightarrow> fe_files env' q = fe_files env q"
    "ok \<longrightarrow> fe_files env' p = Some \<lparr>sf_snaplen = rf_snaplen out, sf_records = []\<rparr>"
    using create_dumper_run [of env out] assms(1) unfolding p_def by blast
  then show ?thesis using assms(2) by (cases ok) (auto simp: same_core_def rot_fresh_def dom_def)
qed

lemma rotate_run:
  assumes "rot_ok (out, env)"
  shows "\<exists>ok out' env'. rotate_file (out, env) = Some (ok, out', env') \<and> rot_ok (out', env') \<and> env_keeps env env' \<and>
     same_core out out' \<and> (ok \<longrightarrow> rf_dumper out' \<noteq> None) \<and> (mono (fe_clock env) \<longrightarrow> rot_step (out, env) (out', env'))"
proof -
  let ?tick = "\<lambda>env. env\<lparr>fe_calls := fe_calls env + 1\<rparr>"
  let ?wait = "rf_dumper_error out \<and> fe_clock env (fe_calls env) - rf_file_time out <
      (if rf_max_file_interval out > 0 then rf_max_file_interval out else 1)"
  have tm: "\<forall>n. tm_ok (fe_localtime env (fe_clock env n))" using assms by (simp add: rot_ok_def)
  obtain env1 where env1: "env1 = (if rf_dumper_error out then ?tick env else env)" by blast
  then have k1: "env_keeps env env1" "fe_files env1 = fe_files env" by (simp_all add: env_keeps_def)
  obtain now env2 where st: "sys_time env1 = (now, env2)" by fastforce
  then have k2: "env_keeps env env2" "fe_files env2 = fe_files env" "now \<in> range (fe_clock env)"
    using k1 by (auto simp: sys_time_def env_keeps_def)
  then have tm2: "tm_ok (fe_localtime env2 (rf_file_time (out\<lparr>rf_file_time := now, rf_dumper := None\<rparr>)))"
    using tm by (auto simp: env_keeps_def)
  have opened: "\<exists>ok out' env'. do { (ok, out, env) \<leftarrow> create_dumper (out\<lparr>rf_file_time := now, rf_dumper := None\<rparr>, env2);
         Some (ok, out\<lparr>rf_dumper_error := \<not> ok\<rparr>, env) } = Some (ok, out', env') \<and> rot_ok (out', env') \<and> env_keeps env env' \<and>
     same_core out out' \<and> (ok \<longrightarrow> rf_dumper out' \<noteq> None) \<and> (mono (fe_clock env) \<longrightarrow> rot_step (out, env) (out', env'))"
    if "mono (fe_clock env) \<longrightarrow> rot_fresh out \<or> rf_file_time out < now"
    using open_run [OF tm2] that k2 tm
    by (auto simp: rot_step_def rot_ok_def env_keeps_def same_core_def)
  show ?thesis
  proof (cases ?wait)
    case True
    then have "rotate_file (out, env) = Some (False, out, env1)" by (simp add: rotate_file_def sys_time_def Let_def env1)
    then show ?thesis using True assms k1
      by (auto simp: rot_ok_def env_keeps_def same_core_def rot_step_def rot_fresh_def)
  next
    case nw: False
    have r: "rotate_file (out, env) = (if rf_dumper out = None
        then do { (ok, out, env) \<leftarrow> create_dumper (out\<lparr>rf_file_time := now\<rparr>, env2);
                  Some (ok, out\<lparr>rf_dumper_error := \<not> ok\<rparr>, env) }
        else if rf_max_file_interval out > 0 \<and> now - rf_file_time out \<ge> rf_max_file_interval out
        then do { (ok, out, env) \<leftarrow> create_dumper (out\<lparr>rf_file_time := now, rf_dumper := None\<rparr>, env2);
                  Some (ok, out\<lparr>rf_dumper_error := \<not> ok\<rparr>, env) }
        else Some (True, out, env2))"
      using nw st by (auto simp: rotate_file_def Let_def env1 sys_time_def)
    show ?thesis
    proof (cases "rf_dumper out")
      case None
      have "rot_fresh out \<or> rf_file_time out < now" if m: "mono (fe_clock env)"
        using None nw st monoD [OF m, of "fe_calls env" "fe_calls env + 1"]
        by (auto simp: rot_fresh_def env1 sys_time_def split: if_splits)
      moreover have "out\<lparr>rf_file_time := now\<rparr> = out\<lparr>rf_file_time := now, rf_dumper := None\<rparr>" using None by simp
      ultimately show ?thesis using opened unfolding r if_P [OF None] by (simp only:) blast
    next
      case (Some p)
      show ?thesis
      proof (cases "rf_max_file_interval out > 0 \<and> now - rf_file_time out \<ge> rf_max_file_interval out")
        case True
        then show ?thesis using opened Some unfolding r by simp
      next
        case False
        then have "rotate_file (out, env) = Some (True, out, env2)" using Some unfolding r by auto
        then show ?thesis using Some k2 assms
          by (auto simp: rot_step_def rot_ok_def env_keeps_def same_core_def rot_fresh_def)
      qed
    qed
  qed
qed

section \<open>Both outputs count every packet once\<close>

lemma slice_header_len:
  "ucast (ph_caplen (slice_header sl h)) = output_frame_len (ph_caplen h) sl SIZE_MAX"
  "unat (ph_caplen (slice_header sl h)) \<le> unat (ph_caplen h)"
proof -
  have u: "unat (ucast (w :: u32) :: u64) = unat w" for w by (rule unat_ucast_up) simp
  have "(ucast w :: u64) < SIZE_MAX" for w :: u32
    unfolding word_less_nat_alt u by (rule less_trans [OF unat_u32_lt]) (simp add: SIZE_MAX_def)
  then show "ucast (ph_caplen (slice_header sl h)) = output_frame_len (ph_caplen h) sl SIZE_MAX"
    by (auto simp: slice_header_def output_frame_len_def Let_def)
  show "unat (ph_caplen (slice_header sl h)) \<le> unat (ph_caplen h)"
    by (auto simp: slice_header_def word_less_nat_alt)
qed

lemma pcap_dump_run:
  "fe_files env p = Some sf \<Longrightarrow> unat (ph_caplen hdr) \<le> length d \<Longrightarrow>
    pcap_dump p hdr d env = Some (env\<lparr>fe_files := (fe_files env)(p \<mapsto>
       sf\<lparr>sf_records := sf_records sf @ [(hdr, take (unat (ph_caplen hdr)) d)]\<rparr>)\<rparr>)"
  by (simp add: pcap_dump_def rd_bytes_in)

definition file_flen :: "'a output_core_scheme \<Rightarrow> u32 \<Rightarrow> u64" where
  "file_flen out n = output_frame_len n (o_slice out) SIZE_MAX"

definition file_ok :: "file_output \<times> file_env \<Rightarrow> bool" where
  "file_ok s \<longleftrightarrow> fo_dumper (fst s) \<in> dom (fe_files (snd s))"

interpretation file_out: counting_output file_write_packet "\<lambda>s. o_stats (fst s)" "\<lambda>s. file_flen (fst s)" file_ok
proof
  fix s :: "file_output \<times> file_env" and h d dir
  assume ok: "file_ok s" and p: "packet_ok (h, d, dir)"
  obtain out env where s: "s = (out, env)" by fastforce
  obtain sf where f: "fe_files env (fo_dumper out) = Some sf" using ok by (auto simp: file_ok_def s)
  let ?h = "slice_header (o_slice out) h"
  have len: "unat (ph_caplen ?h) \<le> length d"
    using p slice_header_len(2) [of "o_slice out" h] by (simp add: packet_ok_def)
  show "\<exists>out' c. file_write_packet s h d dir = Some (out', return_code c) \<and> file_ok out' \<and>
       file_flen (fst out') = file_flen (fst s) \<and>
       o_stats (fst out') = count_packet c (o_stats (fst s)) (file_flen (fst s) (ph_caplen h)) \<and>
       (c = Direction_drop \<longleftrightarrow> dir = PKT_DIR_UNKNOWN)"
    by (rule output_admit_cases [of dir out "ucast (ph_caplen ?h)" "ph_ts ?h"])
      (auto simp: file_write_packet_def s return_code_def file_ok_def f file_flen_def slice_header_len(1)
         fun_eq_iff pcap_dump_run [OF _ len] count_as_def)
qed

text \<open>The three ways a packet can go through the rotating output.\<close>

lemma rotating_write_cases:
  assumes ok: "rot_ok (out, env)" and len: "unat (ph_caplen (slice_header (o_slice out) h)) \<le> length d"
  obtains (dropped) c tb where "c \<noteq> Forwarded" "c = Direction_drop \<longleftrightarrow> dir = PKT_DIR_UNKNOWN"
      "rotating_file_write_packet (out, env) h d dir =
         Some ((out\<lparr>o_throttle := tb, o_stats := count_packet c (o_stats out) (file_flen out (ph_caplen h))\<rparr>, env), -1)"
  | (failed) tb out' env' where "dir \<noteq> PKT_DIR_UNKNOWN"
      "rotate_file (out\<lparr>o_throttle := tb\<rparr>, env) = Some (False, out', env')"
      "rotating_file_write_packet (out, env) h d dir = Some ((count_as Error_drop (file_flen out (ph_caplen h)) out', env'), -1)"
  | (written) tb out' env' p sf where "dir \<noteq> PKT_DIR_UNKNOWN"
      "rotate_file (out\<lparr>o_throttle := tb\<rparr>, env) = Some (True, out', env')"
      "rf_dumper out' = Some p" "fe_files env' p = Some sf"
      "rotating_file_write_packet (out, env) h d dir = Some ((count_as Forwarded (file_flen out (ph_caplen h)) out',
         env'\<lparr>fe_files := (fe_files env')(p \<mapsto> sf\<lparr>sf_records := sf_records sf @
            [(slice_header (o_slice out) h, take (unat (ph_caplen (slice_header (o_slice out) h))) d)]\<rparr>)\<rparr>), 0)"
proof (rule output_admit_cases [of dir out "file_flen out (ph_caplen h)" "ph_ts (slice_header (o_slice out) h)"])
  fix c tb
  assume "c \<noteq> Forwarded" "c = Direction_drop \<longleftrightarrow> dir = PKT_DIR_UNKNOWN"
    "output_admit out (file_flen out (ph_caplen h)) (ph_ts (slice_header (o_slice out) h)) dir
       = (False, out\<lparr>o_throttle := tb, o_stats := count_packet c (o_stats out) (file_flen out (ph_caplen h))\<rparr>)"
  then show thesis using dropped [of c tb]
    by (simp add: rotating_file_write_packet_def slice_header_len(1) file_flen_def Let_def)
next
  fix tb
  assume a: "dir \<noteq> PKT_DIR_UNKNOWN"
    "output_admit out (file_flen out (ph_caplen h)) (ph_ts (slice_header (o_slice out) h)) dir = (True, out\<lparr>o_throttle := tb\<rparr>)"
  obtain w out' env' where r: "rotate_file (out\<lparr>o_throttle := tb\<rparr>, env) = Some (w, out', env')" "rot_ok (out', env')"
      "w \<longrightarrow> rf_dumper out' \<noteq> None"
    using rotate_run [of "out\<lparr>o_throttle := tb\<rparr>" env] ok by (auto simp: rot_ok_def)
  show thesis
  proof (cases w)
    case True
    then obtain q sf where q: "rf_dumper out' = Some q" "fe_files env' q = Some sf"
      using r(2,3) by (auto simp: rot_ok_def)
    show thesis using written [OF a(1) _ q] a(2) r(1) q pcap_dump_run [OF q(2) len] True
      by (simp add: rotating_file_write_packet_def slice_header_len(1) file_flen_def Let_def)
  next
    case False
    then show thesis using failed [OF a(1)] a(2) r(1)
      by (simp add: rotating_file_write_packet_def slice_header_len(1) file_flen_def Let_def)
  qed
qed

interpretation rotating_out: counting_output rotating_file_write_packet "\<lambda>s. o_stats (fst s)"
  "\<lambda>s. file_flen (fst s)" rot_ok
proof
  fix s :: rotating_state and h d dir
  assume ok: "rot_ok s" and p: "packet_ok (h, d, dir)"
  obtain out env where s: "s = (out, env)" by fastforce
  let ?h = "slice_header (o_slice out) h"
  have len: "unat (ph_caplen ?h) \<le> length d"
    using p slice_header_len(2) [of "o_slice out" h] by (simp add: packet_ok_def)
  show "\<exists>out' c. rotating_file_write_packet s h d dir = Some (out', return_code c) \<and> rot_ok out' \<and>
       file_flen (fst out') = file_flen (fst s) \<and>
       o_stats (fst out') = count_packet c (o_stats (fst s)) (file_flen (fst s) (ph_caplen h)) \<and>
       (c = Direction_drop \<longleftrightarrow> dir = PKT_DIR_UNKNOWN)"
  proof (rule rotating_write_cases [OF ok [unfolded s] len, of dir])
    fix c tb
    assume a: "c \<noteq> Forwarded" "c = Direction_drop \<longleftrightarrow> dir = PKT_DIR_UNKNOWN"
      "rotating_file_write_packet (out, env) h d dir =
         Some ((out\<lparr>o_throttle := tb, o_stats := count_packet c (o_stats out) (file_flen out (ph_caplen h))\<rparr>, env), -1)"
    show ?thesis unfolding s a(3) using a(1,2) ok
      by (intro exI [of _ "(out\<lparr>o_throttle := tb, o_stats := count_packet c (o_stats out) (file_flen out (ph_caplen h))\<rparr>, env)"] exI [of _ c])
         (auto simp: return_code_def rot_ok_def s file_flen_def fun_eq_iff)
  next
    fix tb out' env'
    assume a: "dir \<noteq> PKT_DIR_UNKNOWN" "rotate_file (out\<lparr>o_throttle := tb\<rparr>, env) = Some (False, out', env')"
      "rotating_file_write_packet (out, env) h d dir = Some ((count_as Error_drop (file_flen out (ph_caplen h)) out', env'), -1)"
    have "rot_ok (out', env')" "same_core out out'"
      using rotate_run [of "out\<lparr>o_throttle := tb\<rparr>" env] ok a(2) by (auto simp: s rot_ok_def same_core_def)
    then show ?thesis unfolding s a(3) using a(1)
      by (intro exI [of _ "(count_as Error_drop (file_flen out (ph_caplen h)) out', env')"] exI [of _ Error_drop])
         (auto simp: return_code_def rot_ok_def file_flen_def fun_eq_iff count_as_def same_core_def)
  next
    fix tb out' env' q sf
    assume a: "dir \<noteq> PKT_DIR_UNKNOWN" "rotate_file (out\<lparr>o_throttle := tb\<rparr>, env) = Some (True, out', env')"
      "rf_dumper out' = Some q" "fe_files env' q = Some sf" and w:
      "rotating_file_write_packet (out, env) h d dir = Some ((count_as Forwarded (file_flen out (ph_caplen h)) out',
         env'\<lparr>fe_files := (fe_files env')(q \<mapsto> sf\<lparr>sf_records := sf_records sf @
            [(?h, take (unat (ph_caplen ?h)) d)]\<rparr>)\<rparr>), 0)" (is "_ = Some (?s', _)")
    have "rot_ok (out', env')" "same_core out out'"
      using rotate_run [of "out\<lparr>o_throttle := tb\<rparr>" env] ok a(2) by (auto simp: s rot_ok_def same_core_def)
    then show ?thesis unfolding s w using a(1,3)
      by (intro exI [of _ ?s'] exI [of _ Forwarded])
         (auto simp: return_code_def rot_ok_def file_flen_def fun_eq_iff count_as_def same_core_def)
  qed
qed

section \<open>Rotation loses no record\<close>

text \<open>Savefiles only grow.\<close>

definition files_grow :: "file_env \<Rightarrow> file_env \<Rightarrow> bool" where
  "files_grow env env' \<longleftrightarrow> (\<forall>p sf. fe_files env p = Some sf \<longrightarrow>
     (\<exists>sf'. fe_files env' p = Some sf' \<and> prefix (sf_records sf) (sf_records sf')))"

text \<open>Two clock readings never have the same local date and time (no local clock that is set back,
  as in a time zone without daylight saving).\<close>

definition names_distinct :: "file_env \<Rightarrow> bool" where
  "names_distinct env \<longleftrightarrow> (\<forall>m n. ymdhms (fe_localtime env (fe_clock env m)) = ymdhms (fe_localtime env (fe_clock env n)) \<longrightarrow>
     fe_clock env m = fe_clock env n)"

definition rot_own :: "rotating_state \<Rightarrow> bool" where
  "rot_own s \<longleftrightarrow> rot_ok s \<and> mono (fe_clock (snd s)) \<and> names_distinct (snd s) \<and>
     (rot_fresh (fst s) \<longrightarrow> fe_files (snd s) = Map.empty) \<and>
     (\<forall>p\<in>dom (fe_files (snd s)). \<exists>n. fe_clock (snd s) n \<le> rf_file_time (fst s) \<and>
        p = dump_path (rf_file_root (fst s)) (fe_localtime (snd s) (fe_clock (snd s) n)))"

lemma files_grow_refl: "files_grow env env"
  by (auto simp: files_grow_def)

lemma files_grow_trans: "files_grow a b \<Longrightarrow> files_grow b c \<Longrightarrow> files_grow a c"
  unfolding files_grow_def by (meson prefix_order.trans)

lemma rot_step_own:
  assumes own: "rot_own s" and step: "rot_step s s'" and ok: "rot_ok s'" and k: "env_keeps (snd s) (snd s')"
    and c: "same_core (fst s) (fst s')"
  shows "rot_own s' \<and> files_grow (snd s) (snd s')"
proof -
  obtain out env out' env' where s: "s = (out, env)" "s' = (out', env')" by fastforce
  have base: "rot_ok s'" "mono (fe_clock env')" "names_distinct env'" "rf_file_root out' = rf_file_root out"
    "fe_localtime env' = fe_localtime env" "fe_clock env' = fe_clock env"
    using own ok k c by (auto simp: rot_own_def s env_keeps_def names_distinct_def same_core_def)
  have tm: "tm_ok (fe_localtime env (fe_clock env n))" for n using own by (auto simp: rot_own_def rot_ok_def s)
  have fr: "rot_fresh out \<longrightarrow> fe_files env = Map.empty"
    and ex: "\<forall>p\<in>dom (fe_files env). \<exists>n. fe_clock env n \<le> rf_file_time out \<and>
       p = dump_path (rf_file_root out) (fe_localtime env (fe_clock env n))"
    using own unfolding rot_own_def s by simp_all
  let ?P = "dump_path (rf_file_root out) (fe_localtime env (rf_file_time out'))"
  consider (same) "rf_file_time out' = rf_file_time out" "fe_files env' = fe_files env" "\<not> rot_fresh out'"
    | (new) "rot_fresh out \<or> rf_file_time out < rf_file_time out'" "\<not> rot_fresh out'"
        "\<forall>q. q \<noteq> ?P \<longrightarrow> fe_files env' q = fe_files env q" "rf_file_time out' \<in> range (fe_clock env)"
    using step by (auto simp: rot_step_def s rot_fresh_def)
  then show ?thesis
  proof cases
    case same
    then show ?thesis using base ex files_grow_refl [of env] unfolding rot_own_def s files_grow_def by simp
  next
    case new
    obtain k where k: "rf_file_time out' = fe_clock env k" using new(4) by blast
    let ?made = "\<lambda>p. \<exists>n. fe_clock env n \<le> rf_file_time out' \<and> p = dump_path (rf_file_root out) (fe_localtime env (fe_clock env n))"
    have notP: "p \<noteq> ?P" "?made p"
      if m: "p \<in> dom (fe_files env)" for p
    proof -
      obtain n where n: "fe_clock env n \<le> rf_file_time out" "p = dump_path (rf_file_root out) (fe_localtime env (fe_clock env n))"
        using ex m by blast
      have "\<not> rot_fresh out" using fr m by auto
      then have lt: "fe_clock env n < rf_file_time out'" using n(1) new(1) by simp
      show "p \<noteq> ?P"
      proof
        assume "p = ?P"
        with n(2) have "dump_path (rf_file_root out) (fe_localtime env (fe_clock env n))
            = dump_path (rf_file_root out) (fe_localtime env (fe_clock env k))" by (simp only: k)
        then have "ymdhms (fe_localtime env (fe_clock env n)) = ymdhms (fe_localtime env (fe_clock env k))"
          by (rule dump_path_inj [OF tm tm])
        then have "fe_clock env n = fe_clock env k" using base(3,5,6) unfolding names_distinct_def by simp
        then show False using lt k by simp
      qed
      show "?made p" using less_imp_le [OF lt] n(2) by blast
    qed
    have "files_grow env env'"
      unfolding files_grow_def using new(3) notP(1) by (metis domI prefix_order.refl)
    moreover have "?made p" if "p \<in> dom (fe_files env')" for p
      using that new(3) notP(2) [of p] k by (metis domD domI order.refl)
    ultimately show ?thesis using base new(2) unfolding rot_own_def s by simp
  qed
qed

lemma rot_own_cong:
  assumes "rot_own (out, env)" "rf_dumper out' = rf_dumper out" "rf_dumper_error out' = rf_dumper_error out"
    "rf_file_time out' = rf_file_time out" "rf_file_root out' = rf_file_root out" "env_keeps env env'"
    "dom (fe_files env') = dom (fe_files env)"
  shows "rot_own (out', env')"
  using assms unfolding rot_own_def rot_ok_def rot_fresh_def env_keeps_def names_distinct_def
  by (simp flip: dom_eq_empty_conv)

lemma rotating_write_own:
  assumes own: "rot_own s" and p: "packet_ok (h, d, dir)" and w: "rotating_file_write_packet s h d dir = Some (s', r)"
  shows "rot_own s' \<and> files_grow (snd s) (snd s') \<and> o_slice (fst s') = o_slice (fst s) \<and>
    (r = 0 \<longrightarrow> (\<exists>q sf. fe_files (snd s') q = Some sf \<and> (slice_header (o_slice (fst s)) h,
        take (unat (ph_caplen (slice_header (o_slice (fst s)) h))) d) \<in> set (sf_records sf)))"
proof -
  obtain out env where s: "s = (out, env)" by fastforce
  let ?h = "slice_header (o_slice out) h"
  have ok: "rot_ok (out, env)" using own by (simp add: rot_own_def s)
  have len: "unat (ph_caplen ?h) \<le> length d"
    using p slice_header_len(2) [of "o_slice out" h] by (simp add: packet_ok_def)
  have own_tb: "rot_own (out\<lparr>o_throttle := tb\<rparr>, env)" for tb
    by (rule rot_own_cong [OF own [unfolded s]]) (simp_all add: env_keeps_def)
  have rot: "rot_own (out', env') \<and> files_grow env env' \<and> same_core out out'"
    if "rotate_file (out\<lparr>o_throttle := tb\<rparr>, env) = Some (b, out', env')" for tb b out' env'
    using rotate_run [of "out\<lparr>o_throttle := tb\<rparr>" env] that own_tb [of tb]
      rot_step_own [OF own_tb [of tb], of "(out', env')"]
    by (auto simp: rot_own_def same_core_def)
  show ?thesis
  proof (rule rotating_write_cases [OF ok len, of dir])
    fix c tb
    assume "c \<noteq> Forwarded" "rotating_file_write_packet (out, env) h d dir =
         Some ((out\<lparr>o_throttle := tb, o_stats := count_packet c (o_stats out) (file_flen out (ph_caplen h))\<rparr>, env), -1)"
      (is "_ = Some ((?out', _), _)")
    moreover have "rot_own (?out', env)"
      by (rule rot_own_cong [OF own [unfolded s]]) (simp_all add: env_keeps_def)
    ultimately show ?thesis using w files_grow_refl [of env] by (auto simp: s)
  next
    fix tb out' env'
    assume a: "rotate_file (out\<lparr>o_throttle := tb\<rparr>, env) = Some (False, out', env')"
      "rotating_file_write_packet (out, env) h d dir = Some ((count_as Error_drop (file_flen out (ph_caplen h)) out', env'), -1)"
    have r: "rot_own (out', env')" "files_grow env env'" "same_core out out'" using rot [OF a(1)] by auto
    have "rot_own (count_as Error_drop n out', env')" for n
      by (rule rot_own_cong [OF r(1)]) (simp_all add: env_keeps_def count_as_def)
    then show ?thesis using w a(2) r by (auto simp: s count_as_def same_core_def)
  next
    fix tb out' env' q sf
    assume a: "rotate_file (out\<lparr>o_throttle := tb\<rparr>, env) = Some (True, out', env')"
      "rf_dumper out' = Some q" "fe_files env' q = Some sf" and wr:
      "rotating_file_write_packet (out, env) h d dir = Some ((count_as Forwarded (file_flen out (ph_caplen h)) out',
         env'\<lparr>fe_files := (fe_files env')(q \<mapsto> sf\<lparr>sf_records := sf_records sf @
            [(?h, take (unat (ph_caplen ?h)) d)]\<rparr>)\<rparr>), 0)" (is "_ = Some ((_, ?env'), _)")
    have r: "rot_own (out', env')" "files_grow env env'" "same_core out out'" using rot [OF a(1)] by auto
    have "files_grow env' ?env'" using a(3) by (auto simp: files_grow_def)
    moreover have "rot_own (count_as Forwarded n out', ?env')" for n
      by (rule rot_own_cong [OF r(1)]) (use a(3) in \<open>auto simp: env_keeps_def count_as_def\<close>)
    ultimately show ?thesis using w wr r(3) files_grow_trans [OF r(2)]
      by (auto simp: s count_as_def same_core_def)
  qed
qed

lemma rotating_run_own:
  assumes "rot_own s" "\<forall>p\<in>set ps. packet_ok p" "send_seq rotating_file_write_packet s ps = Some (s', rs)"
  shows "files_grow (snd s) (snd s') \<and> length rs = length ps \<and> (\<forall>i < length ps. rs ! i = 0 \<longrightarrow>
    (\<exists>q sf. fe_files (snd s') q = Some sf \<and> (slice_header (o_slice (fst s)) (fst (ps ! i)),
      take (unat (ph_caplen (slice_header (o_slice (fst s)) (fst (ps ! i))))) (fst (snd (ps ! i)))) \<in> set (sf_records sf)))"
  using assms
proof (induction ps arbitrary: s rs)
  case Nil
  then show ?case by (simp add: files_grow_refl)
next
  case (Cons p ps)
  obtain h d dir where p: "p = (h, d, dir)" by (cases p)
  obtain s1 r rs1 where w: "rotating_file_write_packet s h d dir = Some (s1, r)"
     "send_seq rotating_file_write_packet s1 ps = Some (s', rs1)" "rs = r # rs1"
    using Cons.prems(3) by (auto simp: p split: Option.bind_splits)
  note own = rotating_write_own [OF Cons.prems(1) _ w(1)]
  have o1: "rot_own s1" "files_grow (snd s) (snd s1)" "o_slice (fst s1) = o_slice (fst s)"
    using own Cons.prems(2) by (auto simp: p)
  note IH = Cons.IH [OF o1(1) _ w(2)]
  have g: "files_grow (snd s1) (snd s')" using IH Cons.prems(2) by simp
  show ?case
  proof (intro conjI allI impI)
    show "files_grow (snd s) (snd s')" by (rule files_grow_trans [OF o1(2) g])
    show "length rs = length (p # ps)" using IH Cons.prems(2) by (simp add: w(3))
    fix i assume i: "i < length (p # ps)" "rs ! i = 0"
    let ?stored = "\<lambda>s' h d. \<exists>q sf. fe_files (snd s') q = Some sf \<and> (slice_header (o_slice (fst s)) h,
      take (unat (ph_caplen (slice_header (o_slice (fst s)) h))) d) \<in> set (sf_records sf)"
    show "?stored s' (fst ((p # ps) ! i)) (fst (snd ((p # ps) ! i)))"
    proof (cases i)
      case 0
      then have "?stored s1 h d" using own i Cons.prems(2) by (auto simp: p w(3))
      then show ?thesis using g set_mono_prefix unfolding files_grow_def 0 p by fastforce
    next
      case (Suc j)
      then show ?thesis using IH Cons.prems(2) i o1(3) by (simp add: w(3))
    qed
  qed
qed


definition sample_env :: file_env where
  "sample_env = \<lparr>fe_ok = \<lambda>_. True, fe_clock = \<lambda>n. min (int n) 59,
     fe_localtime = \<lambda>t. \<lparr>tm_year = 125, tm_mon = 10, tm_mday = 15, tm_hour = 7, tm_min = 30, tm_sec = t\<rparr>,
     fe_calls = 0, fe_files = Map.empty\<rparr>"

definition sample_packet :: packet where
  "sample_packet = (\<lparr>ph_ts = \<lparr>tv_sec = 1, tv_usec = 0\<rparr>, ph_caplen = 4, ph_len = 4\<rparr>, [1, 2, 3, 4], 1)"

definition sample_rotating :: rotating_file_output where
  "sample_rotating = \<lparr>o_stats = output_stats_zero, o_rate_limit_mbps = 0, o_throttle = token_bucket_zero, o_slice = 2,
     rf_file_root = ''/d'', rf_max_file_interval = 5, rf_snaplen = 2, rf_file_time = 0, rf_dumper_error = False, rf_dumper = None\<rparr>"

lemma pad2_inj: "0 \<le> a \<Longrightarrow> 0 \<le> b \<Longrightarrow> pad2 a = pad2 b \<Longrightarrow> a = b"
proof -
  have n: "dec_nat (nat i) \<noteq> ''0'' @ dec_nat (nat j)" if "10 \<le> i" "0 \<le> j" "j < 10" for i j
  proof -
    have "dec_nat (nat i) = dec_nat (nat i div 10) @ [digit_char (nat i mod 10)]"
      using that(1) by (subst dec_nat.simps) simp
    moreover have "dec_nat 0 = ''0''" by code_simp
    then have "dec_nat (nat i div 10) \<noteq> ''0''"
      using dec_nat_inj [of "nat i div 10" 0] that(1) by simp
    ultimately show ?thesis using that(2,3) by (simp add: dec_nat.simps [of "nat j"])
  qed
  assume "0 \<le> a" "0 \<le> b" "pad2 a = pad2 b"
  then show "a = b"
    using n [of a b] n [of b a] dec_nat_inj [of "nat a" "nat b"]
    by (auto simp: pad2_def dec_int_def eq_nat_nat_iff split: if_splits)
qed

lemma sample_new: "rotating_file_output_new ''/d'' 5 65535 2 0 output_stats_zero sample_env
    = (Inr sample_rotating, sample_env\<lparr>fe_calls := 3\<rparr>)"
  by (simp add: rotating_file_output_new_def sys_call_def sample_env_def sample_rotating_def new_throttle_def file_output_snaplen_def)

lemma sample_codes: "map_option snd (send_seq rotating_file_write_packet (sample_rotating, sample_env\<lparr>fe_calls := 3\<rparr>)
    [sample_packet]) = Some [0]"
  by code_simp



end
