(* ===== verification/Output_Gre.thy ===== *)
theory Output_Gre
  imports Output_Common
begin

text \<open>
  \<open>output_gre.c\<close>: each packet leaves in one GRE datagram whose key carries the direction in its
  high four bits and the service tag in the low 28 bits.
\<close>

definition GRE_HEADER_LEN :: nat where "GRE_HEADER_LEN = 8"
definition GRE_MAX_FRAME_LEN :: u64 where "GRE_MAX_FRAME_LEN = 65535"
definition GRE_OUTPUT_BUFSIZE :: nat where "GRE_OUTPUT_BUFSIZE = 65551"

record gre_output = output_core +
  g_service_tag :: u32
  g_buf :: bytes
  g_error_info :: error_info

type_synonym gre_state = "gre_output \<times> socket_env"

definition gre_output_new ::
  "string \<Rightarrow> u32 \<Rightarrow> string option \<Rightarrow> int \<Rightarrow> u64 \<Rightarrow> int \<Rightarrow> output_stats \<Rightarrow> socket_setup \<Rightarrow> string + gre_output" where
  "gre_output_new host service_tag bind_device pmtudisc mbps sl st ss =
    (if \<not> ss_inet_pton ss then Inl (''invalid gre host: '' @ host)
     else if \<not> ss_socket ss then Inl ''create socket error''
     else if bind_device \<noteq> None \<and> bind_device \<noteq> Some [] \<and> \<not> ss_bind_device ss
     then Inl (''set SO_BINDTODEVICE for device '' @ the bind_device @ '' error'')
     else if pmtudisc \<ge> 0 \<and> \<not> ss_mtu_discover ss then Inl ''set IP_MTU_DISCOVER error''
     else if \<not> ss_calloc ss then Inl ''failed to allocate memory for gre_output_t''
     else
       let gre_hdr = be16 0x2000 @ be16 0x6558 @ be32 service_tag
       in Inr \<lparr>o_stats = st, o_rate_limit_mbps = mbps, o_throttle = new_throttle mbps, o_slice = sl,
               g_service_tag = service_tag, g_buf = put (replicate GRE_OUTPUT_BUFSIZE 0) 0 gre_hdr,
               g_error_info = error_info_zero\<rparr>)"

definition gre_key :: "u32 \<Rightarrow> int \<Rightarrow> u32" where
  "gre_key service_tag direct = (service_tag AND 0x0FFFFFFF) OR push_bit 28 (word_of_int direct)"

definition gre_send_packet :: "gre_state \<Rightarrow> pcap_pkthdr \<Rightarrow> bytes \<Rightarrow> int \<Rightarrow> (gre_state \<times> int) option" where
  "gre_send_packet s header pkt_data direct =
    (let (out, sk) = s;
         frame_len = output_frame_len (ph_caplen header) (o_slice out) GRE_MAX_FRAME_LEN;
         (admitted, out) = output_admit out frame_len (ph_ts header) direct
     in if \<not> admitted then Some ((out, sk), -1)
        else do {
          buf \<leftarrow> wr_bytes (g_buf out) 4 (be32 (gre_key (g_service_tag out) direct));
          frame \<leftarrow> rd_bytes pkt_data 0 (unat frame_len);
          buf \<leftarrow> wr_bytes buf GRE_HEADER_LEN frame;
          datagram \<leftarrow> rd_bytes buf 0 (GRE_HEADER_LEN + unat frame_len);
          let ei = check_error_info (tv_sec (ph_ts header)) (g_error_info out);
          let (sent, sk, ei) = send_loop datagram 0 (sk, ei);
          let out = out\<lparr>g_buf := buf, g_error_info := ei\<rparr>;
          if sent then Some ((count_as Forwarded frame_len out, sk), 0)
          else Some ((count_as Error_drop frame_len out, sk), -1) })"

section \<open>The datagram\<close>

definition gre_ok :: "gre_state \<Rightarrow> bool" where
  "gre_ok s \<longleftrightarrow> length (g_buf (fst s)) = GRE_OUTPUT_BUFSIZE \<and> take 4 (g_buf (fst s)) = be16 0x2000 @ be16 0x6558"

definition gre_flen :: "'a output_core_scheme \<Rightarrow> u32 \<Rightarrow> u64" where
  "gre_flen out n = output_frame_len n (o_slice out) GRE_MAX_FRAME_LEN"

definition gre_datagram :: "u32 \<Rightarrow> int \<Rightarrow> bytes \<Rightarrow> bytes" where
  "gre_datagram service_tag direct frame =
     [0x20, 0, 0x65, 0x58] @ be32 (gre_key service_tag direct) @ frame"

lemma gre_flen_le: "unat (gre_flen out n) \<le> unat n" "unat (gre_flen out n) \<le> 65535"
  using frame_len_le [of n "o_slice out" GRE_MAX_FRAME_LEN] by (simp_all add: gre_flen_def GRE_MAX_FRAME_LEN_def)

text \<open>An admitted packet fills the buffer with the header, the key and the frame, and exactly these
  bytes go to the socket.\<close>

lemma gre_fill:
  assumes "length buf = GRE_OUTPUT_BUFSIZE" "take 4 buf = be16 0x2000 @ be16 0x6558" "length frame \<le> 65535"
  shows "\<exists>buf'. do { buf \<leftarrow> wr_bytes buf 4 (be32 k); wr_bytes buf GRE_HEADER_LEN frame } = Some buf' \<and>
    length buf' = GRE_OUTPUT_BUFSIZE \<and> take (8 + length frame) buf' = [0x20, 0, 0x65, 0x58] @ be32 k @ frame"
proof -
  let ?b1 = "put buf 4 (be32 k)" and ?b2 = "put (put buf 4 (be32 k)) 8 frame"
  have l: "length buf = 65551" using assms(1) by (simp add: GRE_OUTPUT_BUFSIZE_def)
  have l1: "length ?b1 = 65551" using l by simp
  have "take 8 ?b1 = take 4 buf @ be32 k" using take_put_append [of 4 "be32 k" buf] l by simp
  then have "take (8 + length frame) ?b2 = (take 4 buf @ be32 k) @ frame"
    using take_put_append [of 8 frame ?b1] l1 assms(3) by simp
  moreover have "be16 0x2000 @ be16 0x6558 = [0x20, 0, 0x65, 0x58]" by (simp add: be16_def)
  moreover have "wr_bytes buf 4 (be32 k) = Some ?b1" "wr_bytes ?b1 8 frame = Some ?b2"
    using l l1 assms(3) by (simp_all add: wr_bytes_in)
  ultimately show ?thesis using assms(2,3) l1 by (simp add: GRE_HEADER_LEN_def GRE_OUTPUT_BUFSIZE_def)
qed

lemma gre_send_cases:
  assumes ok: "gre_ok (out, sk)" and len: "unat (ph_caplen h) \<le> length d"
  obtains (dropped) c tb where "c \<noteq> Forwarded" "c = Direction_drop \<longleftrightarrow> dir = PKT_DIR_UNKNOWN"
      "gre_send_packet (out, sk) h d dir =
         Some ((out\<lparr>o_throttle := tb, o_stats := count_packet c (o_stats out) (gre_flen out (ph_caplen h))\<rparr>, sk), -1)"
  | (sent) tb sent sk' ei' buf where "dir \<noteq> PKT_DIR_UNKNOWN"
      "send_loop (gre_datagram (g_service_tag out) dir (take (unat (gre_flen out (ph_caplen h))) d)) 0
         (sk, check_error_info (tv_sec (ph_ts h)) (g_error_info out)) = (sent, sk', ei')"
      "length buf = GRE_OUTPUT_BUFSIZE" "take 4 buf = be16 0x2000 @ be16 0x6558"
      "gre_send_packet (out, sk) h d dir = Some ((count_as (if sent then Forwarded else Error_drop) (gre_flen out (ph_caplen h))
         (out\<lparr>o_throttle := tb, g_buf := buf, g_error_info := ei'\<rparr>), sk'), if sent then 0 else -1)"
proof (rule output_admit_cases [of dir out "gre_flen out (ph_caplen h)" "ph_ts h"])
  fix c tb
  assume "c \<noteq> Forwarded" "c = Direction_drop \<longleftrightarrow> dir = PKT_DIR_UNKNOWN"
    "output_admit out (gre_flen out (ph_caplen h)) (ph_ts h) dir
       = (False, out\<lparr>o_throttle := tb, o_stats := count_packet c (o_stats out) (gre_flen out (ph_caplen h))\<rparr>)"
  then show thesis using dropped [of c tb] by (simp add: gre_send_packet_def gre_flen_def Let_def)
next
  fix tb
  assume a: "dir \<noteq> PKT_DIR_UNKNOWN" "output_admit out (gre_flen out (ph_caplen h)) (ph_ts h) dir = (True, out\<lparr>o_throttle := tb\<rparr>)"
  let ?n = "unat (gre_flen out (ph_caplen h))" and ?dg = "gre_datagram (g_service_tag out) dir (take (unat (gre_flen out (ph_caplen h))) d)"
  have n: "?n \<le> length d" "?n \<le> 65535" using gre_flen_le [of out "ph_caplen h"] len by simp_all
  then have lt: "length (take ?n d) = ?n" by simp
  obtain buf where b: "do { buf \<leftarrow> wr_bytes (g_buf out) 4 (be32 (gre_key (g_service_tag out) dir)); wr_bytes buf GRE_HEADER_LEN (take ?n d) } = Some buf"
      "length buf = GRE_OUTPUT_BUFSIZE" "take (8 + length (take ?n d)) buf = ?dg"
    using gre_fill [of "g_buf out" "take ?n d" "gre_key (g_service_tag out) dir"] ok n
    unfolding gre_ok_def gre_datagram_def lt by auto
  obtain b1 where b1: "wr_bytes (g_buf out) 4 (be32 (gre_key (g_service_tag out) dir)) = Some b1"
      "wr_bytes b1 GRE_HEADER_LEN (take ?n d) = Some buf" using b(1) by (auto split: Option.bind_splits)
  have rd: "rd_bytes buf 0 (GRE_HEADER_LEN + ?n) = Some ?dg" "rd_bytes d 0 ?n = Some (take ?n d)"
    using b(2,3) n by (simp_all add: rd_bytes_in GRE_HEADER_LEN_def GRE_OUTPUT_BUFSIZE_def)
  have "take 4 buf = take 4 (take (8 + length (take ?n d)) buf)" by simp
  then have t4: "take 4 buf = be16 0x2000 @ be16 0x6558" unfolding b(3) by (simp add: gre_datagram_def be16_def)
  obtain sent sk' ei' where sl: "send_loop ?dg 0 (sk, check_error_info (tv_sec (ph_ts h)) (g_error_info out)) = (sent, sk', ei')"
    by (metis prod_cases3)
  show thesis
    by (rule sent [OF a(1) sl b(2) t4, of tb])
       (use a(2) b1 rd sl in \<open>simp add: gre_send_packet_def gre_flen_def Let_def\<close>)
qed

interpretation gre_out: counting_output gre_send_packet "\<lambda>s. o_stats (fst s)" "\<lambda>s. gre_flen (fst s)" gre_ok
proof
  fix s :: gre_state and h d dir
  assume ok: "gre_ok s" and p: "packet_ok (h, d, dir)"
  obtain out sk where s: "s = (out, sk)" by fastforce
  have len: "unat (ph_caplen h) \<le> length d" using p by (simp add: packet_ok_def)
  show "\<exists>out' c. gre_send_packet s h d dir = Some (out', return_code c) \<and> gre_ok out' \<and>
       gre_flen (fst out') = gre_flen (fst s) \<and>
       o_stats (fst out') = count_packet c (o_stats (fst s)) (gre_flen (fst s) (ph_caplen h)) \<and>
       (c = Direction_drop \<longleftrightarrow> dir = PKT_DIR_UNKNOWN)"
  proof (rule gre_send_cases [OF ok [unfolded s] len, of dir])
    fix c tb
    assume a: "c \<noteq> Forwarded" "c = Direction_drop \<longleftrightarrow> dir = PKT_DIR_UNKNOWN" "gre_send_packet (out, sk) h d dir =
         Some ((out\<lparr>o_throttle := tb, o_stats := count_packet c (o_stats out) (gre_flen out (ph_caplen h))\<rparr>, sk), -1)"
      (is "_ = Some (?s', _)")
    show ?thesis unfolding s a(3) using a(1,2) ok
      by (intro exI [of _ ?s'] exI [of _ c]) (auto simp: return_code_def gre_ok_def s gre_flen_def fun_eq_iff)
  next
    fix tb sent sk' ei' buf
    assume a: "dir \<noteq> PKT_DIR_UNKNOWN" "length buf = GRE_OUTPUT_BUFSIZE" "take 4 buf = be16 0x2000 @ be16 0x6558"
      "gre_send_packet (out, sk) h d dir = Some ((count_as (if sent then Forwarded else Error_drop) (gre_flen out (ph_caplen h))
         (out\<lparr>o_throttle := tb, g_buf := buf, g_error_info := ei'\<rparr>), sk'), if sent then 0 else -1)"
      (is "_ = Some (?s', _)")
    show ?thesis unfolding s a(4) using a(1-3)
      by (intro exI [of _ ?s'] exI [of _ "if sent then Forwarded else Error_drop"])
         (auto simp: return_code_def gre_ok_def gre_flen_def fun_eq_iff count_as_def)
  qed
qed

section \<open>Wire format\<close>

lemma gre_key_fields:
  assumes "dir \<in> {0, 1, 2}"
  shows "drop_bit 28 (gre_key tag dir) = word_of_int dir" "gre_key tag dir AND 0x0FFFFFFF = tag AND 0x0FFFFFFF"
proof -
  have m: "0x0FFFFFFF = (mask 28 :: u32)" by (simp add: mask_eq_exp_minus_1)
  have small: "\<not> bit (word_of_int dir :: u32) n" if "2 \<le> n" for n
  proof -
    have "(word_of_int dir :: u32) = take_bit 2 (word_of_int dir)"
      using assms by (auto simp: take_bit_eq_mask mask_eq_exp_minus_1)
    then show ?thesis using that by (metis bit_take_bit_iff not_less)
  qed
  show "drop_bit 28 (gre_key tag dir) = word_of_int dir"
    unfolding gre_key_def m
  proof (rule bit_word_eqI)
    fix n assume "n < LENGTH(32)"
    then show "bit (drop_bit 28 (tag AND mask 28 OR push_bit 28 (word_of_int dir))) n = bit (word_of_int dir :: u32) n"
      using small [of n] by (cases "n < 4") (auto simp: bit_simps)
  qed
  show "gre_key tag dir AND 0x0FFFFFFF = tag AND 0x0FFFFFFF"
    unfolding gre_key_def m by (intro bit_word_eqI) (auto simp: bit_simps)
qed

lemma gre_new_ok: "gre_output_new host tag dev pm mbps sl st ss = Inr out \<Longrightarrow> gre_ok (out, sk)"
  by (auto simp: gre_output_new_def gre_ok_def Let_def put_def GRE_OUTPUT_BUFSIZE_def split: if_splits)



end
