(* ===== verification/Output_Vxlan.thy ===== *)
theory Output_Vxlan
  imports Output_Common Packet_Split
begin

text \<open>
  \<open>output_vxlan.c\<close>: each packet leaves in one VXLAN datagram, or in one per fragment when splitting is
  configured.  Bytes 4 to 7 of the VXLAN header carry a private tag in one of two formats; the
  first one ends in a check byte over the first 42 bytes of the send buffer.
\<close>

definition VXLAN_HEADER_LEN :: nat where "VXLAN_HEADER_LEN = 8"
definition VXLAN_MAX_FRAME_LEN :: u64 where "VXLAN_MAX_FRAME_LEN = 65535"
definition VXLAN_OUTPUT_BUFSIZE :: nat where "VXLAN_OUTPUT_BUFSIZE = 65551"

section \<open>The check byte\<close>

fun rte_loop4 :: "bytes \<Rightarrow> nat \<Rightarrow> nat \<Rightarrow> u32 \<Rightarrow> (nat \<times> nat \<times> u32) option" where
  "rte_loop4 buf p len acc =
    (if len \<ge> 8 then do { acc \<leftarrow> add_u16s buf p 4 acc; rte_loop4 buf (p + 8) (len - 8) acc }
     else Some (p, len, acc))"

fun rte_loop2 :: "bytes \<Rightarrow> nat \<Rightarrow> nat \<Rightarrow> u32 \<Rightarrow> (nat \<times> nat \<times> u32) option" where
  "rte_loop2 buf p len acc =
    (if len \<ge> 2 then do { w \<leftarrow> ld16 buf p; rte_loop2 buf (p + 2) (len - 2) (acc + ucast w) }
     else Some (p, len, acc))"

declare rte_loop4.simps [simp del] rte_loop2.simps [simp del]

definition rte_raw_cksum_part :: "bytes \<Rightarrow> nat \<Rightarrow> nat \<Rightarrow> u32 \<Rightarrow> u32 option" where
  "rte_raw_cksum_part buf p len acc = do {
     (p, len, acc) \<leftarrow> rte_loop4 buf p len acc;
     (p, len, acc) \<leftarrow> rte_loop2 buf p len acc;
     if len = 1 then do { b \<leftarrow> rd8 buf p; Some (acc + ucast b) } else Some acc }"

definition rte_raw_cksum_reduce :: "u32 \<Rightarrow> u16" where
  "rte_raw_cksum_reduce s0 =
    (let s1 = drop_bit 16 (s0 AND 0xFFFF0000) + (s0 AND 0xFFFF);
         s2 = drop_bit 16 (s1 AND 0xFFFF0000) + (s1 AND 0xFFFF)
     in ucast s2)"

definition rte_raw_cksum :: "bytes \<Rightarrow> nat \<Rightarrow> nat \<Rightarrow> u16 option" where
  "rte_raw_cksum buf p len = do { s \<leftarrow> rte_raw_cksum_part buf p len 0x4a3b2d1c; Some (rte_raw_cksum_reduce s) }"

section \<open>The output\<close>

record vxlan_output = output_core +
  v_vni_version :: u8
  v_vni :: u32
  v_capture_time :: bool
  v_buf :: bytes
  v_max_payload_size :: u16
  v_recalculate_checksum :: bool
  v_fragment_buf :: bytes
  v_error_info :: error_info

type_synonym vxlan_state = "vxlan_output \<times> socket_env"

record vxlan_options =
  vo_host :: string
  vo_capture_time :: bool
  vo_vni_version :: u8
  vo_vni :: u32
  vo_bind_device :: "string option"
  vo_pmtudisc :: int
  vo_rate_limit_mbps :: u64
  vo_slice :: int
  vo_max_payload_size :: u16
  vo_recalculate_checksum :: bool

definition vxlan_output_new :: "vxlan_options \<Rightarrow> output_stats \<Rightarrow> socket_setup \<Rightarrow> string + vxlan_output" where
  "vxlan_output_new opts st ss =
    (if \<not> ss_inet_pton ss then Inl (''invalid vxlan host: '' @ vo_host opts)
     else if \<not> ss_socket ss then Inl ''create socket error''
     else if vo_bind_device opts \<noteq> None \<and> vo_bind_device opts \<noteq> Some [] \<and> \<not> ss_bind_device ss
     then Inl (''set SO_BINDTODEVICE for device '' @ the (vo_bind_device opts) @ '' error'')
     else if vo_pmtudisc opts \<ge> 0 \<and> \<not> ss_mtu_discover ss then Inl ''set IP_MTU_DISCOVER error''
     else if \<not> ss_calloc ss then Inl ''failed to allocate memory for vxlan_output_t''
     else
       let vxlan_hdr = be32 0x08000000 @ be32 (push_bit 8 (vo_vni opts))
       in Inr \<lparr>o_stats = st, o_rate_limit_mbps = vo_rate_limit_mbps opts, o_throttle = new_throttle (vo_rate_limit_mbps opts),
               o_slice = vo_slice opts, v_vni_version = vo_vni_version opts, v_vni = vo_vni opts,
               v_capture_time = vo_capture_time opts, v_buf = put (replicate VXLAN_OUTPUT_BUFSIZE 0) 0 vxlan_hdr,
               v_max_payload_size = vo_max_payload_size opts, v_recalculate_checksum = vo_recalculate_checksum opts,
               v_fragment_buf = replicate VXLAN_OUTPUT_BUFSIZE 0, v_error_info = error_info_zero\<rparr>)"

text \<open>The four tag bytes as stores through \<open>pa_tag_t\<close> leave them on a little-endian host: the first
  bit-field of a byte is its low nibble.\<close>

definition pa_tag_direction :: "int \<Rightarrow> bytes \<Rightarrow> bytes" where
  "pa_tag_direction direct tag =
    (let b0 = (tag ! 0 AND 0x0F) OR push_bit 4 (word_of_int direct AND 0x0F); \<comment> \<open>\<open>rra\<close>\<close>
         b0 = b0 AND 0xF0;                                                       \<comment> \<open>\<open>reserved1\<close>\<close>
         b1 = tag ! 1 AND 0x0F                                                   \<comment> \<open>\<open>reserved2\<close>\<close>
     in [b0, b1, tag ! 2, 0])"

definition write_tag :: "vxlan_output \<Rightarrow> int \<Rightarrow> bytes \<Rightarrow> bytes option" where
  "write_tag out direct buf =
    (if v_vni_version out = 1 then do {
       let tag = be32 (push_bit 8 (v_vni out));
       let tag = (if direct \<noteq> PKT_DIR_NONCHECK then pa_tag_direction direct tag else tag);
       buf \<leftarrow> wr_bytes buf 4 tag;
       ck \<leftarrow> rte_raw_cksum buf 0 (8 + 14 + 20);
       wr_bytes buf 7 [ucast ck] }
     else wr_bytes buf 4 (be32 (v_vni out + word_of_int direct)))"

definition write_body :: "vxlan_output \<Rightarrow> timeval \<Rightarrow> bytes \<Rightarrow> nat \<Rightarrow> (bytes \<times> nat) option" where
  "write_body out ts frame frame_len = do {
     buf \<leftarrow> wr_bytes (v_buf out) VXLAN_HEADER_LEN frame;
     if v_capture_time out then do {
       buf \<leftarrow> wr_bytes buf (VXLAN_HEADER_LEN + frame_len) (be32 (word_of_int (tv_sec ts)));
       buf \<leftarrow> wr_bytes buf (VXLAN_HEADER_LEN + (frame_len + 4)) (be32 (word_of_int (tv_usec ts * 1000)));
       Some (buf, frame_len + 4 + 4) }
     else Some (buf, frame_len) }"

definition do_send_packet ::
  "vxlan_state \<Rightarrow> timeval \<Rightarrow> bytes \<Rightarrow> nat \<Rightarrow> int \<Rightarrow> (vxlan_state \<times> int) option" where
  "do_send_packet s ts pkt_data frame_len direct =
    (let (out, sk) = s in do {
       frame \<leftarrow> rd_bytes pkt_data 0 frame_len;
       (buf, payload_len) \<leftarrow> write_body out ts frame frame_len;
       buf \<leftarrow> write_tag out direct buf;
       datagram \<leftarrow> rd_bytes buf 0 (VXLAN_HEADER_LEN + payload_len);
       let (sent, sk, ei) = send_loop datagram 0 (sk, v_error_info out);
       Some ((out\<lparr>v_buf := buf, v_error_info := ei\<rparr>, sk), if sent then 0 else -1) })"

text \<open>The fragment loop of \<open>send_whole_or_split\<close>: \<open>n\<close> fragments from index \<open>i\<close> on.\<close>

fun send_fragments ::
  "bool \<Rightarrow> vxlan_state \<Rightarrow> pcap_pkthdr \<Rightarrow> bytes \<Rightarrow> packet_parse_result \<Rightarrow> int \<Rightarrow> nat \<Rightarrow> nat \<Rightarrow> (vxlan_state \<times> int) option" where
  "send_fragments sse2 s header pkt_data parse_result direct i 0 = Some (s, 0)"
| "send_fragments sse2 s header pkt_data parse_result direct i (Suc n) = (case s of (out, sk) \<Rightarrow> do {
     (frag_len, fragment_buf) \<leftarrow> build_fragment sse2 parse_result pkt_data (int i) (int (unat (v_max_payload_size out)))
        (v_recalculate_checksum out) (v_fragment_buf out);
     let out = out\<lparr>v_fragment_buf := fragment_buf\<rparr>;
     if frag_len \<le> 0 then Some ((out, sk), -1)
     else do {
       (s, r) \<leftarrow> do_send_packet (out, sk) (ph_ts header) fragment_buf (nat frag_len) direct;
       if r \<noteq> 0 then Some (s, -1)
       else send_fragments sse2 s header pkt_data parse_result direct (i + 1) n } })"

definition send_whole_or_split ::
  "bool \<Rightarrow> vxlan_state \<Rightarrow> pcap_pkthdr \<Rightarrow> bytes \<Rightarrow> nat \<Rightarrow> int \<Rightarrow> (vxlan_state \<times> int) option" where
  "send_whole_or_split sse2 s header pkt_data frame_len direct =
    (let mx = v_max_payload_size (fst s) in
     if mx \<le> 0 \<or> frame_len \<le> unat mx then do_send_packet s (ph_ts header) pkt_data frame_len direct
     else do {
       (parsed, parse_result) \<leftarrow> parse_packet pkt_data (of_nat frame_len);
       if \<not> parsed then do_send_packet s (ph_ts header) pkt_data frame_len direct
       else
         let fragment_count = calculate_fragment_count parse_result (int (unat mx))
         in if fragment_count = 1 then do_send_packet s (ph_ts header) pkt_data frame_len direct
            else send_fragments sse2 s header pkt_data parse_result direct 0 (nat fragment_count) })"

definition vxlan_send_packet :: "bool \<Rightarrow> vxlan_state \<Rightarrow> pcap_pkthdr \<Rightarrow> bytes \<Rightarrow> int \<Rightarrow> (vxlan_state \<times> int) option" where
  "vxlan_send_packet sse2 s header pkt_data direct =
    (let (out, sk) = s;
         frame_len = output_frame_len (ph_caplen header) (o_slice out) VXLAN_MAX_FRAME_LEN;
         (admitted, out) = output_admit out frame_len (ph_ts header) direct
     in if \<not> admitted then Some ((out, sk), -1)
        else do {
          let out = out\<lparr>v_error_info := check_error_info (tv_sec (ph_ts header)) (v_error_info out)\<rparr>;
          ((out, sk), r) \<leftarrow> send_whole_or_split sse2 (out, sk) header pkt_data (unat frame_len) direct;
          if r \<noteq> 0 then Some ((count_as Error_drop frame_len out, sk), -1)
          else Some ((count_as Forwarded frame_len out, sk), 0) })"

section \<open>The check byte is the documented one\<close>

text \<open>The documented computation: the little-endian byte pairs added to a constant, folded twice.\<close>

definition doc_check :: "bytes \<Rightarrow> u8" where
  "doc_check bs = ucast (cksum_fold (0x4a3b2d1c + of_nat (sum16 bs)))"

lemma rte_reduce_fold: "rte_raw_cksum_reduce s = cksum_fold s"
proof -
  have "drop_bit 16 (w AND 0xFFFF0000) = drop_bit 16 w" for w :: u32
  proof -
    have m: "(0xFFFF0000 :: u32) = push_bit 16 (mask 16)" by (simp add: mask_eq_exp_minus_1 push_bit_eq_mult)
    show ?thesis unfolding m by (intro bit_word_eqI) (auto simp: bit_simps dest: bit_imp_le_length)
  qed
  then show ?thesis by (simp add: rte_raw_cksum_reduce_def cksum_fold_def)
qed

lemma rte_loop2_eq: "rte_loop2 buf p len s = cksum_loop2 buf p len s"
proof (induction buf p len s rule: rte_loop2.induct)
  case (1 buf p len s)
  show ?case
    using 1 by (subst rte_loop2.simps, subst cksum_loop2.simps) (cases "ld16 buf p"; simp)
qed

lemma rte_loop4_consumes: "p + len \<le> length buf \<Longrightarrow> consumes buf p len s (rte_loop4 buf p len s)"
proof (induction buf p len s rule: rte_loop4.induct)
  case (1 buf p len s)
  show ?case
  proof (cases "8 \<le> len")
    case True
    have step: "add_u16s buf p 4 s = Some (s + of_nat (s16 buf p 8))"
      using add_u16s_correct [of p 4 buf s] 1(2) True by simp
    obtain k where k: "even k" "k \<le> len - 8"
      "rte_loop4 buf (p + 8) (len - 8) (s + of_nat (s16 buf p 8)) =
         Some (p + 8 + k, len - 8 - k, s + of_nat (s16 buf p 8) + of_nat (s16 buf (p + 8) k))"
      using 1(1) [OF True step] 1(2) True unfolding consumes_def by auto
    have "s16 buf p (8 + k) = s16 buf p 8 + s16 buf (p + 8) k"
      using s16_split [of 8 "8 + k" p buf] k 1(2) True by simp
    with k step True show ?thesis
      unfolding consumes_def rte_loop4.simps [of buf p len]
      by (intro exI [of _ "8 + k"]) (simp add: add.assoc)
  qed (simp add: rte_loop4.simps [of buf p len] consumes_refl)
qed

lemma rte_cksum:
  assumes "p + len \<le> length buf"
  shows "rte_raw_cksum buf p len = Some (cksum_fold (0x4a3b2d1c + of_nat (s16 buf p len)))"
  using finish_sum16 [OF rte_loop4_consumes [OF assms] assms, of "\<lambda>n. n = 1" "0x4a3b2d1c"]
  by (simp add: rte_raw_cksum_def rte_raw_cksum_part_def rte_loop2_eq rte_reduce_fold case_prod_unfold)

section \<open>One datagram\<close>

definition vxlan_trailer :: "bool \<Rightarrow> timeval \<Rightarrow> bytes" where
  "vxlan_trailer capture_time ts =
    (if capture_time then be32 (word_of_int (tv_sec ts)) @ be32 (word_of_int (tv_usec ts * 1000)) else [])"

definition vni1_tag :: "u32 \<Rightarrow> int \<Rightarrow> bytes" where
  "vni1_tag vni direct =
    (if direct \<noteq> PKT_DIR_NONCHECK then pa_tag_direction direct (be32 (push_bit 8 vni)) else be32 (push_bit 8 vni))"

text \<open>The documented datagram for a frame: header, tag, frame, trailer.  The check byte of the first
  tag format is determined by the datagram when it has at least 42 bytes.\<close>

definition vxlan_datagram_ok :: "vxlan_output \<Rightarrow> int \<Rightarrow> timeval \<Rightarrow> bytes \<Rightarrow> bytes \<Rightarrow> bool" where
  "vxlan_datagram_ok out direct ts frame D \<longleftrightarrow> (let body = frame @ vxlan_trailer (v_capture_time out) ts in
     if v_vni_version out = 1
     then \<exists>check. D = [8, 0, 0, 0] @ take 3 (vni1_tag (v_vni out) direct) @ [check] @ body \<and>
       (34 \<le> length body \<longrightarrow> check = doc_check (take 42 ([8, 0, 0, 0] @ take 3 (vni1_tag (v_vni out) direct) @ [0] @ body)))
     else D = [8, 0, 0, 0] @ be32 (v_vni out + word_of_int direct) @ body)"

definition vx_ok :: "vxlan_state \<Rightarrow> bool" where
  "vx_ok s \<longleftrightarrow> length (v_buf (fst s)) = VXLAN_OUTPUT_BUFSIZE \<and> take 4 (v_buf (fst s)) = [8, 0, 0, 0] \<and>
     length (v_fragment_buf (fst s)) = VXLAN_OUTPUT_BUFSIZE"

lemma vni1_tag_zero: "length (vni1_tag vni dir) = 4" "vni1_tag vni dir = take 3 (vni1_tag vni dir) @ [0]"
proof -
  have "ucast (push_bit 8 vni) = (0 :: u8)" by (intro bit_word_eqI) (simp add: bit_simps)
  then show "length (vni1_tag vni dir) = 4" "vni1_tag vni dir = take 3 (vni1_tag vni dir) @ [0]"
    by (simp_all add: vni1_tag_def pa_tag_direction_def be32_def Let_def)
qed

text \<open>The body: the frame and the trailer behind the header bytes already in the buffer.\<close>

lemma write_body_run:
  fixes ts :: timeval
  assumes "length (v_buf out) = 65551" "length frame = n" "n \<le> 65535"
  defines "body \<equiv> frame @ vxlan_trailer (v_capture_time out) ts"
  shows "\<exists>buf. write_body out ts frame n = Some (buf, length body) \<and>
    length buf = 65551 \<and> take (8 + length body) buf = take 8 (v_buf out) @ body"
proof -
  let ?a = "be32 (word_of_int (tv_sec ts))" and ?b = "be32 (word_of_int (tv_usec ts * 1000))"
  let ?b1 = "put (v_buf out) 8 frame"
  let ?b2 = "put ?b1 (8 + n) ?a"
  let ?b3 = "put ?b2 (8 + n + 4) ?b"
  have l1: "length ?b1 = 65551" using assms(1-3) by simp
  have l2: "length ?b2 = 65551" using l1 assms(3) by simp
  have l3: "length ?b3 = 65551" using l2 assms(3) by simp
  have w: "wr_bytes (v_buf out) 8 frame = Some ?b1" "wr_bytes ?b1 (8 + n) ?a = Some ?b2"
    "wr_bytes ?b2 (8 + n + 4) ?b = Some ?b3"
    using assms(1-3) l1 l2 by (simp_all add: wr_bytes_in)
  have t1: "take (8 + n) ?b1 = take 8 (v_buf out) @ frame" using take_put_append [of 8 frame "v_buf out"] assms(1-3) by simp
  have t2: "take (8 + n + 4) ?b2 = take 8 (v_buf out) @ frame @ ?a"
    using take_put_append [of "8 + n" ?a ?b1] l1 t1 assms(3) by simp
  have t3: "take (8 + n + 4 + 4) ?b3 = take 8 (v_buf out) @ frame @ ?a @ ?b"
    using take_put_append [of "8 + n + 4" ?b ?b2] l2 t2 assms(3) by simp
  show ?thesis
  proof (cases "v_capture_time out")
    case True
    then show ?thesis unfolding body_def using w l3 t3 assms(2)
      by (simp add: write_body_def vxlan_trailer_def VXLAN_HEADER_LEN_def add.assoc add.commute add.left_commute)
  next
    case False
    then show ?thesis unfolding body_def using w l1 t1 assms(2)
      by (simp add: write_body_def vxlan_trailer_def VXLAN_HEADER_LEN_def)
  qed
qed

lemma put_field:
  assumes "take N buf = h @ x @ body" "N \<le> length buf" "length t = length x" "i = length h"
  shows "take N (put buf i t) = h @ t @ body" "length (put buf i t) = length buf"
proof -
  obtain rest where b: "buf = h @ x @ body @ rest" using assms(1) by (metis append.assoc append_take_drop_id)
  have "length (h @ x @ body) = N" using arg_cong [OF assms(1), of length] assms(2) by simp
  then show "take N (put buf i t) = h @ t @ body" "length (put buf i t) = length buf"
    using assms(3,4) by (simp_all add: put_def b)
qed

lemma write_tag_run:
  assumes body: "body = frame @ vxlan_trailer (v_capture_time out) ts"
    and b: "take (8 + length body) b = [8, 0, 0, 0] @ x @ body" "length b = 65551" "length x = 4" "8 + length body \<le> 65551"
  obtains buf D where "write_tag out dir b = Some buf" "length buf = 65551" "take (8 + length body) buf = D"
    "vxlan_datagram_ok out dir ts frame D"
proof (cases "v_vni_version out = 1")
  case True
  let ?t = "vni1_tag (v_vni out) dir" and ?b1 = "put b 4 (vni1_tag (v_vni out) dir)"
  define c where "c = (ucast (cksum_fold (0x4a3b2d1c + of_nat (sum16 (take 42 ?b1)))) :: u8)"
  have t1: "take (8 + length body) ?b1 = [8, 0, 0, 0] @ ?t @ body" and l1: "length ?b1 = 65551"
    using put_field [OF b(1), of ?t 4] b(2-4) vni1_tag_zero(1) by simp_all
  then have t1': "take (8 + length body) ?b1 = ([8, 0, 0, 0] @ take 3 ?t) @ [0] @ body"
    using vni1_tag_zero(2) [of "v_vni out" dir] by (metis append.assoc)
  have t2: "take (8 + length body) (put ?b1 7 [c]) = ([8, 0, 0, 0] @ take 3 ?t) @ [c] @ body"
    and l2: "length (put ?b1 7 [c]) = 65551"
    using put_field [OF t1', of "[c]" 7] l1 b(4) vni1_tag_zero(1) [of "v_vni out" dir] by simp_all
  have "take 42 ?b1 = take 42 (([8, 0, 0, 0] @ take 3 ?t) @ [0] @ body)" if "34 \<le> length body"
    unfolding t1' [symmetric] using that by simp
  then have "vxlan_datagram_ok out dir ts frame (([8, 0, 0, 0] @ take 3 ?t) @ [c] @ body)"
    unfolding vxlan_datagram_ok_def Let_def using True by (auto simp: doc_check_def c_def body)
  moreover have "wr_bytes b 4 ?t = Some ?b1" "rte_raw_cksum ?b1 0 42 = Some (cksum_fold (0x4a3b2d1c + of_nat (sum16 (take 42 ?b1))))"
    "wr_bytes ?b1 7 [c] = Some (put ?b1 7 [c])"
    using b(2) l1 vni1_tag_zero(1) by (simp_all add: wr_bytes_in rte_cksum)
  ultimately show thesis using that [of "put ?b1 7 [c]"] t2 l2 True
    by (simp add: vni1_tag_def Let_def c_def write_tag_def)
next
  case False
  let ?t = "be32 (v_vni out + word_of_int dir)"
  have "take (8 + length body) (put b 4 ?t) = [8, 0, 0, 0] @ ?t @ body" "length (put b 4 ?t) = 65551"
    using put_field [OF b(1), of ?t 4] b(2-4) by simp_all
  moreover have "wr_bytes b 4 ?t = Some (put b 4 ?t)" using b(2) by (simp add: wr_bytes_in)
  ultimately show thesis using that [of "put b 4 ?t"] False by (simp add: vxlan_datagram_ok_def write_tag_def body)
qed

lemma datagram_head: "vxlan_datagram_ok out dir ts frame D \<Longrightarrow> take 4 D = [8, 0, 0, 0]"
  by (auto simp: vxlan_datagram_ok_def Let_def split: if_splits)

lemma do_send_run:
  assumes ok: "vx_ok (out, sk)" and n: "n \<le> length pkt" "n \<le> 65535"
  obtains D buf sent sk' ei where
    "do_send_packet (out, sk) ts pkt n dir = Some ((out\<lparr>v_buf := buf, v_error_info := ei\<rparr>, sk'), if sent then 0 else -1)"
    "send_loop D 0 (sk, v_error_info out) = (sent, sk', ei)" "vxlan_datagram_ok out dir ts (take n pkt) D"
    "length buf = VXLAN_OUTPUT_BUFSIZE" "take 4 buf = [8, 0, 0, 0]"
proof -
  let ?body = "take n pkt @ vxlan_trailer (v_capture_time out) ts"
  have l: "length (v_buf out) = 65551" "take 4 (v_buf out) = [8, 0, 0, 0]"
    using ok by (simp_all add: vx_ok_def VXLAN_OUTPUT_BUFSIZE_def)
  obtain b where b: "write_body out ts (take n pkt) n = Some (b, length ?body)"
      "length b = 65551" "take (8 + length ?body) b = take 8 (v_buf out) @ ?body"
    using write_body_run [OF l(1), of "take n pkt" n] n by auto
  have L: "8 + length ?body \<le> 65551" using n by (simp add: vxlan_trailer_def)
  have "take 8 (v_buf out) = take 4 (v_buf out) @ take 4 (drop 4 (v_buf out))"
    using take_add [of 4 4 "v_buf out"] by simp
  then have tb: "take (8 + length ?body) b = [8, 0, 0, 0] @ take 4 (drop 4 (v_buf out)) @ ?body"
    using b(3) l(2) by simp
  have l4: "length (take 4 (drop 4 (v_buf out))) = 4" using l(1) by simp
  obtain buf D where bd: "write_tag out dir b = Some buf"
      "length buf = 65551" "take (8 + length ?body) buf = D" "vxlan_datagram_ok out dir ts (take n pkt) D"
    by (rule write_tag_run [OF refl tb b(2) l4 L])
  have rd: "rd_bytes buf 0 (VXLAN_HEADER_LEN + length ?body) = Some D" "rd_bytes pkt 0 n = Some (take n pkt)"
    using bd(2,3) L n by (simp_all add: rd_bytes_in VXLAN_HEADER_LEN_def)
  have "take 4 D = take 4 buf" unfolding bd(3) [symmetric] by simp
  then have h: "take 4 buf = [8, 0, 0, 0]" using datagram_head [OF bd(4)] by simp
  obtain sent sk' ei where sl: "send_loop D 0 (sk, v_error_info out) = (sent, sk', ei)" by (metis prod_cases3)
  show thesis
  proof (rule that [OF _ sl bd(4) _ h])
    show "do_send_packet (out, sk) ts pkt n dir = Some ((out\<lparr>v_buf := buf, v_error_info := ei\<rparr>, sk'), if sent then 0 else -1)"
      by (simp only: do_send_packet_def Let_def prod.case rd(2) b(1) bd(1) rd(1) sl Option.bind.bind_lunit)
    show "length buf = VXLAN_OUTPUT_BUFSIZE" using bd(2) by (simp add: VXLAN_OUTPUT_BUFSIZE_def)
  qed
qed

section \<open>All datagrams of a packet\<close>

text \<open>The inner frames on the wire: for each frame in turn, between one and eleven copies of its
  datagram.\<close>

inductive sent_frames :: "vxlan_output \<Rightarrow> int \<Rightarrow> timeval \<Rightarrow> bytes list \<Rightarrow> bytes list \<Rightarrow> bool" where
  sent_none: "sent_frames out dir ts [] []"
| sent_more: "vxlan_datagram_ok out dir ts f D \<Longrightarrow> 1 \<le> k \<Longrightarrow> k \<le> 11 \<Longrightarrow> sent_frames out dir ts fs ds \<Longrightarrow>
    sent_frames out dir ts (f # fs) (replicate k D @ ds)"

definition vx_same :: "vxlan_output \<Rightarrow> vxlan_output \<Rightarrow> bool" where
  "vx_same out out' \<longleftrightarrow> o_stats out' = o_stats out \<and> o_rate_limit_mbps out' = o_rate_limit_mbps out \<and>
     o_throttle out' = o_throttle out \<and> o_slice out' = o_slice out \<and> v_vni_version out' = v_vni_version out \<and>
     v_vni out' = v_vni out \<and> v_capture_time out' = v_capture_time out \<and>
     v_max_payload_size out' = v_max_payload_size out \<and> v_recalculate_checksum out' = v_recalculate_checksum out"

lemma vx_same_trans: "vx_same a b \<Longrightarrow> vx_same b c \<Longrightarrow> vx_same a c"
  by (auto simp: vx_same_def)

lemma datagram_ok_same: "vx_same out out' \<Longrightarrow> vxlan_datagram_ok out' = vxlan_datagram_ok out"
  by (auto simp: vx_same_def vxlan_datagram_ok_def fun_eq_iff)

lemma sent_frames_cong:
  "sent_frames out' dir ts fs ds \<Longrightarrow> vxlan_datagram_ok out' = vxlan_datagram_ok out \<Longrightarrow> sent_frames out dir ts fs ds"
  by (induction rule: sent_frames.induct) (auto intro: sent_frames.intros)

lemma sent_frames_same: "sent_frames out' dir ts fs ds \<Longrightarrow> vx_same out out' \<Longrightarrow> sent_frames out dir ts fs ds"
  by (erule sent_frames_cong) (rule datagram_ok_same)

lemma sent_frames_append:
  "sent_frames out dir ts fs ds \<Longrightarrow> sent_frames out dir ts gs es \<Longrightarrow> sent_frames out dir ts (fs @ gs) (ds @ es)"
  by (induction rule: sent_frames.induct) (auto intro: sent_more)

lemma send_one:
  assumes ok: "vx_ok (out, sk)" and n: "n \<le> length pkt" "n \<le> 65535"
  obtains out' sk' r ds where "do_send_packet (out, sk) ts pkt n dir = Some ((out', sk'), r)" "vx_ok (out', sk')"
    "vx_same out out'" "r = 0 \<or> r = -1" "sent_frames out dir ts [take n pkt] ds" "sk_sent sk' = sk_sent sk @ ds"
proof (rule do_send_run [OF assms, of ts dir])
  fix D buf sent sk' ei
  assume a: "do_send_packet (out, sk) ts pkt n dir = Some ((out\<lparr>v_buf := buf, v_error_info := ei\<rparr>, sk'), if sent then 0 else -1)"
    "send_loop D 0 (sk, v_error_info out) = (sent, sk', ei)" "vxlan_datagram_ok out dir ts (take n pkt) D"
    "length buf = VXLAN_OUTPUT_BUFSIZE" "take 4 buf = [8, 0, 0, 0]"
  obtain k where k: "1 \<le> k" "k \<le> 11" "sk_sent sk' = sk_sent sk @ replicate k D"
    using send_loop_result [OF a(2)] by (auto simp: max_retries_def)
  show thesis
  proof (rule that [OF a(1)])
    show "vx_ok (out\<lparr>v_buf := buf, v_error_info := ei\<rparr>, sk')" using ok a(4,5) by (simp add: vx_ok_def)
    show "vx_same out (out\<lparr>v_buf := buf, v_error_info := ei\<rparr>)" by (simp add: vx_same_def)
    show "sent_frames out dir ts [take n pkt] (replicate k D)"
      using sent_more [OF a(3) k(1,2) sent_none] by simp
  qed (use k in auto)
qed

text \<open>Fragment \<open>i\<close> of a parsed packet, as a frame.\<close>

definition fragment_frame :: "packet_parse_result \<Rightarrow> bytes \<Rightarrow> nat \<Rightarrow> bool \<Rightarrow> nat \<Rightarrow> bytes \<Rightarrow> bool" where
  "fragment_frame r pkt m recalc i f \<longleftrightarrow> (\<exists>k buf. k = min m (unat (payload_len r) - i * m) \<and>
     f = take (unat (payload_offset r) + k) buf \<and> length f = unat (payload_offset r) + k \<and>
     fragment_of r pkt (i * m) k recalc buf \<and>
     parse_packet f (of_nat (length f)) = Some (True, r\<lparr>payload_len := of_nat k\<rparr>))"

lemma build_fragment_frame:
  assumes f: "frame_ok pkt caplen" and p: "parse_packet pkt caplen = Some (True, r)"
    and m: "0 < m" and i: "i * m < unat (payload_len r)" and out: "length out = VXLAN_OUTPUT_BUFSIZE"
  obtains n buf where "build_fragment sse2 r pkt (int i) (int m) recalc out = Some (int n, buf)"
    "length buf = VXLAN_OUTPUT_BUFSIZE" "0 < n" "n \<le> 65535" "fragment_frame r pkt m recalc i (take n buf)"
proof -
  define k where "k = min m (unat (payload_len r) - i * m)"
  have "k \<le> unat (payload_len r)" by (simp add: k_def)
  then have b: "unat (payload_offset r) + k \<le> 65535"
    using parsed_facts(2) [OF f p] f unfolding frame_ok_def by linarith
  then have "unat (payload_offset r) + k \<le> length out" using out by (simp add: VXLAN_OUTPUT_BUFSIZE_def)
  then obtain buf where bf: "build_fragment sse2 r pkt (int i) (int m) recalc out = Some (int (unat (payload_offset r) + k), buf)"
     "length buf = length out" "fragment_of r pkt (i * m) k recalc buf"
    using build_fragment_run [OF f p refl i m k_def, of out sse2 recalc] by blast
  have fit: "unat (payload_offset r) + k \<le> length buf" using b bf(2) out by (simp add: VXLAN_OUTPUT_BUFSIZE_def)
  have "fragment_frame r pkt m recalc i (take (unat (payload_offset r) + k) buf)"
    unfolding fragment_frame_def using fragment_reparse [OF f p fit b bf(3)] bf(3) fit
    by (intro exI [of _ k] exI [of _ buf]) (simp add: k_def)
  then show thesis using that [OF bf(1)] bf(2) b out m i by (simp add: k_def)
qed

lemma send_fragments_run:
  assumes f: "frame_ok pkt caplen" and p: "parse_packet pkt caplen = Some (True, r)"
    and ok: "vx_ok (out, sk)" and m: "0 < unat (v_max_payload_size out)"
    and i: "\<And>j. j < i + n \<Longrightarrow> j * unat (v_max_payload_size out) < unat (payload_len r)"
  shows "\<exists>out' sk' rc fs ds. send_fragments sse2 (out, sk) h pkt r dir i n = Some ((out', sk'), rc) \<and>
    vx_ok (out', sk') \<and> vx_same out out' \<and> (rc = 0 \<or> rc = -1) \<and> sent_frames out dir (ph_ts h) fs ds \<and>
    sk_sent sk' = sk_sent sk @ ds \<and> (rc = 0 \<longrightarrow> length fs = n) \<and>
    (\<forall>j < length fs. fragment_frame r pkt (unat (v_max_payload_size out)) (v_recalculate_checksum out) (i + j) (fs ! j))"
  using ok m i
proof (induction n arbitrary: i out sk)
  case 0
  then show ?case by (auto intro!: exI [of _ "[]"] sent_none simp: vx_same_def)
next
  case (Suc n)
  let ?m = "unat (v_max_payload_size out)" and ?rec = "v_recalculate_checksum out"
  have l: "length (v_fragment_buf out) = VXLAN_OUTPUT_BUFSIZE" using Suc.prems(1) by (simp add: vx_ok_def)
  have im: "i * ?m < unat (payload_len r)" using Suc.prems(3) [of i] by simp
  obtain k buf where b: "build_fragment sse2 r pkt (int i) (int ?m) ?rec (v_fragment_buf out) = Some (int k, buf)"
    "length buf = VXLAN_OUTPUT_BUFSIZE" "0 < k" "k \<le> 65535" "fragment_frame r pkt ?m ?rec i (take k buf)"
    by (rule build_fragment_frame [OF f p Suc.prems(2) im l])
  let ?o = "out\<lparr>v_fragment_buf := buf\<rparr>"
  have oo: "vx_ok (?o, sk)" using Suc.prems(1) b(2) by (simp add: vx_ok_def)
  have s0: "vx_same out ?o" by (simp add: vx_same_def)
  have kb: "k \<le> length buf" using b(2,4) by (simp add: VXLAN_OUTPUT_BUFSIZE_def)
  obtain out1 sk1 r1 ds1 where s1: "do_send_packet (?o, sk) (ph_ts h) buf k dir = Some ((out1, sk1), r1)" "vx_ok (out1, sk1)"
    "vx_same ?o out1" "r1 = 0 \<or> r1 = -1" "sent_frames ?o dir (ph_ts h) [take k buf] ds1" "sk_sent sk1 = sk_sent sk @ ds1"
    by (rule send_one [OF oo kb b(4)])
  note same1 = vx_same_trans [OF s0 s1(3)]
  have st: "send_fragments sse2 (out, sk) h pkt r dir i (Suc n) = (if r1 \<noteq> 0 then Some ((out1, sk1), -1)
      else send_fragments sse2 (out1, sk1) h pkt r dir (i + 1) n)"
    using b(1,3) s1(1) by simp
  show ?case
  proof (cases "r1 = 0")
    case False
    then show ?thesis using st s1(2,6) same1 sent_frames_same [OF s1(5) s0] b(5)
      by (intro exI [of _ out1] exI [of _ sk1] exI [of _ "-1"] exI [of _ "[take k buf]"] exI [of _ ds1]) simp
  next
    case True
    have c: "v_max_payload_size out1 = v_max_payload_size out" "v_recalculate_checksum out1 = ?rec"
      using same1 by (auto simp: vx_same_def)
    obtain out' sk' rc fs ds where IH: "send_fragments sse2 (out1, sk1) h pkt r dir (i + 1) n = Some ((out', sk'), rc)"
      "vx_ok (out', sk')" "vx_same out1 out'" "rc = 0 \<or> rc = -1" "sent_frames out1 dir (ph_ts h) fs ds"
      "sk_sent sk' = sk_sent sk1 @ ds" "rc = 0 \<longrightarrow> length fs = n"
      "\<forall>j < length fs. fragment_frame r pkt ?m ?rec (i + 1 + j) (fs ! j)"
      using Suc.IH [OF s1(2), of "i + 1"] Suc.prems(2,3) unfolding c by auto
    have fr: "\<forall>j < length (take k buf # fs). fragment_frame r pkt ?m ?rec (i + j) ((take k buf # fs) ! j)"
      using IH(8) b(5) by (auto simp: nth_Cons split: nat.splits)
    have "sent_frames out dir (ph_ts h) (take k buf # fs) (ds1 @ ds)"
      using sent_frames_append [OF sent_frames_same [OF s1(5) s0] sent_frames_same [OF IH(5) same1]] by simp
    then show ?thesis using st True IH(1,2,4,6,7) s1(6) vx_same_trans [OF same1 IH(3)] fr
      by (intro exI [of _ out'] exI [of _ sk'] exI [of _ rc] exI [of _ "take k buf # fs"] exI [of _ "ds1 @ ds"]) simp
  qed
qed

text \<open>The inner frames of a packet of \<open>n\<close> bytes: the packet itself, or fragments of it, which together
  carry its payload when \<open>all_sent\<close>.\<close>

definition packet_frames :: "vxlan_output \<Rightarrow> bytes \<Rightarrow> nat \<Rightarrow> bool \<Rightarrow> bytes list \<Rightarrow> bool" where
  "packet_frames out pkt n all_sent fs \<longleftrightarrow> fs = [take n pkt] \<or>
    (let m = unat (v_max_payload_size out) in \<exists>r. 0 < m \<and> m < n \<and> parse_packet pkt (of_nat n) = Some (True, r) \<and>
      (\<forall>j < length fs. fragment_frame r pkt m (v_recalculate_checksum out) j (fs ! j)) \<and>
      (all_sent \<longrightarrow> length fs = nat (calculate_fragment_count r (int m)) \<and>
         concat (map (drop (unat (payload_offset r))) fs)
           = take (unat (payload_len r)) (drop (unat (payload_offset r)) pkt)))"

lemma fragments_payload:
  assumes f: "frame_ok pkt caplen" and p: "parse_packet pkt caplen = Some (True, r)"
    and m: "0 < m" and pl: "0 < unat (payload_len r)" and l: "length fs = nat (calculate_fragment_count r (int m))"
    and fr: "\<forall>j < length fs. fragment_frame r pkt m recalc j (fs ! j)"
  shows "concat (map (drop (unat (payload_offset r))) fs) = take (unat (payload_len r)) (drop (unat (payload_offset r)) pkt)"
proof -
  let ?po = "unat (payload_offset r)" and ?pl = "unat (payload_len r)" and ?c = "length fs"
  have fit: "?po + ?pl \<le> length pkt" using parsed_facts(2) [OF f p] f unfolding frame_ok_def by linarith
  have bound: "\<not> ?c * m < ?pl" using fragment_count_bounds(2) [OF m pl, of ?c] l by simp
  have one: "drop ?po (fs ! i) = take m (drop (i * m) (take ?pl (drop ?po pkt)))" if i: "i < ?c" for i
  proof -
    define k where "k = min m (?pl - i * m)"
    obtain buf where b: "fs ! i = take (?po + k) buf" "length (fs ! i) = ?po + k" "fragment_of r pkt (i * m) k recalc buf"
      using fr i unfolding fragment_frame_def k_def by blast
    have "drop ?po (fs ! i) = take k (drop ?po buf)" using b(1) by (simp add: drop_take)
    also have "\<dots> = take k (drop (?po + i * m) pkt)" using b(3) by (simp add: fragment_of_def)
    also have "\<dots> = take m (drop (i * m) (take ?pl (drop ?po pkt)))"
      using fit by (simp add: k_def drop_take add.commute)
    finally show ?thesis .
  qed
  show ?thesis using one bound fit by (intro slices_concat [OF m, of _ ?c]) simp_all
qed

lemma send_whole_or_split_run:
  assumes ok: "vx_ok (out, sk)" and n: "n \<le> length pkt" "n \<le> 65535"
  shows "\<exists>out' sk' rc fs ds. send_whole_or_split sse2 (out, sk) h pkt n dir = Some ((out', sk'), rc) \<and>
    vx_ok (out', sk') \<and> vx_same out out' \<and> (rc = 0 \<or> rc = -1) \<and> sent_frames out dir (ph_ts h) fs ds \<and>
    sk_sent sk' = sk_sent sk @ ds \<and> packet_frames out pkt n (rc = 0) fs"
proof -
  let ?m = "unat (v_max_payload_size out)" and ?c = "of_nat n :: u32"
  have whole: ?thesis if "send_whole_or_split sse2 (out, sk) h pkt n dir = do_send_packet (out, sk) (ph_ts h) pkt n dir"
  proof (rule send_one [OF ok n, of "ph_ts h" dir])
    fix out' sk' r ds
    assume "do_send_packet (out, sk) (ph_ts h) pkt n dir = Some ((out', sk'), r)" "vx_ok (out', sk')"
      "vx_same out out'" "r = 0 \<or> r = -1" "sent_frames out dir (ph_ts h) [take n pkt] ds" "sk_sent sk' = sk_sent sk @ ds"
    then show ?thesis using that
      by (intro exI [of _ out'] exI [of _ sk'] exI [of _ r] exI [of _ "[take n pkt]"] exI [of _ ds]) (simp add: packet_frames_def)
  qed
  have c: "unat ?c = n" using n(2) by (simp add: unat_of_nat)
  have f: "frame_ok pkt ?c" using n c by (simp add: frame_ok_def)
  show ?thesis
  proof (cases "v_max_payload_size out \<le> 0 \<or> n \<le> ?m")
    case True
    then show ?thesis using whole by (simp add: send_whole_or_split_def)
  next
    case big: False
    then have m: "0 < ?m" "?m < n" by (auto simp: word_le_nat_alt)
    obtain parsed r where p: "parse_packet pkt ?c = Some (parsed, r)"
      using parse_packet_total_shape [OF f] parse_of_shape [OF _ f] by blast
    show ?thesis
    proof (cases "parsed \<and> calculate_fragment_count r (int ?m) \<noteq> 1")
      case False
      then have "send_whole_or_split sse2 (out, sk) h pkt n dir = do_send_packet (out, sk) (ph_ts h) pkt n dir"
        using big p by (auto simp: send_whole_or_split_def)
      then show ?thesis by (rule whole)
    next
      case True
      then have p': "parse_packet pkt ?c = Some (True, r)" using p by simp
      have "calculate_fragment_count r (int ?m) = 1" if "unat (payload_len r) = 0"
        using that by (simp only: calculate_fragment_count_def) simp
      then have pl: "0 < unat (payload_len r)" using True by blast
      let ?k = "nat (calculate_fragment_count r (int ?m))"
      have idx: "j * ?m < unat (payload_len r)" if "j < 0 + ?k" for j
        using that fragment_count_bounds(2) [OF m(1) pl] by simp
      obtain out' sk' rc fs ds where s: "send_fragments sse2 (out, sk) h pkt r dir 0 ?k = Some ((out', sk'), rc)"
        "vx_ok (out', sk')" "vx_same out out'" "rc = 0 \<or> rc = -1" "sent_frames out dir (ph_ts h) fs ds"
        "sk_sent sk' = sk_sent sk @ ds" "rc = 0 \<longrightarrow> length fs = ?k"
        "\<forall>j < length fs. fragment_frame r pkt ?m (v_recalculate_checksum out) (0 + j) (fs ! j)"
        using send_fragments_run [OF f p' ok m(1) idx] by blast
      have "packet_frames out pkt n (rc = 0) fs"
        unfolding packet_frames_def Let_def
        using m p' s(7,8) fragments_payload [OF f p' m(1) pl, of fs "v_recalculate_checksum out"] by simp
      moreover have "send_whole_or_split sse2 (out, sk) h pkt n dir = Some ((out', sk'), rc)"
        using big True p s(1) by (auto simp: send_whole_or_split_def)
      ultimately show ?thesis using s by blast
    qed
  qed
qed

section \<open>The output counts every packet once\<close>

definition vx_flen :: "'a output_core_scheme \<Rightarrow> u32 \<Rightarrow> u64" where
  "vx_flen out n = output_frame_len n (o_slice out) VXLAN_MAX_FRAME_LEN"

lemma vx_flen_le: "unat (vx_flen out n) \<le> unat n" "unat (vx_flen out n) \<le> 65535"
  using frame_len_le [of n "o_slice out" VXLAN_MAX_FRAME_LEN] by (simp_all add: vx_flen_def VXLAN_MAX_FRAME_LEN_def)

lemma vxlan_send_cases:
  assumes ok: "vx_ok (out, sk)" and len: "unat (ph_caplen h) \<le> length d"
  obtains (dropped) c tb where "c \<noteq> Forwarded" "c = Direction_drop \<longleftrightarrow> dir = PKT_DIR_UNKNOWN"
      "vxlan_send_packet sse2 (out, sk) h d dir =
         Some ((out\<lparr>o_throttle := tb, o_stats := count_packet c (o_stats out) (vx_flen out (ph_caplen h))\<rparr>, sk), -1)"
  | (sent) tb out' sk' rc fs ds where "dir \<noteq> PKT_DIR_UNKNOWN" "vx_ok (out', sk')" "vx_same (out\<lparr>o_throttle := tb\<rparr>) out'"
      "rc = 0 \<or> rc = -1" "sent_frames out dir (ph_ts h) fs ds" "sk_sent sk' = sk_sent sk @ ds"
      "packet_frames out d (unat (vx_flen out (ph_caplen h))) (rc = 0) fs"
      "vxlan_send_packet sse2 (out, sk) h d dir =
         Some ((count_as (if rc = 0 then Forwarded else Error_drop) (vx_flen out (ph_caplen h)) out', sk'), rc)"
proof (rule output_admit_cases [of dir out "vx_flen out (ph_caplen h)" "ph_ts h"])
  fix c tb
  assume "c \<noteq> Forwarded" "c = Direction_drop \<longleftrightarrow> dir = PKT_DIR_UNKNOWN"
    "output_admit out (vx_flen out (ph_caplen h)) (ph_ts h) dir
       = (False, out\<lparr>o_throttle := tb, o_stats := count_packet c (o_stats out) (vx_flen out (ph_caplen h))\<rparr>)"
  then show thesis using dropped [of c tb] by (simp add: vxlan_send_packet_def vx_flen_def Let_def)
next
  fix tb
  assume a: "dir \<noteq> PKT_DIR_UNKNOWN" "output_admit out (vx_flen out (ph_caplen h)) (ph_ts h) dir = (True, out\<lparr>o_throttle := tb\<rparr>)"
  let ?n = "unat (vx_flen out (ph_caplen h))"
  let ?o = "out\<lparr>o_throttle := tb, v_error_info := check_error_info (tv_sec (ph_ts h)) (v_error_info out)\<rparr>"
  have n: "?n \<le> length d" "?n \<le> 65535" using vx_flen_le [of out "ph_caplen h"] len by simp_all
  have "vx_ok (?o, sk)" using ok by (simp add: vx_ok_def)
  then obtain out' sk' rc fs ds where s: "send_whole_or_split sse2 (?o, sk) h d ?n dir = Some ((out', sk'), rc)"
    "vx_ok (out', sk')" "vx_same ?o out'" "rc = 0 \<or> rc = -1" "sent_frames ?o dir (ph_ts h) fs ds"
    "sk_sent sk' = sk_sent sk @ ds" "packet_frames ?o d ?n (rc = 0) fs"
    using send_whole_or_split_run [OF _ n] by blast
  have cfg: "vxlan_datagram_ok ?o = vxlan_datagram_ok out" by (simp add: vxlan_datagram_ok_def fun_eq_iff)
  show thesis
  proof (rule sent [OF a(1) s(2) _ s(4) sent_frames_cong [OF s(5) cfg] s(6)])
    show "vx_same (out\<lparr>o_throttle := tb\<rparr>) out'" using s(3) by (simp add: vx_same_def)
    show "packet_frames out d ?n (rc = 0) fs" using s(7) by (simp add: packet_frames_def)
    show "vxlan_send_packet sse2 (out, sk) h d dir =
         Some ((count_as (if rc = 0 then Forwarded else Error_drop) (vx_flen out (ph_caplen h)) out', sk'), rc)"
      using a(2) s(1,4) by (auto simp: vxlan_send_packet_def vx_flen_def Let_def)
  qed
qed

interpretation vxlan_out: counting_output "vxlan_send_packet sse2" "\<lambda>s. o_stats (fst s)" "\<lambda>s. vx_flen (fst s)" vx_ok for sse2
proof
  fix s :: vxlan_state and h d dir
  assume ok: "vx_ok s" and p: "packet_ok (h, d, dir)"
  obtain out sk where s: "s = (out, sk)" by fastforce
  have len: "unat (ph_caplen h) \<le> length d" using p by (simp add: packet_ok_def)
  show "\<exists>out' c. vxlan_send_packet sse2 s h d dir = Some (out', return_code c) \<and> vx_ok out' \<and>
       vx_flen (fst out') = vx_flen (fst s) \<and>
       o_stats (fst out') = count_packet c (o_stats (fst s)) (vx_flen (fst s) (ph_caplen h)) \<and>
       (c = Direction_drop \<longleftrightarrow> dir = PKT_DIR_UNKNOWN)"
  proof (rule vxlan_send_cases [OF ok [unfolded s] len, of dir sse2])
    fix c tb
    assume a: "c \<noteq> Forwarded" "c = Direction_drop \<longleftrightarrow> dir = PKT_DIR_UNKNOWN" "vxlan_send_packet sse2 (out, sk) h d dir =
         Some ((out\<lparr>o_throttle := tb, o_stats := count_packet c (o_stats out) (vx_flen out (ph_caplen h))\<rparr>, sk), -1)"
      (is "_ = Some (?s', _)")
    show ?thesis unfolding s a(3) using a(1,2) ok
      by (intro exI [of _ ?s'] exI [of _ c]) (auto simp: return_code_def vx_ok_def s vx_flen_def fun_eq_iff)
  next
    fix tb out' sk' rc fs ds
    assume a: "dir \<noteq> PKT_DIR_UNKNOWN" "vx_ok (out', sk')" "vx_same (out\<lparr>o_throttle := tb\<rparr>) out'" "rc = 0 \<or> rc = -1"
      "vxlan_send_packet sse2 (out, sk) h d dir =
         Some ((count_as (if rc = 0 then Forwarded else Error_drop) (vx_flen out (ph_caplen h)) out', sk'), rc)"
      (is "_ = Some (?s', _)")
    show ?thesis unfolding s a(5) using a(1-4)
      by (intro exI [of _ ?s'] exI [of _ "if rc = 0 then Forwarded else Error_drop"])
         (auto simp: return_code_def vx_ok_def vx_flen_def fun_eq_iff count_as_def vx_same_def)
  qed
qed

lemma vxlan_new_ok: "vxlan_output_new opts st ss = Inr out \<Longrightarrow> vx_ok (out, sk)"
  by (auto simp: vxlan_output_new_def vx_ok_def Let_def put_def VXLAN_OUTPUT_BUFSIZE_def be32_def split: if_splits)

section \<open>What a receiver reads\<close>

text \<open>The receiver's formulas of the wire-format document.\<close>

definition rx_direction :: "bytes \<Rightarrow> u8" where
  "rx_direction D = drop_bit 4 (D ! 4)"

definition rx_service_tag :: "bytes \<Rightarrow> u32" where
  "rx_service_tag D = push_bit 8 (ucast (D ! 5 AND 0x0F)) OR ucast (D ! 6)"

definition rx_check_ok :: "bytes \<Rightarrow> bool" where
  "rx_check_ok D \<longleftrightarrow> D ! 7 = doc_check ((take 42 D)[7 := 0])"

lemma pa_tag_bytes:
  assumes "dir \<in> {1, 2}"
  shows "drop_bit 4 (pa_tag_direction dir tag ! 0) = word_of_int dir"
    "pa_tag_direction dir tag ! 1 AND 0x0F = tag ! 1 AND 0x0F" "pa_tag_direction dir tag ! 2 = tag ! 2"
proof -
  have m: "(0x0F :: u8) = mask 4" "(0xF0 :: u8) = push_bit 4 (mask 4)" by (simp_all add: mask_eq_exp_minus_1 push_bit_eq_mult)
  have d: "word_of_int dir AND 0x0F = (word_of_int dir :: u8)" using assms by auto
  have s: "\<not> bit (word_of_int dir :: u8) n" if "2 \<le> n" for n
  proof -
    have "(word_of_int dir :: u8) = take_bit 2 (word_of_int dir)"
      using assms by (auto simp: take_bit_eq_mask mask_eq_exp_minus_1)
    then show ?thesis using that by (metis bit_take_bit_iff not_less)
  qed
  have e: "pa_tag_direction dir tag ! 0 = (tag ! 0 AND 0x0F OR push_bit 4 (word_of_int dir)) AND 0xF0"
    by (simp only: pa_tag_direction_def Let_def d nth_Cons_0)
  show "drop_bit 4 (pa_tag_direction dir tag ! 0) = word_of_int dir"
    unfolding e
  proof (rule bit_word_eqI)
    fix n assume "n < LENGTH(8)"
    then show "bit (drop_bit 4 ((tag ! 0 AND 0x0F OR push_bit 4 (word_of_int dir)) AND 0xF0)) n = bit (word_of_int dir :: u8) n"
      unfolding m using s [of n] by (cases "n < 4") (auto simp: bit_simps)
  qed
  show "pa_tag_direction dir tag ! 1 AND 0x0F = tag ! 1 AND 0x0F" "pa_tag_direction dir tag ! 2 = tag ! 2"
    by (simp_all add: pa_tag_direction_def Let_def)
qed

lemma service_tag_bits:
  "push_bit 8 (ucast (be32 (push_bit 8 vni) ! 1 AND 0x0F)) OR ucast (be32 (push_bit 8 vni) ! 2) = vni AND (0xFFF :: u32)"
proof -
  have m: "(0x0F :: u8) = mask 4" "(0xFFF :: u32) = mask 12" by (simp_all add: mask_eq_exp_minus_1)
  show ?thesis unfolding m by (intro bit_word_eqI) (auto simp: be32_def bit_simps)
qed

lemma vni24_bits:
  "of_be32 0 (be32 (push_bit 8 vni) ! 0) (be32 (push_bit 8 vni) ! 1) (be32 (push_bit 8 vni) ! 2) = vni AND (0xFFFFFF :: u32)"
proof -
  have m: "(0xFFFFFF :: u32) = mask 24" by (simp add: mask_eq_exp_minus_1)
  have "ucast (drop_bit 32 (push_bit 8 vni)) = (0 :: u8)"
    by (intro bit_word_eqI) (auto simp: bit_simps)
  then have "of_be32 0 (be32 (push_bit 8 vni) ! 0) (be32 (push_bit 8 vni) ! 1) (be32 (push_bit 8 vni) ! 2)
      = drop_bit 8 (push_bit 8 vni)"
    using of_be32_be32 [of "drop_bit 8 (push_bit 8 vni)"] by (simp add: be32_def)
  also have "\<dots> = vni AND mask 24" by (intro bit_word_eqI) (auto simp: bit_simps)
  finally show ?thesis unfolding m .
qed


definition sample_options :: vxlan_options where
  "sample_options = \<lparr>vo_host = ''2.2.2.2'', vo_capture_time = False, vo_vni_version = 1, vo_vni = 0x1A2, vo_bind_device = None,
     vo_pmtudisc = -1, vo_rate_limit_mbps = 0, vo_slice = 0, vo_max_payload_size = 4, vo_recalculate_checksum = True\<rparr>"

definition sample_vxlan :: vxlan_output where
  "sample_vxlan = \<lparr>o_stats = output_stats_zero, o_rate_limit_mbps = 0, o_throttle = token_bucket_zero, o_slice = 0,
     v_vni_version = 1, v_vni = 0x1A2, v_capture_time = False,
     v_buf = put (replicate VXLAN_OUTPUT_BUFSIZE 0) 0 (be32 0x08000000 @ be32 (push_bit 8 0x1A2)),
     v_max_payload_size = 4, v_recalculate_checksum = True, v_fragment_buf = replicate VXLAN_OUTPUT_BUFSIZE 0, v_error_info = error_info_zero\<rparr>"

lemma sample_vxlan_new: "vxlan_output_new sample_options output_stats_zero sample_setup = Inr sample_vxlan"
  by (simp add: vxlan_output_new_def sample_options_def sample_setup_def sample_vxlan_def new_throttle_def)

text \<open>The frame of the worked examples of the wire-format document.\<close>

definition doc_frame :: bytes where
  "doc_frame = [0xaa, 0xbb, 0xcc, 0xdd, 0xee, 0xff, 0x11, 0x22, 0x33, 0x44, 0x55, 0x66, 0x08, 0x00, 0x45, 0x00, 0x00, 0x54,
     0x12, 0x34, 0x40, 0x00, 0x40, 0x06, 0x00, 0x00, 0x0a, 0x00, 0x00, 0x01, 0x0a, 0x00, 0x00, 0x02]"




end
