(* ===== verification/Output_Zmq.thy ===== *)
theory Output_Zmq
  imports Output_Common Packet_Split "HOL-Library.Sublist"
begin

text \<open>
  \<open>output_zmq.c\<close>: captured packets are rewritten (a private MPLS-like tag behind the VLAN stack) and
  collected in a batch buffer of one mebibyte, which is sent as one ZMQ message when it is full, stale, or a
  heartbeat is due.  The ZMQ library is an environment that answers the \<open>n\<close>-th \<open>zmq_send\<close> with
  an arbitrary return code and the \<open>n\<close>-th \<open>gettimeofday\<close> with an arbitrary time.
\<close>

definition ZMQ_MAX_FRAME_LEN :: u64 where "ZMQ_MAX_FRAME_LEN = 65531"
definition ZMQ_MAX_BATCH_BUF_SIZE :: nat where "ZMQ_MAX_BATCH_BUF_SIZE = 1048576"
definition ZMQ_PKTS_FLUSH_MAX_DUR_SEC :: int where "ZMQ_PKTS_FLUSH_MAX_DUR_SEC = 1"
definition ZMQ_PKTS_FLUSH_MAX_NUM :: u16 where "ZMQ_PKTS_FLUSH_MAX_NUM = 65535"
definition ZMQ_BATCH_PKTS_VERSION :: u16 where "ZMQ_BATCH_PKTS_VERSION = 2"
definition ZMQ_HEARTBEAT_ETHER_TYPE :: u16 where "ZMQ_HEARTBEAT_ETHER_TYPE = 0xFFFF"
definition ETHER_TYPE_MPLS :: u16 where "ETHER_TYPE_MPLS = 0x8847"
definition BATCH_HDR_LEN :: nat where "BATCH_HDR_LEN = 24"

lemmas zmq_consts = ZMQ_MAX_FRAME_LEN_def ZMQ_MAX_BATCH_BUF_SIZE_def ZMQ_PKTS_FLUSH_MAX_DUR_SEC_def
  ZMQ_PKTS_FLUSH_MAX_NUM_def ZMQ_BATCH_PKTS_VERSION_def ZMQ_HEARTBEAT_ETHER_TYPE_def ETHER_TYPE_MPLS_def BATCH_HDR_LEN_def

section \<open>State\<close>

text \<open>\<open>zmq_pkt_batch_hdr_t\<close>: version, key and UUID are kept in network order, the packet count in host
  order until a flush.\<close>

record zmq_pkt_batch_hdr =
  bh_version :: bytes
  bh_pkts_num :: u16
  bh_keybit :: bytes
  bh_uuid :: bytes

record zmq_pkts_buf =
  zb_hdr :: zmq_pkt_batch_hdr
  zb_buf :: bytes
  zb_bufpos :: u32
  zb_first_pktsec :: int
  zb_heartbeat_num :: u16
  zb_data_bytes :: u32

record zmq_error_info =
  ze_first_pktsec :: int
  ze_nb_drop_packets :: u64
  ze_nb_drop_batches :: u64
  ze_nb_too_small_packets :: u64
  ze_send_error :: string

record zmq_output = output_core +
  z_service_tag :: u16
  z_pkts_buf :: zmq_pkts_buf
  z_heartbeat_ms :: int
  z_last_pkt_tv :: timeval
  z_error_info :: zmq_error_info

record zmq_env =
  zk_reply :: "nat \<Rightarrow> int"
  zk_strerror :: "nat \<Rightarrow> string"
  zk_clock :: "nat \<Rightarrow> timeval"
  zk_sends :: nat
  zk_clock_calls :: nat
  zk_delivered :: "bytes list"

type_synonym zmq_state = "zmq_output \<times> zmq_env"

definition zmq_send :: "bytes \<Rightarrow> zmq_env \<Rightarrow> int \<times> zmq_env" where
  "zmq_send msg env =
    (let rc = zk_reply env (zk_sends env); env = env\<lparr>zk_sends := zk_sends env + 1\<rparr>
     in (rc, if rc \<noteq> -1 then env\<lparr>zk_delivered := zk_delivered env @ [msg]\<rparr> else env))"

definition gettimeofday :: "zmq_env \<Rightarrow> timeval \<times> zmq_env" where
  "gettimeofday env = (zk_clock env (zk_clock_calls env), env\<lparr>zk_clock_calls := zk_clock_calls env + 1\<rparr>)"

section \<open>Helpers\<close>

text \<open>The bytes of the \<open>mpls_header\<close> bit-fields on a little-endian host.\<close>

definition make_mpls_hdr :: "int \<Rightarrow> u32 \<Rightarrow> bytes" where
  "make_mpls_hdr direct service_tag =
    [0x80 OR push_bit 3 (word_of_int direct AND 0x0F),
     ucast (drop_bit 4 service_tag),
     0x01 OR push_bit 4 (ucast (service_tag AND 0x0F)),
     0xFF]"

text \<open>\<open>strtoul(byte_str, &endptr, 16)\<close> on two characters, with the requirement that both are
  consumed: white space and a plus sign may precede the digits.\<close>

definition strtoul_hex2 :: "char \<Rightarrow> char \<Rightarrow> nat option" where
  "strtoul_hex2 a b =
    (case hex_val a of
       Some h \<Rightarrow> (case hex_val b of Some l \<Rightarrow> Some (16 * h + l) | None \<Rightarrow> None)
     | None \<Rightarrow> if is_space a \<or> a = CHR ''+'' then hex_val b else None)"

text \<open>The first loop of \<open>uuid_to_bytes\<close>: \<^term>\<open>None\<close> for more than 32 characters.\<close>

fun uuid_clean :: "string \<Rightarrow> string \<Rightarrow> string option" where
  "uuid_clean [] clean = Some clean"
| "uuid_clean (c # cs) clean =
    (if c \<noteq> CHR ''-'' then if length clean \<ge> 32 then None else uuid_clean cs (clean @ [c])
     else uuid_clean cs clean)"

fun uuid_pairs :: "string \<Rightarrow> bytes option" where
  "uuid_pairs (a # b # cs) = do { v \<leftarrow> strtoul_hex2 a b; vs \<leftarrow> uuid_pairs cs; Some (of_nat v # vs) }"
| "uuid_pairs _ = Some []"

definition uuid_to_bytes :: "string \<Rightarrow> bytes option" where
  "uuid_to_bytes uuid = do {
     clean \<leftarrow> uuid_clean uuid [];
     if length clean \<noteq> 32 then None else uuid_pairs clean }"

text \<open>\<open>l2_header_len\<close>: \<^term>\<open>Some 0\<close> when the capture ends inside the tag stack.\<close>

function l2_walk :: "bytes \<Rightarrow> nat \<Rightarrow> nat \<Rightarrow> u16 \<Rightarrow> nat option" where
  "l2_walk pkt caplen offset ether_type =
    (if is_vlan_ethertype ether_type
     then if offset + 4 > caplen then Some 0
          else do { et \<leftarrow> rd16 pkt (offset + 2); l2_walk pkt caplen (offset + 4) et }
     else Some offset)"
  by pat_completeness auto
termination
  by (relation "measure (\<lambda>(p, c, off, e). c - off)") auto

declare l2_walk.simps [simp del]

definition l2_header_len :: "bytes \<Rightarrow> nat \<Rightarrow> nat option" where
  "l2_header_len pkt_data caplen =
    (if caplen < 14 then Some 0
     else do { ether_type \<leftarrow> rd16 pkt_data 12; l2_walk pkt_data caplen 14 ether_type })"

section \<open>Flushing\<close>

definition zmq_flush_error_info :: "zmq_error_info \<Rightarrow> zmq_error_info" where
  "zmq_flush_error_info ei =
    (let ei = ei\<lparr>ze_first_pktsec := 0\<rparr>;
         ei = (if ze_nb_too_small_packets ei > 0 then ei\<lparr>ze_nb_too_small_packets := 0\<rparr> else ei)
     in if ze_nb_drop_batches ei > 0 \<or> ze_nb_drop_packets ei > 0
        then ei\<lparr>ze_nb_drop_batches := 0, ze_nb_drop_packets := 0, ze_send_error := []\<rparr> else ei)"

definition zmq_check_error_info :: "int \<Rightarrow> zmq_error_info \<Rightarrow> zmq_error_info" where
  "zmq_check_error_info sec ei =
    (if ze_first_pktsec ei = 0 then ei\<lparr>ze_first_pktsec := sec\<rparr>
     else if sec > ze_first_pktsec ei + ERROR_INFO_FLUSH_MAX_DUR_SEC
     then (zmq_flush_error_info ei)\<lparr>ze_first_pktsec := sec\<rparr> else ei)"

definition batch_hdr_bytes :: "zmq_pkt_batch_hdr \<Rightarrow> u16 \<Rightarrow> bytes" where
  "batch_hdr_bytes hdr send_num = bh_version hdr @ be16 send_num @ bh_keybit hdr @ bh_uuid hdr"

definition zmq_flush_packet :: "zmq_state \<Rightarrow> zmq_state option" where
  "zmq_flush_packet s =
    (let (out, env) = s; pb = z_pkts_buf out; send_num = bh_pkts_num (zb_hdr pb) in do {
     buf \<leftarrow> wr_bytes (zb_buf pb) 0 (batch_hdr_bytes (zb_hdr pb) send_num);
     let ei = zmq_check_error_info (zb_first_pktsec pb) (z_error_info out);
     let data_num = send_num - zb_heartbeat_num pb;
     let data_bytes = zb_data_bytes pb;
     msg \<leftarrow> rd_bytes buf 0 (unat (zb_bufpos pb));
     let (rc, env) = zmq_send msg env;
     let st = o_stats out;
     let (st, ei) =
       (if rc \<noteq> -1
        then (st\<lparr>fwd_bytes := bytes_stats_add (fwd_bytes st) (ucast data_bytes),
                fwd_packets := packets_stats_add (fwd_packets st) (ucast data_num),
                heartbeat_packets := packets_stats_add (heartbeat_packets st) (ucast (zb_heartbeat_num pb))\<rparr>, ei)
        else
          (st\<lparr>error_drop_bytes := bytes_stats_add (error_drop_bytes st) (ucast data_bytes),
              error_drop_packets := packets_stats_add (error_drop_packets st) (ucast data_num)\<rparr>,
           let ei = (if ze_nb_drop_batches ei = 0
                     then ei\<lparr>ze_send_error := take (ERROR_BUFFER_SIZE - 1) (''zmq_send failed: '' @ zk_strerror env (zk_sends env))\<rparr>
                     else ei)
           in ei\<lparr>ze_nb_drop_batches := ze_nb_drop_batches ei + 1,
                 ze_nb_drop_packets := ze_nb_drop_packets ei + ucast data_num\<rparr>));
     let pb = pb\<lparr>zb_buf := buf, zb_first_pktsec := 0, zb_bufpos := of_nat BATCH_HDR_LEN,
                 zb_hdr := (zb_hdr pb)\<lparr>bh_pkts_num := 0\<rparr>, zb_heartbeat_num := 0, zb_data_bytes := 0\<rparr>;
     Some (out\<lparr>o_stats := st, z_error_info := ei, z_pkts_buf := pb\<rparr>, env) })"

definition zmq_flush_if_stale :: "zmq_state \<Rightarrow> int \<Rightarrow> zmq_state option" where
  "zmq_flush_if_stale s now =
    (let pb = z_pkts_buf (fst s) in
     if bh_pkts_num (zb_hdr pb) > 0 \<and> zb_first_pktsec pb \<noteq> 0 \<and> now > zb_first_pktsec pb + ZMQ_PKTS_FLUSH_MAX_DUR_SEC
     then zmq_flush_packet s else Some s)"

section \<open>Sending a packet\<close>

text \<open>\<open>zmq_pkt_hdr_t\<close> in network order.\<close>

definition pkt_hdr_bytes :: "timeval \<Rightarrow> u32 \<Rightarrow> u32 \<Rightarrow> bytes" where
  "pkt_hdr_bytes ts caplen len = be32 (word_of_int (tv_sec ts)) @ be32 (word_of_int (tv_usec ts)) @ be32 caplen @ be32 len"

text \<open>The writes of one captured packet into the batch buffer from \<open>buff_pos\<close> on.  They return the
  buffer and the new position.\<close>

definition write_record ::
  "bytes \<Rightarrow> nat \<Rightarrow> pcap_pkthdr \<Rightarrow> bytes \<Rightarrow> nat \<Rightarrow> nat \<Rightarrow> int \<Rightarrow> u16 \<Rightarrow> (bytes \<times> nat) option" where
  "write_record buf buff_pos header pkt_data l2_len frame_len direct service_tag = (do {
     let record_len = (of_nat (frame_len + 4) :: u16);
     buf \<leftarrow> wr_bytes buf buff_pos (be16 record_len);
     let buff_pos = buff_pos + 2;
     buf \<leftarrow> wr_bytes buf buff_pos (pkt_hdr_bytes (ph_ts header) (ucast record_len) (ph_len header + 4));
     let buff_pos = buff_pos + 16;
     eth_hdr_copy \<leftarrow> rd_bytes pkt_data 0 14;
     let vlan_total_size = l2_len - 14;
     let has_vlan = (vlan_total_size > 0);
     let eth_hdr_copy = (if \<not> has_vlan then take 12 eth_hdr_copy @ be16 ETHER_TYPE_MPLS else eth_hdr_copy);
     buf \<leftarrow> wr_bytes buf buff_pos eth_hdr_copy;
     let buff_pos = buff_pos + 14;
     (buf, buff_pos) \<leftarrow>
       (if has_vlan then do {
          tags \<leftarrow> rd_bytes pkt_data 14 vlan_total_size;
          buf \<leftarrow> wr_bytes buf buff_pos tags;
          buf \<leftarrow> wr_bytes buf (buff_pos + vlan_total_size - 2) (be16 ETHER_TYPE_MPLS);
          Some (buf, buff_pos + vlan_total_size) }
        else Some (buf, buff_pos));
     buf \<leftarrow> wr_bytes buf buff_pos (make_mpls_hdr direct (ucast service_tag));
     let buff_pos = buff_pos + 4;
     let payload_offset = 14 + vlan_total_size;
     let payload_copy_len = frame_len - payload_offset;
     data \<leftarrow> rd_bytes pkt_data payload_offset payload_copy_len;
     buf \<leftarrow> wr_bytes buf buff_pos data;
     Some (buf, buff_pos + payload_copy_len) })"

text \<open>The part of \<open>zmq_output_send_packet\<close> behind the drops: the flush decision, then the record.\<close>

definition zmq_append_packet :: "zmq_state \<Rightarrow> pcap_pkthdr \<Rightarrow> bytes \<Rightarrow> nat \<Rightarrow> u64 \<Rightarrow> int \<Rightarrow> (zmq_state \<times> int) option" where
  "zmq_append_packet s header pkt_data l2_len frame_len direct =
    (let (out, env) = s; sec = tv_sec (ph_ts header); pb = z_pkts_buf out;
         pb = (if bh_pkts_num (zb_hdr pb) = 0 then pb\<lparr>zb_first_pktsec := sec\<rparr> else pb);
         is_pkt_num_exceeded = (bh_pkts_num (zb_hdr pb) \<ge> ZMQ_PKTS_FLUSH_MAX_NUM);
         is_time_diff_exceeded = (zb_first_pktsec pb \<noteq> 0 \<and> sec > zb_first_pktsec pb + ZMQ_PKTS_FLUSH_MAX_DUR_SEC);
         is_buffer_full = (unat (zb_bufpos pb) + 2 + 16 + unat (of_nat (unat frame_len + 4) :: u16) > ZMQ_MAX_BATCH_BUF_SIZE);
         out = out\<lparr>z_pkts_buf := pb\<rparr>
     in do {
       (out, env) \<leftarrow>
         (if is_pkt_num_exceeded \<or> is_time_diff_exceeded \<or> is_buffer_full then do {
            (out, env) \<leftarrow> zmq_flush_packet (out, env);
            Some (out\<lparr>z_pkts_buf := (z_pkts_buf out)\<lparr>zb_first_pktsec := sec\<rparr>\<rparr>, env) }
          else Some (out, env));
       let pb = z_pkts_buf out;
       let pb = (if zb_first_pktsec pb = 0 then pb\<lparr>zb_first_pktsec := sec\<rparr> else pb);
       (buf, buff_pos) \<leftarrow> write_record (zb_buf pb) (unat (zb_bufpos pb)) header pkt_data l2_len (unat frame_len) direct (z_service_tag out);
       let pb = pb\<lparr>zb_buf := buf, zb_bufpos := of_nat buff_pos,
                   zb_hdr := (zb_hdr pb)\<lparr>bh_pkts_num := bh_pkts_num (zb_hdr pb) + 1\<rparr>,
                   zb_data_bytes := zb_data_bytes pb + ucast frame_len\<rparr>;
       Some ((out\<lparr>z_pkts_buf := pb, z_last_pkt_tv := ph_ts header\<rparr>, env), 0) })"

definition zmq_send_packet :: "zmq_state \<Rightarrow> pcap_pkthdr \<Rightarrow> bytes \<Rightarrow> int \<Rightarrow> (zmq_state \<times> int) option" where
  "zmq_send_packet s header pkt_data direct =
    (let (out, env) = s; sec = tv_sec (ph_ts header) in do {
     l2_len \<leftarrow> l2_header_len pkt_data (unat (output_frame_len (ph_caplen header) 0 ZMQ_MAX_FRAME_LEN));
     if l2_len = 0 then do {
       let ei = z_error_info out;
       let out = out\<lparr>z_error_info := ei\<lparr>ze_nb_too_small_packets := ze_nb_too_small_packets ei + 1\<rparr>\<rparr>;
       s \<leftarrow> zmq_flush_if_stale (count_as Error_drop (ucast (ph_caplen header)) out, env) sec;
       Some (s, -1) }
     else do {
       let frame_len = output_frame_len (ph_caplen header) (o_slice out) ZMQ_MAX_FRAME_LEN;
       let frame_len = (if unat frame_len < l2_len then of_nat l2_len else frame_len);
       let (admitted, out) = output_admit out frame_len (ph_ts header) direct;
       if \<not> admitted then do {
         s \<leftarrow> zmq_flush_if_stale (out, env) sec;
         Some (s, -1) }
       else zmq_append_packet (out, env) header pkt_data l2_len frame_len direct } })"

section \<open>Heartbeats\<close>

definition zmq_send_heartbeat_packet :: "zmq_state \<Rightarrow> timeval \<Rightarrow> zmq_state option" where
  "zmq_send_heartbeat_packet s tv = do {
     (out, env) \<leftarrow> (if unat (zb_bufpos (z_pkts_buf (fst s))) + 2 + 16 + 14 > ZMQ_MAX_BATCH_BUF_SIZE
                    then zmq_flush_packet s else Some s);
     let pb = z_pkts_buf out;
     let pb = (if bh_pkts_num (zb_hdr pb) = 0 then pb\<lparr>zb_first_pktsec := tv_sec tv\<rparr> else pb);
     let pos = unat (zb_bufpos pb);
     buf \<leftarrow> wr_bytes (zb_buf pb) pos (be16 14);
     buf \<leftarrow> wr_bytes buf (pos + 2) (pkt_hdr_bytes tv 14 14);
     buf \<leftarrow> wr_bytes buf (pos + 18) (replicate 14 0);
     buf \<leftarrow> wr_bytes buf (pos + 18 + 12) (be16 ZMQ_HEARTBEAT_ETHER_TYPE);
     let pb = pb\<lparr>zb_buf := buf, zb_heartbeat_num := zb_heartbeat_num pb + 1, zb_bufpos := of_nat (pos + 18 + 14),
                 zb_hdr := (zb_hdr pb)\<lparr>bh_pkts_num := bh_pkts_num (zb_hdr pb) + 1\<rparr>\<rparr>;
     (out, env) \<leftarrow> zmq_flush_packet (out\<lparr>z_pkts_buf := pb\<rparr>, env);
     Some (out\<lparr>z_last_pkt_tv := tv\<rparr>, env) }"

definition c_div :: "int \<Rightarrow> int \<Rightarrow> int" where
  "c_div a b = (if a < 0 then - ((- a) div b) else a div b)"

definition zmq_heartbeat :: "zmq_state \<Rightarrow> int \<Rightarrow> zmq_state option" where
  "zmq_heartbeat s now = do {
     (out, env) \<leftarrow> zmq_flush_if_stale s now;
     if z_heartbeat_ms out \<le> 0 then Some (out, env)
     else let coarse_elapsed_s = now - tv_sec (z_last_pkt_tv out)
          in if coarse_elapsed_s * 1000 < z_heartbeat_ms out - 1000 then Some (out, env)
             else let (now_tv, env) = gettimeofday env;
                      elapsed_ms = (tv_sec now_tv - tv_sec (z_last_pkt_tv out)) * 1000
                                   + c_div (tv_usec now_tv - tv_usec (z_last_pkt_tv out)) 1000
                  in if elapsed_ms \<ge> z_heartbeat_ms out then zmq_send_heartbeat_packet (out, env) now_tv
                     else Some (out, env) }"

section \<open>Creation and destruction\<close>

text \<open>The replies of \<open>zmq_ctx_new\<close>, \<open>zmq_socket\<close>, the two \<open>zmq_setsockopt\<close> calls, \<open>zmq_connect\<close> and
  \<open>calloc\<close>.\<close>

record zmq_setup =
  zs_ctx_new :: bool
  zs_socket :: bool
  zs_hwm :: bool
  zs_linger :: bool
  zs_connect :: bool
  zs_calloc :: bool

record zmq_options =
  zo_host :: string
  zo_port :: u16
  zo_service_tag :: u32
  zo_uuid :: "string option"
  zo_rate_limit_mbps :: u64
  zo_slice :: int
  zo_heartbeat_ms :: int

definition zmq_output_new :: "zmq_options \<Rightarrow> output_stats \<Rightarrow> zmq_setup \<Rightarrow> zmq_env \<Rightarrow> (string + zmq_output) \<times> zmq_env" where
  "zmq_output_new opts st zs env =
    (let uuid = (case zo_uuid opts of None \<Rightarrow> Some (replicate 16 0) | Some u \<Rightarrow> if u = [] then Some (replicate 16 0) else uuid_to_bytes u) in
     case uuid of None \<Rightarrow> (Inl (''invalid uuid: '' @ the (zo_uuid opts)), env)
     | Some uuid \<Rightarrow>
       if \<not> zs_ctx_new zs then (Inl ''zmq_ctx_new() error'', env)
       else if \<not> zs_socket zs then (Inl ''zmq_socket() error'', env)
       else if \<not> zs_hwm zs then (Inl ''set hwm error'', env)
       else if \<not> zs_linger zs then (Inl ''set linger error'', env)
       else
         let address = take 255 (''tcp://'' @ zo_host opts @ '':'' @ dec_nat (unat (zo_port opts))) in
         if \<not> zs_connect zs then (Inl (''zmq connect address '' @ address @ '' error''), env)
         else if \<not> zs_calloc zs then (Inl ''failed to allocate memory for zmq_output_t'', env)
         else
           let (tv, env) = gettimeofday env in
           (Inr \<lparr>o_stats = st, o_rate_limit_mbps = zo_rate_limit_mbps opts, o_throttle = new_throttle (zo_rate_limit_mbps opts),
             o_slice = zo_slice opts, z_service_tag = ucast (zo_service_tag opts),
             z_pkts_buf = \<lparr>zb_hdr = \<lparr>bh_version = be16 ZMQ_BATCH_PKTS_VERSION, bh_pkts_num = 0, bh_keybit = be32 (zo_service_tag opts), bh_uuid = uuid\<rparr>,
               zb_buf = replicate ZMQ_MAX_BATCH_BUF_SIZE 0, zb_bufpos = of_nat BATCH_HDR_LEN, zb_first_pktsec = 0,
               zb_heartbeat_num = 0, zb_data_bytes = 0\<rparr>,
             z_heartbeat_ms = zo_heartbeat_ms opts, z_last_pkt_tv = tv,
             z_error_info = \<lparr>ze_first_pktsec = 0, ze_nb_drop_packets = 0, ze_nb_drop_batches = 0, ze_nb_too_small_packets = 0, ze_send_error = []\<rparr>\<rparr>, env))"

definition zmq_output_destroy :: "zmq_state \<Rightarrow> zmq_state option" where
  "zmq_output_destroy s = (if bh_pkts_num (zb_hdr (z_pkts_buf (fst s))) > 0 then zmq_flush_packet s else Some s)"

section \<open>Records\<close>

text \<open>A record of a batch: what one captured packet or one heartbeat leaves in the buffer.\<close>

record zmq_record =
  zr_ts :: timeval
  zr_caplen :: u32
  zr_len :: u32
  zr_frame :: bytes
  zr_heartbeat :: bool

definition encode_record :: "zmq_record \<Rightarrow> bytes" where
  "encode_record r = be16 (of_nat (length (zr_frame r))) @ pkt_hdr_bytes (zr_ts r) (zr_caplen r) (zr_len r) @ zr_frame r"

definition tagged_frame :: "bytes \<Rightarrow> nat \<Rightarrow> nat \<Rightarrow> int \<Rightarrow> u16 \<Rightarrow> bytes" where
  "tagged_frame pkt l2_len frame_len direct service_tag =
     take (l2_len - 2) pkt @ be16 ETHER_TYPE_MPLS @ make_mpls_hdr direct (ucast service_tag) @
     take (frame_len - l2_len) (drop l2_len pkt)"

definition packet_record :: "pcap_pkthdr \<Rightarrow> bytes \<Rightarrow> nat \<Rightarrow> nat \<Rightarrow> int \<Rightarrow> u16 \<Rightarrow> zmq_record" where
  "packet_record h pkt l2_len frame_len direct service_tag =
     \<lparr>zr_ts = ph_ts h, zr_caplen = of_nat (frame_len + 4), zr_len = ph_len h + 4,
      zr_frame = tagged_frame pkt l2_len frame_len direct service_tag, zr_heartbeat = False\<rparr>"

definition heartbeat_record :: "timeval \<Rightarrow> zmq_record" where
  "heartbeat_record tv = \<lparr>zr_ts = tv, zr_caplen = 14, zr_len = 14,
     zr_frame = replicate 12 0 @ be16 ZMQ_HEARTBEAT_ETHER_TYPE, zr_heartbeat = True\<rparr>"

lemma length_pkt_hdr_bytes [simp]: "length (pkt_hdr_bytes ts c l) = 16"
  by (simp add: pkt_hdr_bytes_def)

lemma length_mpls [simp]: "length (make_mpls_hdr d t) = 4"
  by (simp add: make_mpls_hdr_def)

lemma length_encode_record [simp]: "length (encode_record r) = 18 + length (zr_frame r)"
  by (simp add: encode_record_def)

lemma put_adjacent:
  "i + length xs + length ys \<le> length bs \<Longrightarrow> j = i + length xs \<Longrightarrow> put (put bs i xs) j ys = put bs i (xs @ ys)"
  by (simp add: put_def ac_simps)

lemma put_inside:
  "i + length xs \<le> length bs \<Longrightarrow> k + length ys \<le> length xs \<Longrightarrow> j = i + k \<Longrightarrow> put (put bs i xs) j ys = put bs i (put xs k ys)"
  by (simp add: put_def)

lemma tagged_frame_length:
  "14 \<le> l2 \<Longrightarrow> l2 \<le> n \<Longrightarrow> n \<le> length pkt \<Longrightarrow> length (tagged_frame pkt l2 n d t) = n + 4"
  by (simp add: tagged_frame_def)

lemma l2_walk_run:
  assumes "off \<le> caplen" "caplen \<le> length pkt"
  shows "\<exists>l2. l2_walk pkt caplen off et = Some l2 \<and> (l2 = 0 \<or> off \<le> l2 \<and> l2 \<le> caplen)"
  using assms
proof (induction pkt caplen off et rule: l2_walk.induct)
  case (1 pkt caplen off et)
  show ?case
  proof (cases "is_vlan_ethertype et \<and> off + 4 \<le> caplen")
    case True
    have "rd16 pkt (off + 2) = Some (of_be16 (pkt ! (off + 2)) (pkt ! (off + 3)))"
      using True 1(3) by (simp add: rd16_in numeral_3_eq_3)
    then show ?thesis using 1(1) [of "of_be16 (pkt ! (off + 2)) (pkt ! (off + 3))"] True 1(3)
      by (subst l2_walk.simps) fastforce
  next
    case False
    then show ?thesis using 1(2) by (subst l2_walk.simps) auto
  qed
qed

lemma l2_header_len_run:
  "caplen \<le> length pkt \<Longrightarrow> \<exists>l2. l2_header_len pkt caplen = Some l2 \<and> (l2 = 0 \<or> 14 \<le> l2 \<and> l2 \<le> caplen)"
  using l2_walk_run [of 14 caplen pkt] by (auto simp: l2_header_len_def rd16_in)

lemma ucast_of_nat16: "k < 65536 \<Longrightarrow> ucast (of_nat k :: u16) = (of_nat k :: u32)"
  by (simp add: word_unat_eq_iff unat_of_nat)

lemma write_record_run:
  assumes pos: "pos + 22 + n \<le> length buf" and l2: "14 \<le> l2" "l2 \<le> n" and n: "n \<le> length pkt" "n \<le> 65531"
  shows "write_record buf pos h pkt l2 n dir tag
    = Some (put buf pos (encode_record (packet_record h pkt l2 n dir tag)), pos + 22 + n)"
proof -
  let ?len = "be16 (of_nat (n + 4))" and ?hdr = "pkt_hdr_bytes (ph_ts h) (ucast (of_nat (n + 4) :: u16)) (ph_len h + 4)"
  let ?mpls = "make_mpls_hdr dir (ucast tag)" and ?pay = "take (n - l2) (drop l2 pkt)"
  let ?l2 = "take (l2 - 2) pkt @ be16 ETHER_TYPE_MPLS"
  have lens: "length ?l2 = l2" "length ?pay = n - l2" using l2 n by simp_all
  have rc: "ucast (of_nat (n + 4) :: u16) = (of_nat (n + 4) :: u32)"
    using n(2) by (intro ucast_of_nat16) simp
  have fl: "length (zr_frame (packet_record h pkt l2 n dir tag)) = n + 4"
    using tagged_frame_length [OF l2 n(1)] by (simp add: packet_record_def)
  have enc: "encode_record (packet_record h pkt l2 n dir tag) = ?len @ ?hdr @ ?l2 @ ?mpls @ ?pay"
    unfolding encode_record_def fl by (simp only: packet_record_def zmq_record.select_convs tagged_frame_def rc append_assoc)
  have r1: "rd_bytes pkt 0 14 = Some (take 14 pkt)" "rd_bytes pkt l2 (n - l2) = Some ?pay"
    using l2 n by (simp_all add: rd_bytes_in)
  show ?thesis
  proof (cases "l2 = 14")
    case True
    have t12: "take 12 (take 14 pkt) @ be16 ETHER_TYPE_MPLS = ?l2" using True by simp
    have w: "wr_bytes buf pos ?len = Some (put buf pos ?len)"
      "wr_bytes (put buf pos ?len) (pos + 2) ?hdr = Some (put buf pos (?len @ ?hdr))"
      "wr_bytes (put buf pos (?len @ ?hdr)) (pos + 2 + 16) ?l2 = Some (put buf pos (?len @ ?hdr @ ?l2))"
      "wr_bytes (put buf pos (?len @ ?hdr @ ?l2)) (pos + 2 + 16 + 14) ?mpls = Some (put buf pos (?len @ ?hdr @ ?l2 @ ?mpls))"
      "wr_bytes (put buf pos (?len @ ?hdr @ ?l2 @ ?mpls)) (pos + 2 + 16 + 14 + 4) ?pay
         = Some (put buf pos (?len @ ?hdr @ ?l2 @ ?mpls @ ?pay))"
      using pos l2 n lens True by (simp_all add: wr_bytes_in put_adjacent)
    show ?thesis unfolding enc write_record_def Let_def
      using w r1 l2 n True t12 by simp
  next
    case False
    let ?tags = "take (l2 - 14) (drop 14 pkt)"
    have tg: "rd_bytes pkt 14 (l2 - 14) = Some ?tags" "length ?tags = l2 - 14" using l2 n by (simp_all add: rd_bytes_in)
    have "take 14 pkt @ ?tags = take l2 pkt" using l2 by (metis le_add_diff_inverse take_add)
    then have "put (?len @ ?hdr @ take 14 pkt @ ?tags) (16 + l2) (be16 ETHER_TYPE_MPLS) = ?len @ ?hdr @ ?l2"
      using l2 n by (simp add: put_def min_def)
    then have ov: "put (put buf pos (?len @ ?hdr @ take 14 pkt @ ?tags)) (16 + (pos + l2)) (be16 ETHER_TYPE_MPLS) = put buf pos (?len @ ?hdr @ ?l2)"
      using put_inside [of pos "?len @ ?hdr @ take 14 pkt @ ?tags" buf "16 + l2" "be16 ETHER_TYPE_MPLS" "16 + (pos + l2)"] pos l2 n by simp
    have ix: "pos + 2 + 16 + 14 + (l2 - 14) - 2 = 16 + (pos + l2)" "pos + 2 + 16 + 14 + (l2 - 14) = pos + 18 + l2" using l2 by simp_all
    have w: "wr_bytes buf pos ?len = Some (put buf pos ?len)"
      "wr_bytes (put buf pos ?len) (pos + 2) ?hdr = Some (put buf pos (?len @ ?hdr))"
      "wr_bytes (put buf pos (?len @ ?hdr)) (pos + 2 + 16) (take 14 pkt) = Some (put buf pos (?len @ ?hdr @ take 14 pkt))"
      "wr_bytes (put buf pos (?len @ ?hdr @ take 14 pkt)) (pos + 2 + 16 + 14) ?tags = Some (put buf pos (?len @ ?hdr @ take 14 pkt @ ?tags))"
      "wr_bytes (put buf pos (?len @ ?hdr @ take 14 pkt @ ?tags)) (pos + 2 + 16 + 14 + (l2 - 14) - 2) (be16 ETHER_TYPE_MPLS)
         = Some (put buf pos (?len @ ?hdr @ ?l2))"
      "wr_bytes (put buf pos (?len @ ?hdr @ ?l2)) (pos + 2 + 16 + 14 + (l2 - 14)) ?mpls = Some (put buf pos (?len @ ?hdr @ ?l2 @ ?mpls))"
      "wr_bytes (put buf pos (?len @ ?hdr @ ?l2 @ ?mpls)) (pos + 2 + 16 + 14 + (l2 - 14) + 4) ?pay
         = Some (put buf pos (?len @ ?hdr @ ?l2 @ ?mpls @ ?pay))"
      using pos l2 n lens tg(2) ov unfolding ix by (simp_all add: wr_bytes_in put_adjacent)
    have "14 + (l2 - 14) = l2" "0 < l2 - 14" using l2 False by simp_all
    then show ?thesis unfolding enc write_record_def Let_def
      using w r1 tg l2 n by simp
  qed
qed

section \<open>The batch buffer and what it stands for\<close>

definition records_len :: "zmq_record list \<Rightarrow> nat" where
  "records_len rs = sum_list (map (\<lambda>r. length (encode_record r)) rs)"

definition counted :: "zmq_record \<Rightarrow> nat" where
  "counted r = (if zr_heartbeat r then 0 else length (zr_frame r) - 4)"

definition data_num :: "zmq_record list \<Rightarrow> nat" where
  "data_num rs = length (filter (\<lambda>r. \<not> zr_heartbeat r) rs)"

definition data_len :: "zmq_record list \<Rightarrow> nat" where
  "data_len rs = sum_list (map counted rs)"

definition beat_num :: "zmq_record list \<Rightarrow> nat" where
  "beat_num rs = length (filter zr_heartbeat rs)"

lemmas tallies = records_len_def data_num_def data_len_def beat_num_def

definition record_ok :: "zmq_record \<Rightarrow> bool" where
  "record_ok r \<longleftrightarrow> 14 \<le> length (zr_frame r) \<and> length (zr_frame r) \<le> 65535 \<and> zr_caplen r = of_nat (length (zr_frame r))"

definition hdr_ok :: "zmq_pkt_batch_hdr \<Rightarrow> bool" where
  "hdr_ok h \<longleftrightarrow> bh_version h = be16 2 \<and> length (bh_keybit h) = 4 \<and> length (bh_uuid h) = 16"

definition batch_ok :: "zmq_record list \<Rightarrow> bool" where
  "batch_ok rs \<longleftrightarrow> 24 + records_len rs \<le> 1048576 \<and> (\<forall>r\<in>set rs. record_ok r)"

definition zmq_rep :: "zmq_pkts_buf \<Rightarrow> zmq_record list \<Rightarrow> bool" where
  "zmq_rep pb rs \<longleftrightarrow> length (zb_buf pb) = 1048576 \<and> unat (zb_bufpos pb) = 24 + records_len rs \<and>
     take (records_len rs) (drop 24 (zb_buf pb)) = concat (map encode_record rs) \<and>
     unat (bh_pkts_num (zb_hdr pb)) = length rs \<and> unat (zb_heartbeat_num pb) = beat_num rs \<and>
     unat (zb_data_bytes pb) = data_len rs \<and> hdr_ok (zb_hdr pb) \<and> batch_ok rs"

definition encode_batch :: "bytes \<Rightarrow> bytes \<Rightarrow> zmq_record list \<Rightarrow> bytes" where
  "encode_batch keybit uuid rs = be16 2 @ be16 (of_nat (length rs)) @ keybit @ uuid @ concat (map encode_record rs)"

lemma tallies_append [simp]:
  "records_len (rs @ [r]) = records_len rs + 18 + length (zr_frame r)"
  "data_num (rs @ [r]) = data_num rs + (if zr_heartbeat r then 0 else 1)"
  "data_len (rs @ [r]) = data_len rs + counted r"
  "beat_num (rs @ [r]) = beat_num rs + (if zr_heartbeat r then 1 else 0)"
  by (simp_all add: tallies)

lemma tallies_Nil [simp]: "records_len [] = 0" "data_num [] = 0" "data_len [] = 0" "beat_num [] = 0"
  by (simp_all add: tallies)

lemma length_records [simp]: "length (concat (map encode_record rs)) = records_len rs"
  by (induction rs) (simp_all add: records_len_def)

lemma data_beat: "data_num rs + beat_num rs = length rs"
  unfolding data_num_def beat_num_def using sum_length_filter_compl [of zr_heartbeat rs] by simp

lemma batch_bounds:
  assumes "batch_ok rs"
  shows "32 * length rs \<le> records_len rs" "data_len rs \<le> records_len rs" "records_len rs \<le> 1048552" "length rs \<le> 32767"
proof -
  have r: "\<forall>r\<in>set rs. record_ok r" using assms by (simp add: batch_ok_def)
  show a: "32 * length rs \<le> records_len rs" using r
  proof (induction rs)
    case (Cons r rs)
    then have "32 \<le> 18 + length (zr_frame r)" by (simp add: record_ok_def)
    then show ?case using Cons by (simp add: records_len_def)
  qed simp
  show "data_len rs \<le> records_len rs"
  proof (induction rs)
    case (Cons r rs)
    have "counted r \<le> length (zr_frame r)" by (simp add: counted_def)
    then show ?case using Cons by (simp add: data_len_def records_len_def)
  qed simp
  show "records_len rs \<le> 1048552" using assms by (simp add: batch_ok_def)
  then show "length rs \<le> 32767" using a by linarith
qed

lemma rep_append:
  assumes rep: "zmq_rep pb rs" and r: "record_ok r" and fit: "24 + records_len rs + 18 + length (zr_frame r) \<le> 1048576"
  shows "zmq_rep (pb\<lparr>zb_buf := put (zb_buf pb) (unat (zb_bufpos pb)) (encode_record r),
      zb_bufpos := of_nat (24 + records_len rs + 18 + length (zr_frame r)),
      zb_hdr := (zb_hdr pb)\<lparr>bh_pkts_num := bh_pkts_num (zb_hdr pb) + 1\<rparr>,
      zb_heartbeat_num := (if zr_heartbeat r then zb_heartbeat_num pb + 1 else zb_heartbeat_num pb),
      zb_data_bytes := zb_data_bytes pb + of_nat (counted r)\<rparr>) (rs @ [r])"
proof -
  let ?L = "records_len rs"
  have p: "unat (zb_bufpos pb) = 24 + ?L" "length (zb_buf pb) = 1048576" "batch_ok rs"
    "take ?L (drop 24 (zb_buf pb)) = concat (map encode_record rs)" using rep by (simp_all add: zmq_rep_def)
  have b: "batch_ok (rs @ [r])" using p(3) r fit by (simp add: batch_ok_def add.assoc)
  note bb = batch_bounds [OF p(3)] batch_bounds [OF b]
  have "take (?L + 18 + length (zr_frame r)) (drop 24 (put (zb_buf pb) (24 + ?L) (encode_record r)))
      = take ?L (drop 24 (zb_buf pb)) @ encode_record r"
    using p(2) fit by (simp add: put_def drop_take)
  moreover have "unat (bh_pkts_num (zb_hdr pb) + 1) = Suc (length rs)"
    using rep bb(4) by (simp add: zmq_rep_def unat_word_ariths)
  moreover have "unat (zb_heartbeat_num pb + 1) = Suc (beat_num rs)"
    using rep bb(4) data_beat [of rs] by (simp add: zmq_rep_def unat_word_ariths)
  moreover have "unat (zb_data_bytes pb + of_nat (counted r)) = data_len rs + counted r"
    using rep bb(6,7) by (simp add: zmq_rep_def unat_word_ariths unat_of_nat)
  moreover have "unat (of_nat (24 + ?L + 18 + length (zr_frame r)) :: u32) = 24 + ?L + 18 + length (zr_frame r)"
    using fit by (simp only: unat_of_nat) simp
  moreover have "length (put (zb_buf pb) (24 + ?L) (encode_record r)) = 1048576" using p(2) fit by simp
  ultimately show ?thesis using rep p b unfolding zmq_rep_def hdr_ok_def by simp
qed

section \<open>What a flush does\<close>

definition flush_stats :: "bool \<Rightarrow> zmq_record list \<Rightarrow> output_stats \<Rightarrow> output_stats" where
  "flush_stats sent rs st =
    (if sent
     then st\<lparr>fwd_bytes := bytes_stats_add (fwd_bytes st) (of_nat (data_len rs)),
             fwd_packets := packets_stats_add (fwd_packets st) (of_nat (data_num rs)),
             heartbeat_packets := packets_stats_add (heartbeat_packets st) (of_nat (beat_num rs))\<rparr>
     else st\<lparr>error_drop_bytes := bytes_stats_add (error_drop_bytes st) (of_nat (data_len rs)),
             error_drop_packets := packets_stats_add (error_drop_packets st) (of_nat (data_num rs))\<rparr>)"

text \<open>The configuration an output keeps.\<close>

definition zmq_same :: "zmq_output \<Rightarrow> zmq_output \<Rightarrow> bool" where
  "zmq_same out out' \<longleftrightarrow> o_slice out' = o_slice out \<and> z_service_tag out' = z_service_tag out \<and>
     z_heartbeat_ms out' = z_heartbeat_ms out \<and>
     bh_keybit (zb_hdr (z_pkts_buf out')) = bh_keybit (zb_hdr (z_pkts_buf out)) \<and>
     bh_uuid (zb_hdr (z_pkts_buf out')) = bh_uuid (zb_hdr (z_pkts_buf out))"

abbreviation batch_msg :: "zmq_output \<Rightarrow> zmq_record list \<Rightarrow> bytes" where
  "batch_msg out \<equiv> encode_batch (bh_keybit (zb_hdr (z_pkts_buf out))) (bh_uuid (zb_hdr (z_pkts_buf out)))"

lemma flush_run:
  fixes out :: zmq_output and env :: zmq_env
  assumes rep: "zmq_rep (z_pkts_buf out) rs"
  defines "sent \<equiv> zk_reply env (zk_sends env) \<noteq> -1"
  shows "\<exists>ei pb. zmq_flush_packet (out, env)
      = Some (out\<lparr>o_stats := flush_stats sent rs (o_stats out), z_error_info := ei, z_pkts_buf := pb\<rparr>,
          env\<lparr>zk_sends := zk_sends env + 1, zk_delivered := zk_delivered env @ (if sent then [batch_msg out rs] else [])\<rparr>) \<and>
      zmq_rep pb [] \<and> bh_keybit (zb_hdr pb) = bh_keybit (zb_hdr (z_pkts_buf out)) \<and> bh_uuid (zb_hdr pb) = bh_uuid (zb_hdr (z_pkts_buf out))"
proof -
  let ?pb = "z_pkts_buf out"
  let ?h = "batch_hdr_bytes (zb_hdr ?pb) (bh_pkts_num (zb_hdr ?pb))"
  have r: "length (zb_buf ?pb) = 1048576" "unat (zb_bufpos ?pb) = 24 + records_len rs" "batch_ok rs" "hdr_ok (zb_hdr ?pb)"
    "take (records_len rs) (drop 24 (zb_buf ?pb)) = concat (map encode_record rs)"
    "unat (bh_pkts_num (zb_hdr ?pb)) = length rs" "unat (zb_heartbeat_num ?pb) = beat_num rs" "unat (zb_data_bytes ?pb) = data_len rs"
    using rep by (simp_all add: zmq_rep_def)
  note bb = batch_bounds [OF r(3)]
  have lh: "length ?h = 24" using r(4) by (simp add: batch_hdr_bytes_def hdr_ok_def)
  have w: "wr_bytes (zb_buf ?pb) 0 ?h = Some (put (zb_buf ?pb) 0 ?h)" using r(1) lh by (simp add: wr_bytes_in)
  have "bh_pkts_num (zb_hdr ?pb) = of_nat (length rs)" using r(6) [symmetric] by simp
  then have "?h @ concat (map encode_record rs) = batch_msg out rs"
    using r(4) by (simp add: batch_hdr_bytes_def hdr_ok_def encode_batch_def)
  moreover have "take (24 + records_len rs) (put (zb_buf ?pb) 0 ?h) = ?h @ take (records_len rs) (drop 24 (zb_buf ?pb))"
    using lh by (simp add: put_def)
  ultimately have rd: "rd_bytes (put (zb_buf ?pb) 0 ?h) 0 (unat (zb_bufpos ?pb)) = Some (batch_msg out rs)"
    using r(1,2,5) lh bb(3) by (simp add: rd_bytes_in)
  have "unat (bh_pkts_num (zb_hdr ?pb) - zb_heartbeat_num ?pb) = data_num rs"
    using r(6,7) data_beat [of rs] by (simp add: unat_sub_if_size)
  then have dn: "ucast (bh_pkts_num (zb_hdr ?pb) - zb_heartbeat_num ?pb) = (of_nat (data_num rs) :: u64)"
    "ucast (zb_data_bytes ?pb) = (of_nat (data_len rs) :: u64)" "ucast (zb_heartbeat_num ?pb) = (of_nat (beat_num rs) :: u64)"
    using r(7,8) by (metis of_nat_unat)+
  have em: "zmq_rep (?pb\<lparr>zb_buf := put (zb_buf ?pb) 0 ?h, zb_first_pktsec := 0, zb_bufpos := of_nat BATCH_HDR_LEN,
      zb_hdr := (zb_hdr ?pb)\<lparr>bh_pkts_num := 0\<rparr>, zb_heartbeat_num := 0, zb_data_bytes := 0\<rparr>) []"
    using r(1,4) lh by (simp add: zmq_rep_def zmq_consts hdr_ok_def batch_ok_def)
  show ?thesis unfolding zmq_flush_packet_def zmq_send_def Let_def sent_def
    using w rd em by (simp add: dn flush_stats_def) (intro conjI impI; (rule exI conjI refl)+; simp)
qed

section \<open>The invariant of a running output\<close>

text \<open>A counter that has counted \<open>k\<close> things, up to its capacity.\<close>

definition packets_is :: "packets_stats \<Rightarrow> nat \<Rightarrow> bool" where
  "packets_is s k \<longleftrightarrow> packets_inv s \<and> packets_val s = k mod (2 ^ 64 * 10 ^ 16)"

definition bytes_is :: "bytes_stats \<Rightarrow> nat \<Rightarrow> bool" where
  "bytes_is s k \<longleftrightarrow> bytes_inv s \<and> bytes_val s = k mod (2 ^ 64 * 2 ^ 60)"

lemma packets_is_add: "packets_is s k \<Longrightarrow> n < 2 ^ 64 \<Longrightarrow> packets_is (packets_stats_add s (of_nat n)) (k + n)"
  by (simp add: packets_is_def packets_counter.add_inv packets_counter.add_val unat_of_nat mod_add_left_eq)

lemma bytes_is_add: "bytes_is s k \<Longrightarrow> n < 2 ^ 64 \<Longrightarrow> bytes_is (bytes_stats_add s (of_nat n)) (k + n)"
  by (simp add: bytes_is_def bytes_counter.add_inv bytes_counter.add_val unat_of_nat mod_add_left_eq)

lemmas packets_is_one = packets_is_add [of _ _ 1, simplified]

text \<open>The counters of an output that has delivered the batches \<open>bs\<close> and dropped \<open>d\<close>, \<open>r\<close> and \<open>e\<close>
  packets for their direction, the rate limit and errors.\<close>

definition ledger :: "output_stats \<Rightarrow> zmq_record list list \<Rightarrow> nat \<Rightarrow> nat \<Rightarrow> nat \<Rightarrow> bool" where
  "ledger st bs d r e \<longleftrightarrow> packets_is (fwd_packets st) (data_num (concat bs)) \<and> bytes_is (fwd_bytes st) (data_len (concat bs)) \<and>
     packets_is (heartbeat_packets st) (beat_num (concat bs)) \<and> packets_is (direction_drop_packets st) d \<and>
     packets_is (ratelimit_drop_packets st) r \<and> packets_is (error_drop_packets st) e"

text \<open>The record a captured packet becomes, unless its link header is cut off.\<close>

definition spec_record :: "zmq_output \<Rightarrow> packet \<Rightarrow> zmq_record option" where
  "spec_record out p =
    (let (h, pkt, dir) = p in
       case l2_header_len pkt (unat (output_frame_len (ph_caplen h) 0 ZMQ_MAX_FRAME_LEN)) of
         None \<Rightarrow> None
       | Some l2 \<Rightarrow> if l2 = 0 then None
           else Some (packet_record h pkt l2 (max l2 (unat (output_frame_len (ph_caplen h) (o_slice out) ZMQ_MAX_FRAME_LEN))) dir (z_service_tag out)))"

definition data_records :: "zmq_record list \<Rightarrow> zmq_record list" where
  "data_records = filter (\<lambda>r. \<not> zr_heartbeat r)"

definition zmq_inv :: "zmq_output \<Rightarrow> zmq_env \<Rightarrow> packet list \<Rightarrow> zmq_record list \<Rightarrow> zmq_state \<Rightarrow> bool" where
  "zmq_inv out0 env0 ps rs s \<longleftrightarrow> (\<exists>bs d r e.
     zmq_rep (z_pkts_buf (fst s)) rs \<and> zmq_same out0 (fst s) \<and>
     zk_delivered (snd s) = zk_delivered env0 @ map (batch_msg out0) bs \<and> (\<forall>b\<in>set bs. batch_ok b) \<and>
     ledger (o_stats (fst s)) bs d r e \<and> data_num (concat bs @ rs) + d + r + e = length ps \<and>
     subseq (data_records (concat bs @ rs)) (List.map_filter (spec_record out0) ps))"

lemma zmq_invI:
  "zmq_rep (z_pkts_buf (fst s)) rs \<Longrightarrow> zmq_same out0 (fst s) \<Longrightarrow>
   zk_delivered (snd s) = zk_delivered env0 @ map (batch_msg out0) bs \<Longrightarrow> \<forall>b\<in>set bs. batch_ok b \<Longrightarrow>
   ledger (o_stats (fst s)) bs d r e \<Longrightarrow> data_num (concat bs @ rs) + d + r + e = length ps \<Longrightarrow>
   subseq (data_records (concat bs @ rs)) (List.map_filter (spec_record out0) ps) \<Longrightarrow> zmq_inv out0 env0 ps rs s"
  unfolding zmq_inv_def by blast

lemma tallies_append2 [simp]:
  "data_num (as @ bs) = data_num as + data_num bs" "data_len (as @ bs) = data_len as + data_len bs"
  "beat_num (as @ bs) = beat_num as + beat_num bs" "data_records (as @ bs) = data_records as @ data_records bs"
  by (simp_all add: tallies data_records_def)

lemma ledger_flush:
  assumes "batch_ok rs" "ledger st bs d r e"
  shows "if sent then ledger (flush_stats sent rs st) (bs @ [rs]) d r e else ledger (flush_stats sent rs st) bs d r (e + data_num rs)"
proof -
  have "data_num rs < 2 ^ 64" "beat_num rs < 2 ^ 64" "data_len rs < 2 ^ 64"
    using batch_bounds [OF assms(1)] data_beat [of rs] by simp_all
  then show ?thesis using assms(2) by (simp add: ledger_def flush_stats_def packets_is_add bytes_is_add)
qed

lemma inv_flush:
  assumes "zmq_inv out0 env0 ps rs (out, env)"
  shows "\<exists>s'. zmq_flush_packet (out, env) = Some s' \<and> zmq_inv out0 env0 ps [] s'"
proof -
  obtain bs d r e where i: "zmq_rep (z_pkts_buf out) rs" "zmq_same out0 out"
    "zk_delivered env = zk_delivered env0 @ map (batch_msg out0) bs" "\<forall>b\<in>set bs. batch_ok b"
    "ledger (o_stats out) bs d r e" "data_num (concat bs @ rs) + d + r + e = length ps"
    "subseq (data_records (concat bs @ rs)) (List.map_filter (spec_record out0) ps)"
    using assms by (auto simp: zmq_inv_def)
  have ok: "batch_ok rs" using i(1) by (simp add: zmq_rep_def)
  let ?sent = "zk_reply env (zk_sends env) \<noteq> -1"
  obtain ei pb where f: "zmq_flush_packet (out, env)
      = Some (out\<lparr>o_stats := flush_stats ?sent rs (o_stats out), z_error_info := ei, z_pkts_buf := pb\<rparr>,
          env\<lparr>zk_sends := zk_sends env + 1, zk_delivered := zk_delivered env @ (if ?sent then [batch_msg out rs] else [])\<rparr>)"
    "zmq_rep pb []" "bh_keybit (zb_hdr pb) = bh_keybit (zb_hdr (z_pkts_buf out))" "bh_uuid (zb_hdr pb) = bh_uuid (zb_hdr (z_pkts_buf out))"
    using flush_run [OF i(1), of env] by blast
  note l = ledger_flush [OF ok i(5), of ?sent]
  have "subseq (data_records (concat bs)) (data_records (concat bs @ rs))" by (simp add: subseq_rev_drop_many)
  then have sb: "subseq (data_records (concat bs)) (List.map_filter (spec_record out0) ps)"
    using i(7) by (rule subseq_order.trans)
  have same: "zmq_same out0 (out\<lparr>o_stats := st, z_error_info := ei, z_pkts_buf := pb\<rparr>)" for st
    using i(2) f(3,4) by (simp add: zmq_same_def)
  have k: "bh_keybit (zb_hdr (z_pkts_buf out)) = bh_keybit (zb_hdr (z_pkts_buf out0))"
    "bh_uuid (zb_hdr (z_pkts_buf out)) = bh_uuid (zb_hdr (z_pkts_buf out0))" using i(2) by (simp_all add: zmq_same_def)
  show ?thesis
  proof (cases ?sent)
    case True
    show ?thesis unfolding f(1)
      by (rule exI, rule conjI, rule refl, rule zmq_invI [where bs = "bs @ [rs]" and d = d and r = r and e = e])
         (use i(3,4,6,7) f(2) same ok l k True in auto)
  next
    case False
    show ?thesis unfolding f(1)
      by (rule exI, rule conjI, rule refl, rule zmq_invI [where bs = bs and d = d and r = r and e = "e + data_num rs"])
         (use i(3,4,6) f(2) same l sb False in auto)
  qed
qed

lemma map_filter_append: "List.map_filter f (xs @ ys) = List.map_filter f xs @ List.map_filter f ys"
  by (induction xs) (simp_all split: option.splits)

lemma inv_frame [simp]:
  "zmq_inv o0 e0 ps rs (out\<lparr>o_throttle := tb\<rparr>, env) = zmq_inv o0 e0 ps rs (out, env)"
  "zmq_inv o0 e0 ps rs (out\<lparr>z_error_info := ei\<rparr>, env) = zmq_inv o0 e0 ps rs (out, env)"
  "zmq_inv o0 e0 ps rs (out\<lparr>z_last_pkt_tv := tv\<rparr>, env) = zmq_inv o0 e0 ps rs (out, env)"
  "zmq_inv o0 e0 ps rs (out\<lparr>z_pkts_buf := (z_pkts_buf out)\<lparr>zb_first_pktsec := x\<rparr>\<rparr>, env) = zmq_inv o0 e0 ps rs (out, env)"
  "zmq_inv o0 e0 ps rs (out, env\<lparr>zk_clock_calls := k\<rparr>) = zmq_inv o0 e0 ps rs (out, env)"
  by (simp_all add: zmq_inv_def zmq_same_def zmq_rep_def)

lemma inv_drop:
  assumes "zmq_inv o0 e0 ps rs (out, env)" "c \<noteq> Forwarded"
  shows "zmq_inv o0 e0 (ps @ [p]) rs (count_as c n out, env)"
proof -
  obtain bs d r e where i: "zmq_rep (z_pkts_buf out) rs" "zmq_same o0 out"
    "zk_delivered env = zk_delivered e0 @ map (batch_msg o0) bs" "\<forall>b\<in>set bs. batch_ok b"
    "ledger (o_stats out) bs d r e" "data_num (concat bs @ rs) + d + r + e = length ps"
    "subseq (data_records (concat bs @ rs)) (List.map_filter (spec_record o0) ps)"
    using assms(1) by (auto simp: zmq_inv_def)
  have "ledger (count_packet c (o_stats out) n) bs (d + (if c = Direction_drop then 1 else 0))
      (r + (if c = Ratelimit_drop then 1 else 0)) (e + (if c = Error_drop then 1 else 0))"
    using i(5) assms(2) by (cases c) (simp_all add: ledger_def packets_is_one)
  then have l: "ledger (o_stats (fst (count_as c n out, env))) bs (d + (if c = Direction_drop then 1 else 0))
      (r + (if c = Ratelimit_drop then 1 else 0)) (e + (if c = Error_drop then 1 else 0))" by (simp add: count_as_def)
  show ?thesis
    by (rule zmq_invI [OF _ _ _ _ l])
       (use i assms(2) in \<open>cases c; simp add: count_as_def zmq_same_def map_filter_append subseq_rev_drop_many\<close>)+
qed

lemma inv_append:
  assumes "zmq_inv o0 e0 ps rs (out, env)" "record_ok rec" "24 + records_len rs + 18 + length (zr_frame rec) \<le> 1048576"
    and q: "if zr_heartbeat rec then qs = [] else (\<exists>p. qs = [p] \<and> spec_record o0 p = Some rec)"
  defines "pb \<equiv> z_pkts_buf out"
  shows "zmq_inv o0 e0 (ps @ qs) (rs @ [rec]) (out\<lparr>z_pkts_buf := pb\<lparr>zb_buf := put (zb_buf pb) (unat (zb_bufpos pb)) (encode_record rec),
      zb_bufpos := of_nat (24 + records_len rs + 18 + length (zr_frame rec)),
      zb_hdr := (zb_hdr pb)\<lparr>bh_pkts_num := bh_pkts_num (zb_hdr pb) + 1\<rparr>,
      zb_heartbeat_num := (if zr_heartbeat rec then zb_heartbeat_num pb + 1 else zb_heartbeat_num pb),
      zb_data_bytes := zb_data_bytes pb + of_nat (counted rec)\<rparr>\<rparr>, env)"
proof -
  obtain bs d r e where i: "zmq_rep pb rs" "zmq_same o0 out"
    "zk_delivered env = zk_delivered e0 @ map (batch_msg o0) bs" "\<forall>b\<in>set bs. batch_ok b"
    "ledger (o_stats out) bs d r e" "data_num (concat bs @ rs) + d + r + e = length ps"
    "subseq (data_records (concat bs @ rs)) (List.map_filter (spec_record o0) ps)"
    using assms(1) by (auto simp: zmq_inv_def pb_def)
  have sb: "subseq (data_records ((concat bs @ rs) @ [rec])) (List.map_filter (spec_record o0) (ps @ qs))"
    using i(7) q by (auto simp: data_records_def map_filter_append simp flip: append_assoc split: if_splits)
  have same: "zmq_same o0 (out\<lparr>z_pkts_buf := pb\<lparr>zb_buf := a, zb_bufpos := b, zb_hdr := (zb_hdr pb)\<lparr>bh_pkts_num := c\<rparr>,
    zb_heartbeat_num := x, zb_data_bytes := y\<rparr>\<rparr>)" for a b c x y using i(2) by (simp add: zmq_same_def pb_def)
  show ?thesis
    by (rule zmq_invI [where bs = bs and d = d and r = r and e = e])
       (use i(3-6) rep_append [OF i(1) assms(2,3)] same sb q in \<open>auto simp: data_num_def split: if_splits\<close>)
qed

lemma inv_stale:
  assumes "zmq_inv o0 e0 ps rs (out, env)"
  shows "\<exists>rs' s'. zmq_flush_if_stale (out, env) now = Some s' \<and> zmq_inv o0 e0 ps rs' s'"
  using inv_flush [OF assms] assms unfolding zmq_flush_if_stale_def Let_def by auto

text \<open>The flush conditions of \<open>zmq_output_send_packet\<close> leave room for the record.\<close>

lemma inv_make_room:
  assumes "zmq_inv o0 e0 ps rs (out, env)" "n \<le> 65531"
    and full: "\<not> flush \<Longrightarrow> unat (zb_bufpos (z_pkts_buf out)) + 18 + (n + 4) \<le> 1048576"
  shows "\<exists>rs' out' env'. (if flush then do { (out, env) \<leftarrow> zmq_flush_packet (out, env);
       Some (out\<lparr>z_pkts_buf := (z_pkts_buf out)\<lparr>zb_first_pktsec := sec\<rparr>\<rparr>, env) } else Some (out, env)) = Some (out', env') \<and>
     zmq_inv o0 e0 ps rs' (out', env') \<and> 24 + records_len rs' + 18 + (n + 4) \<le> 1048576"
proof (cases flush)
  case True
  obtain out' env' where "zmq_flush_packet (out, env) = Some (out', env')" "zmq_inv o0 e0 ps [] (out', env')"
    using inv_flush [OF assms(1)] by (metis surj_pair)
  then show ?thesis using True assms(2) by (intro exI [of _ "[]"]) simp
next
  case False
  have "unat (zb_bufpos (z_pkts_buf out)) = 24 + records_len rs" using assms(1) by (auto simp: zmq_inv_def zmq_rep_def)
  then show ?thesis using False full assms(1) by auto
qed

lemma packet_record_ok:
  assumes "14 \<le> l2" "l2 \<le> n" "n \<le> length pkt" "n \<le> 65531"
  shows "record_ok (packet_record h pkt l2 n dir tag)" "length (zr_frame (packet_record h pkt l2 n dir tag)) = n + 4"
    "counted (packet_record h pkt l2 n dir tag) = n" "\<not> zr_heartbeat (packet_record h pkt l2 n dir tag)"
proof -
  show l: "length (zr_frame (packet_record h pkt l2 n dir tag)) = n + 4"
    using tagged_frame_length [OF assms(1-3)] by (simp add: packet_record_def)
  have "zr_caplen (packet_record h pkt l2 n dir tag) = of_nat (n + 4)" by (simp only: packet_record_def zmq_record.select_convs)
  then show "record_ok (packet_record h pkt l2 n dir tag)" unfolding record_ok_def l using assms by simp
  show "\<not> zr_heartbeat (packet_record h pkt l2 n dir tag)" by (simp add: packet_record_def)
  then show "counted (packet_record h pkt l2 n dir tag) = n" by (simp add: counted_def l)
qed

lemma inv_append_packet:
  assumes inv: "zmq_inv o0 e0 ps rs (out, env)"
    and l2: "14 \<le> l2" "l2 \<le> unat n" and n: "unat n \<le> length pkt" "unat n \<le> 65531"
    and sp: "spec_record o0 (h, pkt, dir) = Some (packet_record h pkt l2 (unat n) dir (z_service_tag o0))"
  shows "\<exists>rs' s'. zmq_append_packet (out, env) h pkt l2 n dir = Some (s', 0) \<and> zmq_inv o0 e0 (ps @ [(h, pkt, dir)]) rs' s'"
proof -
  define pb where "pb = (if bh_pkts_num (zb_hdr (z_pkts_buf out)) = 0 then (z_pkts_buf out)\<lparr>zb_first_pktsec := tv_sec (ph_ts h)\<rparr> else z_pkts_buf out)"
  define full where "full \<longleftrightarrow> unat (zb_bufpos pb) + 2 + 16 + unat (of_nat (unat n + 4) :: u16) > ZMQ_MAX_BATCH_BUF_SIZE"
  define flush where "flush \<longleftrightarrow> bh_pkts_num (zb_hdr pb) \<ge> ZMQ_PKTS_FLUSH_MAX_NUM \<or>
    (zb_first_pktsec pb \<noteq> 0 \<and> tv_sec (ph_ts h) > zb_first_pktsec pb + ZMQ_PKTS_FLUSH_MAX_DUR_SEC) \<or> full"
  have inv2: "zmq_inv o0 e0 ps rs (out\<lparr>z_pkts_buf := pb\<rparr>, env)" using inv by (simp add: pb_def)
  have "unat (of_nat (unat n + 4) :: u16) = unat n + 4" using n(2) by (simp only: unat_of_nat) simp
  then have "\<not> flush \<Longrightarrow> unat (zb_bufpos pb) + 18 + (unat n + 4) \<le> 1048576"
    by (simp add: flush_def full_def zmq_consts)
  then obtain rs' out' env' where rm: "(if flush then do { (out, env) \<leftarrow> zmq_flush_packet (out\<lparr>z_pkts_buf := pb\<rparr>, env);
       Some (out\<lparr>z_pkts_buf := (z_pkts_buf out)\<lparr>zb_first_pktsec := tv_sec (ph_ts h)\<rparr>\<rparr>, env) }
       else Some (out\<lparr>z_pkts_buf := pb\<rparr>, env)) = Some (out', env')"
    and inv': "zmq_inv o0 e0 ps rs' (out', env')" and room: "24 + records_len rs' + 18 + (unat n + 4) \<le> 1048576"
    using inv_make_room [OF inv2 n(2), of flush "tv_sec (ph_ts h)"] by auto
  define pb' where "pb' = (if zb_first_pktsec (z_pkts_buf out') = 0 then (z_pkts_buf out')\<lparr>zb_first_pktsec := tv_sec (ph_ts h)\<rparr> else z_pkts_buf out')"
  have inv3: "zmq_inv o0 e0 ps rs' (out'\<lparr>z_pkts_buf := pb'\<rparr>, env')" using inv' by (simp add: pb'_def)
  then have pos: "unat (zb_bufpos pb') = 24 + records_len rs'" "length (zb_buf pb') = 1048576" and tag: "z_service_tag out' = z_service_tag o0"
    by (auto simp: zmq_inv_def zmq_rep_def zmq_same_def)
  let ?rec = "packet_record h pkt l2 (unat n) dir (z_service_tag o0)"
  note ro = packet_record_ok [OF l2 n, of h dir "z_service_tag o0"]
  have wr: "write_record (zb_buf pb') (unat (zb_bufpos pb')) h pkt l2 (unat n) dir (z_service_tag out')
      = Some (put (zb_buf pb') (unat (zb_bufpos pb')) (encode_record ?rec), 24 + records_len rs' + 18 + length (zr_frame ?rec))"
    using write_record_run [of "unat (zb_bufpos pb')" "unat n" "zb_buf pb'" l2 pkt h dir "z_service_tag o0"] l2 n room pos tag ro by simp
  have fin: "zmq_inv o0 e0 (ps @ [(h, pkt, dir)]) (rs' @ [?rec]) (out'\<lparr>z_pkts_buf := pb'\<lparr>zb_buf := put (zb_buf pb') (unat (zb_bufpos pb')) (encode_record ?rec),
      zb_bufpos := of_nat (24 + records_len rs' + 18 + length (zr_frame ?rec)),
      zb_hdr := (zb_hdr pb')\<lparr>bh_pkts_num := bh_pkts_num (zb_hdr pb') + 1\<rparr>,
      zb_data_bytes := zb_data_bytes pb' + ucast n\<rparr>\<rparr>, env')"
    using inv_append [OF inv3 ro(1), of "[(h, pkt, dir)]"] room ro(2-4) sp by (simp add: of_nat_unat)
  show ?thesis
    unfolding zmq_append_packet_def Let_def prod.case pb_def [symmetric] full_def [symmetric] flush_def [symmetric] rm
    using wr fin by (auto simp add: pb'_def [symmetric])
qed

lemma inv_send_packet:
  assumes inv: "zmq_inv o0 e0 ps rs (out, env)" and p: "packet_ok (h, pkt, dir)"
  shows "\<exists>rs' s' c. zmq_send_packet (out, env) h pkt dir = Some (s', c) \<and> zmq_inv o0 e0 (ps @ [(h, pkt, dir)]) rs' s'"
proof -
  let ?cap = "unat (output_frame_len (ph_caplen h) 0 ZMQ_MAX_FRAME_LEN)"
  let ?fl = "output_frame_len (ph_caplen h) (o_slice out) ZMQ_MAX_FRAME_LEN"
  have b: "?cap \<le> 65531" "unat ?fl \<le> 65531" "?cap \<le> length pkt" "unat ?fl \<le> length pkt"
    using frame_len_le [of "ph_caplen h" 0 ZMQ_MAX_FRAME_LEN] frame_len_le [of "ph_caplen h" "o_slice out" ZMQ_MAX_FRAME_LEN] p
    by (simp_all add: zmq_consts packet_ok_def)
  obtain l2 where l2: "l2_header_len pkt ?cap = Some l2" "l2 = 0 \<or> 14 \<le> l2 \<and> l2 \<le> ?cap" using l2_header_len_run [OF b(3)] by blast
  show ?thesis
  proof (cases "l2 = 0")
    case True
    let ?ei = "(z_error_info out)\<lparr>ze_nb_too_small_packets := ze_nb_too_small_packets (z_error_info out) + 1\<rparr>"
    obtain rs' s' where "zmq_flush_if_stale (count_as Error_drop (ucast (ph_caplen h)) (out\<lparr>z_error_info := ?ei\<rparr>), env) (tv_sec (ph_ts h)) = Some s'"
      "zmq_inv o0 e0 (ps @ [(h, pkt, dir)]) rs' s'"
      using inv_stale [OF inv_drop [OF iffD2 [OF inv_frame(2) inv]]] by blast
    then show ?thesis unfolding zmq_send_packet_def using l2(1) True by (auto simp add: Let_def)
  next
    case False
    define n where "n = (if unat ?fl < l2 then of_nat l2 else ?fl)"
    have un: "unat n = max l2 (unat ?fl)" using l2 False b by (auto simp: n_def unat_of_nat)
    have sl: "o_slice o0 = o_slice out" using inv by (auto simp: zmq_inv_def zmq_same_def)
    have sp: "spec_record o0 (h, pkt, dir) = Some (packet_record h pkt l2 (unat n) dir (z_service_tag o0))"
      using l2(1) False by (simp add: spec_record_def un sl)
    have sd: "zmq_send_packet (out, env) h pkt dir =
      (let (admitted, out) = output_admit out n (ph_ts h) dir in
       if \<not> admitted then do { s \<leftarrow> zmq_flush_if_stale (out, env) (tv_sec (ph_ts h)); Some (s, -1) }
       else zmq_append_packet (out, env) h pkt l2 n dir)"
      unfolding zmq_send_packet_def Let_def prod.case l2(1) bind.bind_lunit n_def [symmetric] using False by simp
    show ?thesis
    proof (cases rule: output_admit_cases [of dir out n "ph_ts h"])
      case (dropped c tb)
      have "zmq_inv o0 e0 (ps @ [(h, pkt, dir)]) rs (out\<lparr>o_throttle := tb, o_stats := count_packet c (o_stats out) n\<rparr>, env)"
        using inv_drop [OF iffD2 [OF inv_frame(1) inv] dropped(1), of "(h, pkt, dir)" n tb] by (simp add: count_as_def)
      from inv_stale [OF this, of "tv_sec (ph_ts h)"] show ?thesis unfolding sd dropped(3) by auto
    next
      case (admitted tb)
      then show ?thesis unfolding sd admitted(2)
        using inv_append_packet [OF iffD2 [OF inv_frame(1) inv] _ _ _ _ sp, of tb] l2 False b un by auto
    qed
  qed
qed

lemma heartbeat_record_ok:
  "record_ok (heartbeat_record tv)" "length (zr_frame (heartbeat_record tv)) = 14" "counted (heartbeat_record tv) = 0"
  "zr_heartbeat (heartbeat_record tv)"
  by (simp_all add: record_ok_def heartbeat_record_def counted_def)

lemma heartbeat_writes:
  assumes "pos + 32 \<le> length b"
  shows "do { b \<leftarrow> wr_bytes b pos (be16 14); b \<leftarrow> wr_bytes b (pos + 2) (pkt_hdr_bytes tv 14 14);
      b \<leftarrow> wr_bytes b (pos + 18) (replicate 14 0); wr_bytes b (pos + 18 + 12) (be16 ZMQ_HEARTBEAT_ETHER_TYPE) }
    = Some (put b pos (encode_record (heartbeat_record tv)))"
proof -
  let ?a = "be16 14 @ pkt_hdr_bytes tv 14 14"
  have e: "encode_record (heartbeat_record tv) = put (?a @ replicate 14 0) 30 (be16 ZMQ_HEARTBEAT_ETHER_TYPE)"
    by (simp add: encode_record_def heartbeat_record_def put_def)
  show ?thesis unfolding e using assms
    by (simp add: wr_bytes_in put_adjacent put_inside [where k = 30])
qed

lemma inv_heartbeat_packet:
  assumes inv: "zmq_inv o0 e0 ps rs (out, env)"
  shows "\<exists>s'. zmq_send_heartbeat_packet (out, env) tv = Some s' \<and> zmq_inv o0 e0 ps [] s'"
proof -
  let ?flush = "unat (zb_bufpos (z_pkts_buf out)) + 2 + 16 + 14 > ZMQ_MAX_BATCH_BUF_SIZE"
  have "unat (zb_bufpos (z_pkts_buf out)) = 24 + records_len rs" using inv by (auto simp: zmq_inv_def zmq_rep_def)
  then obtain rs' out' env' where f: "(if ?flush then zmq_flush_packet (out, env) else Some (out, env)) = Some (out', env')"
    "zmq_inv o0 e0 ps rs' (out', env')" "24 + records_len rs' + 32 \<le> 1048576"
    using inv_flush [OF inv] inv by (cases ?flush) (force simp: zmq_consts)+
  define pb where "pb = (if bh_pkts_num (zb_hdr (z_pkts_buf out')) = 0 then (z_pkts_buf out')\<lparr>zb_first_pktsec := tv_sec tv\<rparr> else z_pkts_buf out')"
  have inv2: "zmq_inv o0 e0 ps rs' (out'\<lparr>z_pkts_buf := pb\<rparr>, env')" using f(2) by (simp add: pb_def)
  then have pos: "unat (zb_bufpos pb) = 24 + records_len rs'" "length (zb_buf pb) = 1048576" by (auto simp: zmq_inv_def zmq_rep_def)
  define out2 where "out2 = out'\<lparr>z_pkts_buf := pb\<lparr>zb_buf := put (zb_buf pb) (unat (zb_bufpos pb)) (encode_record (heartbeat_record tv)),
      zb_heartbeat_num := zb_heartbeat_num pb + 1, zb_bufpos := of_nat (unat (zb_bufpos pb) + 18 + 14),
      zb_hdr := (zb_hdr pb)\<lparr>bh_pkts_num := bh_pkts_num (zb_hdr pb) + 1\<rparr>\<rparr>\<rparr>"
  have "zmq_inv o0 e0 ps (rs' @ [heartbeat_record tv]) (out2, env')"
    using inv_append [OF inv2 heartbeat_record_ok(1), of tv "[]"] f(3) pos heartbeat_record_ok [of tv]
    by (simp add: out2_def zmq_inv_def zmq_rep_def zmq_same_def)
  from inv_flush [OF this] obtain s' where s: "zmq_flush_packet (out2, env') = Some s'" "zmq_inv o0 e0 ps [] s'" by blast
  have w: "wr_bytes (zb_buf pb) (unat (zb_bufpos pb)) (be16 14) \<bind> (\<lambda>b. wr_bytes b (unat (zb_bufpos pb) + 2) (pkt_hdr_bytes tv 14 14) \<bind>
      (\<lambda>b. wr_bytes b (unat (zb_bufpos pb) + 18) (replicate 14 0) \<bind> (\<lambda>b. wr_bytes b (unat (zb_bufpos pb) + 18 + 12) (be16 ZMQ_HEARTBEAT_ETHER_TYPE) \<bind> g)))
      = g (put (zb_buf pb) (unat (zb_bufpos pb)) (encode_record (heartbeat_record tv)))" for g :: "bytes \<Rightarrow> zmq_state option"
    using heartbeat_writes [of "unat (zb_bufpos pb)" "zb_buf pb" tv] pos f(3) by (simp flip: bind_assoc)
  show ?thesis unfolding zmq_send_heartbeat_packet_def Let_def fst_conv f(1) pb_def [symmetric]
    using s by (cases s') (simp only: bind.bind_lunit prod.case w pb_def [symmetric] out2_def [symmetric], auto)
qed

lemma inv_heartbeat:
  assumes "zmq_inv o0 e0 ps rs (out, env)"
  shows "\<exists>rs' s'. zmq_heartbeat (out, env) now = Some s' \<and> zmq_inv o0 e0 ps rs' s'"
proof -
  obtain rs' out' env' where s: "zmq_flush_if_stale (out, env) now = Some (out', env')" "zmq_inv o0 e0 ps rs' (out', env')"
    using inv_stale [OF assms, of now] by (metis surj_pair)
  have "zmq_inv o0 e0 ps rs' (out', snd (gettimeofday env'))" using s(2) by (simp add: gettimeofday_def)
  from inv_heartbeat_packet [OF this] s show ?thesis
    unfolding zmq_heartbeat_def gettimeofday_def by (auto simp: Let_def) metis
qed

lemma inv_destroy:
  assumes "zmq_inv o0 e0 ps rs (out, env)"
  shows "\<exists>s'. zmq_output_destroy (out, env) = Some s' \<and> zmq_inv o0 e0 ps [] s'"
proof (cases rs)
  case Nil
  then have "bh_pkts_num (zb_hdr (z_pkts_buf out)) = 0" using assms by (auto simp: zmq_inv_def zmq_rep_def unat_eq_0)
  then show ?thesis using assms Nil by (simp add: zmq_output_destroy_def)
next
  case (Cons r rs')
  then have "bh_pkts_num (zb_hdr (z_pkts_buf out)) > 0" using assms by (auto simp: zmq_inv_def zmq_rep_def word_less_nat_alt)
  then show ?thesis using inv_flush [OF assms] by (simp add: zmq_output_destroy_def)
qed

section \<open>Runs\<close>

text \<open>What the output thread does with an output: packets, and the idle callback that sends heartbeats.\<close>

datatype zmq_event = Packet packet | Idle int

fun zmq_run :: "zmq_state \<Rightarrow> zmq_event list \<Rightarrow> zmq_state option" where
  "zmq_run s [] = Some s"
| "zmq_run s (Packet (h, d, dir) # es) = do { (s, r) \<leftarrow> zmq_send_packet s h d dir; zmq_run s es }"
| "zmq_run s (Idle now # es) = do { s \<leftarrow> zmq_heartbeat s now; zmq_run s es }"

fun event_packets :: "zmq_event list \<Rightarrow> packet list" where
  "event_packets [] = []"
| "event_packets (Packet p # es) = p # event_packets es"
| "event_packets (Idle now # es) = event_packets es"

lemma inv_run:
  assumes "zmq_inv o0 e0 ps rs s" "\<forall>p\<in>set (event_packets es). packet_ok p"
  shows "\<exists>rs' s'. zmq_run s es = Some s' \<and> zmq_inv o0 e0 (ps @ event_packets es) rs' s'"
  using assms
proof (induction es arbitrary: ps rs s)
  case (Cons ev es)
  obtain out env where s: "s = (out, env)" by (cases s)
  show ?case
  proof (cases ev)
    case (Packet p)
    obtain h d dir where p: "p = (h, d, dir)" by (cases p)
    obtain rs' s' c where "zmq_send_packet (out, env) h d dir = Some (s', c)" "zmq_inv o0 e0 (ps @ [(h, d, dir)]) rs' s'"
      using inv_send_packet [of o0 e0 ps rs out env h d dir] Cons.prems s Packet p by auto
    then show ?thesis using Cons.IH [of "ps @ [(h, d, dir)]" rs' s'] Cons.prems(2) Packet p s by simp
  next
    case (Idle now)
    obtain rs' s' where "zmq_heartbeat (out, env) now = Some s'" "zmq_inv o0 e0 ps rs' s'"
      using inv_heartbeat [of o0 e0 ps rs out env now] Cons.prems(1) s by auto
    then show ?thesis using Cons.IH [of ps rs' s'] Cons.prems(2) Idle s by simp
  qed
qed auto

lemma uuid_pairs_length: "uuid_pairs cs = Some bs \<Longrightarrow> length bs = length cs div 2"
  by (induction cs arbitrary: bs rule: uuid_pairs.induct) (auto split: bind_splits)

lemma uuid_to_bytes_length: "uuid_to_bytes u = Some bs \<Longrightarrow> length bs = 16"
  by (auto simp: uuid_to_bytes_def uuid_pairs_length split: bind_splits if_splits)

lemma new_output_inv:
  assumes "zmq_output_new opts output_stats_zero zs env = (Inr out, env')"
  shows "zmq_inv out env' [] [] (out, env')"
proof -
  have r: "zmq_rep (z_pkts_buf out) []"
    using assms
    by (auto simp: zmq_output_new_def zmq_rep_def hdr_ok_def batch_ok_def zmq_consts uuid_to_bytes_length Let_def gettimeofday_def
        split: option.splits if_splits)
  have "o_stats out = output_stats_zero"
    using assms by (auto simp: zmq_output_new_def Let_def gettimeofday_def split: option.splits if_splits)
  then have "ledger (o_stats out) [] 0 0 0"
    by (simp add: ledger_def packets_is_def bytes_is_def output_stats_zero_def packets_stats_zero_def bytes_stats_zero_def
        packets_inv_def bytes_inv_def packets_val_def bytes_val_def PETA_IN_PACKETS_def EIB_IN_BYTES_def)
  then show ?thesis using r by (intro zmq_invI [where bs = "[]"]) (simp_all add: zmq_same_def data_records_def)
qed

definition sample_zmq_env :: zmq_env where
  "sample_zmq_env = \<lparr>zk_reply = \<lambda>n. if n = 1 then -1 else 0, zk_strerror = \<lambda>_. [], zk_clock = \<lambda>_. \<lparr>tv_sec = 100, tv_usec = 0\<rparr>,
     zk_sends = 0, zk_clock_calls = 0, zk_delivered = []\<rparr>"

definition sample_zmq_setup :: zmq_setup where
  "sample_zmq_setup = \<lparr>zs_ctx_new = True, zs_socket = True, zs_hwm = True, zs_linger = True, zs_connect = True, zs_calloc = True\<rparr>"

definition sample_zmq_options :: zmq_options where
  "sample_zmq_options = \<lparr>zo_host = ''h'', zo_port = 82, zo_service_tag = 7, zo_uuid = None, zo_rate_limit_mbps = 0, zo_slice = 64, zo_heartbeat_ms = 1000\<rparr>"

definition sample_zmq_events :: "zmq_event list" where
  "sample_zmq_events = [Packet (\<lparr>ph_ts = \<lparr>tv_sec = 100, tv_usec = 5\<rparr>, ph_caplen = 80, ph_len = 90\<rparr>, replicate 80 1, 1), Idle 103,
     Packet (\<lparr>ph_ts = \<lparr>tv_sec = 104, tv_usec = 5\<rparr>, ph_caplen = 10, ph_len = 90\<rparr>, replicate 10 1, 2)]"

lemmas sample_zmq = sample_zmq_env_def sample_zmq_setup_def sample_zmq_options_def sample_zmq_events_def

lemma sample_zmq_new:
  "\<exists>out env'. zmq_output_new sample_zmq_options output_stats_zero sample_zmq_setup sample_zmq_env = (Inr out, env') \<and> zk_delivered env' = []"
  by (simp add: zmq_output_new_def sample_zmq gettimeofday_def)

lemma sample_zmq_packets: "\<forall>p\<in>set (event_packets sample_zmq_events). packet_ok p"
  by (simp add: sample_zmq packet_ok_def)

text \<open>(C9) The ZMQ output neither loses nor repeats a packet unaccounted, whatever the socket answers: after any
  interleaving of packets and heartbeat callbacks and the final destroy, the delivered messages are encodings
  of batches (at most 32767 records and one mebibyte each) whose data records are, in order, records of the
  captured packets; the forward counters are exactly the data records and bytes of the delivered batches, the
  heartbeat counter their heartbeats, and forwarded, direction, rate-limit and error packets add up to the packets received.\<close>

theorem zmq_conserves:
  assumes "zmq_output_new opts output_stats_zero zs env = (Inr out, env')" "\<forall>p\<in>set (event_packets es). packet_ok p"
  shows "\<exists>s out2 env2 bs d r e. zmq_run (out, env') es = Some s \<and> zmq_output_destroy s = Some (out2, env2) \<and>
     zk_delivered env2 = zk_delivered env' @ map (batch_msg out) bs \<and>
     (\<forall>b\<in>set bs. length (batch_msg out b) \<le> 1048576 \<and> length b \<le> 32767 \<and> (\<forall>r\<in>set b. record_ok r)) \<and>
     subseq (data_records (concat bs)) (List.map_filter (spec_record out) (event_packets es)) \<and>
     packets_is (fwd_packets (o_stats out2)) (data_num (concat bs)) \<and> bytes_is (fwd_bytes (o_stats out2)) (data_len (concat bs)) \<and>
     packets_is (heartbeat_packets (o_stats out2)) (beat_num (concat bs)) \<and>
     packets_is (direction_drop_packets (o_stats out2)) d \<and> packets_is (ratelimit_drop_packets (o_stats out2)) r \<and>
     packets_is (error_drop_packets (o_stats out2)) e \<and> data_num (concat bs) + d + r + e = length (event_packets es)"
proof -
  note i0 = new_output_inv [OF assms(1)]
  obtain rs out1 env1 where run: "zmq_run (out, env') es = Some (out1, env1)" "zmq_inv out env' (event_packets es) rs (out1, env1)"
    using inv_run [OF i0 assms(2)] by auto
  obtain out2 env2 where d: "zmq_output_destroy (out1, env1) = Some (out2, env2)" "zmq_inv out env' (event_packets es) [] (out2, env2)"
    using inv_destroy [OF run(2)] by auto
  have k: "length (bh_keybit (zb_hdr (z_pkts_buf out))) = 4" "length (bh_uuid (zb_hdr (z_pkts_buf out))) = 16"
    using i0 by (auto simp: zmq_inv_def zmq_rep_def hdr_ok_def)
  have "batch_ok b \<Longrightarrow> length (batch_msg out b) \<le> 1048576 \<and> length b \<le> 32767 \<and> (\<forall>r\<in>set b. record_ok r)" for b
    using batch_bounds [of b] k by (simp add: encode_batch_def batch_ok_def)
  then show ?thesis using run(1) d unfolding zmq_inv_def ledger_def by auto
qed

theorem zmq_conserves_witness:
  "\<exists>out env' s out2 env2 bs d r e.
     zmq_output_new sample_zmq_options output_stats_zero sample_zmq_setup sample_zmq_env = (Inr out, env') \<and>
     zmq_run (out, env') sample_zmq_events = Some s \<and> zmq_output_destroy s = Some (out2, env2) \<and>
     zk_delivered env2 = map (batch_msg out) bs \<and> packets_is (fwd_packets (o_stats out2)) (data_num (concat bs)) \<and>
     packets_is (error_drop_packets (o_stats out2)) e \<and> data_num (concat bs) + d + r + e = length (event_packets sample_zmq_events)"
proof -
  obtain out env' where n: "zmq_output_new sample_zmq_options output_stats_zero sample_zmq_setup sample_zmq_env = (Inr out, env')"
    "zk_delivered env' = []" using sample_zmq_new by blast
  show ?thesis using zmq_conserves [OF n(1) sample_zmq_packets] n by fastforce
qed

end
