(* ===== verification/Recv_Zmq.thy ===== *)
theory Recv_Zmq
  imports Output_Zmq Output_File
begin

text \<open>
  \<open>cptools/recvzmq/main.c\<close>: the program that receives the batches of the ZMQ output and writes their
  packets to a savefile.  The messages are the ones \<open>zmq_msg_recv\<close> returns; the savefile and the
  calls that can fail belong to the environment of the file outputs.
\<close>

section \<open>The program\<close>

definition bytes_to_uuid :: "bytes \<Rightarrow> string" where
  "bytes_to_uuid uuid_bytes =
    (let hex_chars = concat (map (\<lambda>b. [hex_digit (drop_bit 4 b), hex_digit (b AND 0x0F)]) (take 16 uuid_bytes))
     in take 8 hex_chars @ ''-'' @ take 4 (drop 8 hex_chars) @ ''-'' @ take 4 (drop 12 hex_chars) @ ''-''
        @ take 4 (drop 16 hex_chars) @ ''-'' @ take 12 (drop 20 hex_chars))"

text \<open>\<open>file_output_new\<close>: the path names the dumper.  Where \<open>pcap_dump_fopen\<close> fails the code passes the
  closed handle to \<open>pcap_geterr\<close>, which is undefined.\<close>

definition recv_file_output_new :: "string \<Rightarrow> file_env \<Rightarrow> ((string + string) \<times> file_env) option" where
  "recv_file_output_new file_name env =
    (let (ok, env) = sys_fopen file_name env in
     if \<not> ok then Some (Inl ''open file error'', env) else
     let (ok, env) = sys_call env in
     if \<not> ok then Some (Inl ''pcap_open_dead failed'', env) else
     let (ok, env) = pcap_dump_fopen 65535 file_name env in
     if \<not> ok then None else
     let (ok, env) = sys_call env in
     if \<not> ok then Some (Inl ''failed to allocate memory for file_output_t'', env) else
     Some (Inr file_name, env))"

definition recv_file_write_packet :: "string \<Rightarrow> pcap_pkthdr \<Rightarrow> bytes \<Rightarrow> file_env \<Rightarrow> (int \<times> file_env) option" where
  "recv_file_write_packet dumper header pkt_data env = do {
     env \<leftarrow> pcap_dump dumper header pkt_data env;
     Some (0, env) }"

definition ZMQ_PKT_DATA_LEN_SIZE :: nat where "ZMQ_PKT_DATA_LEN_SIZE = 2"

text \<open>The loop of \<open>handle_zmq_msg\<close> over the \<open>n\<close> packets still announced, the next being number \<open>i\<close>.\<close>

fun handle_packets :: "bytes \<Rightarrow> string option \<Rightarrow> nat \<Rightarrow> nat \<Rightarrow> nat \<Rightarrow> file_env \<Rightarrow> ((string + unit) \<times> file_env) option" where
  "handle_packets msg output 0 i msg_offset env = Some (Inr (), env)"
| "handle_packets msg output (Suc n) i msg_offset env =
    (if length msg - msg_offset < ZMQ_PKT_DATA_LEN_SIZE + 16
     then Some (Inl (''packet '' @ dec_nat i @ '': remain_size '' @ dec_nat (length msg - msg_offset) @ '' less than 2 + sizeof(zmq_pkt_hdr_t)''), env)
     else do {
       pkt_data_len \<leftarrow> rd16 msg msg_offset;
       let msg_offset = msg_offset + ZMQ_PKT_DATA_LEN_SIZE;
       let pkt_hdr = msg_offset;
       let msg_offset = msg_offset + 16;
       if length msg - msg_offset < unat pkt_data_len
       then Some (Inl (''packet '' @ dec_nat i @ '': remain_size: '' @ dec_nat (length msg - msg_offset) @ '' less than pkt_data length''), env)
       else do {
         sec \<leftarrow> rd32 msg pkt_hdr;
         usec \<leftarrow> rd32 msg (pkt_hdr + 4);
         caplen \<leftarrow> rd32 msg (pkt_hdr + 8);
         len \<leftarrow> rd32 msg (pkt_hdr + 12);
         let header = \<lparr>ph_ts = \<lparr>tv_sec = uint sec, tv_usec = uint usec\<rparr>, ph_caplen = caplen, ph_len = len\<rparr>;
         (rc, env) \<leftarrow> (case output of None \<Rightarrow> Some (0, env)
                       | Some out \<Rightarrow> recv_file_write_packet out header (drop msg_offset msg) env);
         if rc \<noteq> 0 then Some (Inl (''packet '' @ dec_nat i @ '': send_packet error''), env)
         else handle_packets msg output n (i + 1) (msg_offset + unat pkt_data_len) env } })"

definition handle_zmq_msg :: "bytes \<Rightarrow> string option \<Rightarrow> file_env \<Rightarrow> ((string + unit) \<times> file_env) option" where
  "handle_zmq_msg msg output env =
    (if length msg < BATCH_HDR_LEN then Some (Inl ''msg_size less than sizeof(zmq_pkt_batch_hdr_t)'', env)
     else do {
       pkts_num \<leftarrow> rd16 msg 2;
       handle_packets msg output (unat pkts_num) 1 BATCH_HDR_LEN env })"

text \<open>The receive loop of \<open>main\<close> on the messages that arrive before a signal or a failing receive.\<close>

fun recv_loop :: "bytes list \<Rightarrow> string option \<Rightarrow> file_env \<Rightarrow> ((string + unit) \<times> file_env) option" where
  "recv_loop [] output env = Some (Inr (), env)"
| "recv_loop (msg # msgs) output env = do {
     (r, env) \<leftarrow> handle_zmq_msg msg output env;
     case r of Inl e \<Rightarrow> Some (Inl e, env) | Inr u \<Rightarrow> recv_loop msgs output env }"

section \<open>A batch is decoded to its records\<close>

definition dump_of :: "zmq_record \<Rightarrow> dump_record" where
  "dump_of r = (\<lparr>ph_ts = \<lparr>tv_sec = tv_sec (zr_ts r) mod 2 ^ 32, tv_usec = tv_usec (zr_ts r) mod 2 ^ 32\<rparr>,
     ph_caplen = zr_caplen r, ph_len = zr_len r\<rparr>, zr_frame r)"

definition add_records :: "string \<Rightarrow> dump_record list \<Rightarrow> file_env \<Rightarrow> file_env" where
  "add_records path ds env = env\<lparr>fe_files := (fe_files env)(path \<mapsto>
     (the (fe_files env path))\<lparr>sf_records := sf_records (the (fe_files env path)) @ ds\<rparr>)\<rparr>"

lemma rd16_be: "take 2 (drop i bs) = be16 w \<Longrightarrow> rd16 bs i = Some w"
proof -
  assume a: "take 2 (drop i bs) = be16 w"
  then have "length (take 2 (drop i bs)) = 2" by simp
  then have "i + 1 < length bs" by simp
  moreover from this have "drop i bs = bs ! i # bs ! (i + 1) # drop (i + 2) bs" by (simp add: Cons_nth_drop_Suc)
  ultimately show ?thesis using a by (simp add: rd16_in be16_def of_be16_be16)
qed

lemma rd32_be: "take 4 (drop i bs) = be32 w \<Longrightarrow> rd32 bs i = Some w"
proof -
  assume a: "take 4 (drop i bs) = be32 w"
  then have "length (take 4 (drop i bs)) = 4" by simp
  then have l: "i + 3 < length bs" by simp
  then have "drop i bs = bs ! i # bs ! (i + 1) # bs ! (i + 2) # bs ! (i + 3) # drop (i + 4) bs"
    by (simp add: Cons_nth_drop_Suc numeral_eq_Suc)
  then show ?thesis using a l by (simp add: rd32_in be32_def of_be32_be32)
qed

lemma add_records_simps [simp]:
  "fe_files (add_records path ds env) path = Some ((the (fe_files env path))\<lparr>sf_records := sf_records (the (fe_files env path)) @ ds\<rparr>)"
  "add_records path es (add_records path ds env) = add_records path (ds @ es) env"
  by (simp_all add: add_records_def)

lemma add_records_nil: "fe_files env path \<noteq> None \<Longrightarrow> add_records path [] env = env"
  by (auto simp: add_records_def fun_upd_idem)

lemma drop_add_eq: "drop i bs = xs @ ys \<Longrightarrow> drop (i + length xs) bs = ys"
  by (metis add.commute append_eq_conv_conj drop_drop)

lemma handle_packets_step:
  assumes d: "drop off msg = encode_record r @ rest" and ok: "record_ok r" and f: "fe_files env path \<noteq> None"
  shows "handle_packets msg (Some path) (Suc n) i off env
     = handle_packets msg (Some path) n (i + 1) (off + 18 + length (zr_frame r)) (add_records path [dump_of r] env)"
proof -
  let ?ts = "zr_ts r"
  have l: "length msg - off = 18 + length (zr_frame r) + length rest" using arg_cong [OF d, of length] by simp
  have flen: "length (zr_frame r) < 65536" using ok by (simp add: record_ok_def)
  have e: "drop off msg = be16 (of_nat (length (zr_frame r))) @ be32 (word_of_int (tv_sec ?ts)) @ be32 (word_of_int (tv_usec ?ts))
      @ be32 (zr_caplen r) @ be32 (zr_len r) @ zr_frame r @ rest"
    using d by (simp add: encode_record_def pkt_hdr_bytes_def)
  have e1: "drop (off + 2) msg = be32 (word_of_int (tv_sec ?ts)) @ be32 (word_of_int (tv_usec ?ts)) @ be32 (zr_caplen r) @ be32 (zr_len r) @ zr_frame r @ rest"
    using drop_add_eq [OF e] by simp
  have e2: "drop (off + 2 + 4) msg = be32 (word_of_int (tv_usec ?ts)) @ be32 (zr_caplen r) @ be32 (zr_len r) @ zr_frame r @ rest"
    using drop_add_eq [OF e1] by (simp only: length_be)
  have e3: "drop (off + 2 + 8) msg = be32 (zr_caplen r) @ be32 (zr_len r) @ zr_frame r @ rest"
    using drop_add_eq [OF e2] by (simp add: add.assoc)
  have e4: "drop (off + 2 + 12) msg = be32 (zr_len r) @ zr_frame r @ rest" using drop_add_eq [OF e3] by (simp add: add.assoc)
  have e5: "drop (off + 2 + 16) msg = zr_frame r @ rest" using drop_add_eq [OF e4] by (simp add: add.assoc)
  have rd: "rd16 msg off = Some (of_nat (length (zr_frame r)))" "rd32 msg (off + 2) = Some (word_of_int (tv_sec ?ts))"
    "rd32 msg (off + 2 + 4) = Some (word_of_int (tv_usec ?ts))" "rd32 msg (off + 2 + 8) = Some (zr_caplen r)"
    "rd32 msg (off + 2 + 12) = Some (zr_len r)"
    by (rule rd16_be rd32_be, unfold e e1 e2 e3 e4, simp)+
  have ul: "unat (of_nat (length (zr_frame r)) :: u16) = length (zr_frame r)" "unat (zr_caplen r) = length (zr_frame r)"
    using flen ok by (simp_all add: unat_of_nat record_ok_def)
  have w: "recv_file_write_packet path \<lparr>ph_ts = \<lparr>tv_sec = uint (word_of_int (tv_sec ?ts) :: u32), tv_usec = uint (word_of_int (tv_usec ?ts) :: u32)\<rparr>,
      ph_caplen = zr_caplen r, ph_len = zr_len r\<rparr> (drop (off + 2 + 16) msg) env = Some (0, add_records path [dump_of r] env)"
    unfolding e5 using f ul by (auto simp: recv_file_write_packet_def pcap_dump_def rd_bytes_in add_records_def dump_of_def uint_word_of_int)
  have "\<not> length msg - (off + 2 + 16) < length (zr_frame r)" "off + 2 + 16 = off + 18" using l by simp_all
  then show ?thesis using l ul(1) rd w by (simp add: ZMQ_PKT_DATA_LEN_SIZE_def Let_def add.commute)
qed

lemma handle_packets_batch:
  assumes "drop off msg = concat (map encode_record rs)" "\<forall>r\<in>set rs. record_ok r" "fe_files env path \<noteq> None"
  shows "handle_packets msg (Some path) (length rs) i off env = Some (Inr (), add_records path (map dump_of rs) env)"
  using assms
proof (induction rs arbitrary: off i env)
  case (Cons r rs)
  have d: "drop off msg = encode_record r @ concat (map encode_record rs)" using Cons.prems(1) by simp
  have "drop (off + 18 + length (zr_frame r)) msg = concat (map encode_record rs)" using drop_add_eq [OF d] by (simp add: add.assoc)
  then show ?case using handle_packets_step [OF d _ Cons.prems(3)] Cons by simp
qed (simp add: add_records_nil)

lemma handle_batch:
  assumes "batch_ok rs" "length k = 4" "length u = 16" "fe_files env path \<noteq> None"
  shows "handle_zmq_msg (encode_batch k u rs) (Some path) env = Some (Inr (), add_records path (map dump_of rs) env)"
proof -
  note b = batch_bounds [OF assms(1)]
  have "rd16 (encode_batch k u rs) 2 = Some (of_nat (length rs))" by (rule rd16_be) (simp add: encode_batch_def)
  moreover have "unat (of_nat (length rs) :: u16) = length rs" using b by (simp add: unat_of_nat)
  moreover have "drop 24 (encode_batch k u rs) = concat (map encode_record rs)" using assms(2,3) by (simp add: encode_batch_def)
  then have "handle_packets (encode_batch k u rs) (Some path) (length rs) 1 24 env = Some (Inr (), add_records path (map dump_of rs) env)"
    using assms(1,4) by (intro handle_packets_batch) (simp_all add: batch_ok_def)
  ultimately show ?thesis using assms(2,3) by (simp add: handle_zmq_msg_def BATCH_HDR_LEN_def encode_batch_def)
qed

lemma recv_batches:
  assumes "\<forall>b\<in>set bs. batch_ok b" "length k = 4" "length u = 16" "fe_files env path \<noteq> None"
  shows "recv_loop (map (encode_batch k u) bs) (Some path) env = Some (Inr (), add_records path (map dump_of (concat bs)) env)"
  using assms
proof (induction bs arbitrary: env)
  case (Cons b bs)
  then show ?case using handle_batch [of b k u env path] by simp
qed (simp add: add_records_nil)

section \<open>UUIDs\<close>

lemma hex_val_digit:
  assumes "n < 16"
  shows "hex_val (''0123456789abcdef'' ! n) = Some n" "''0123456789abcdef'' ! n \<noteq> CHR ''-''"
proof -
  have "n \<in> {0, 1, 2, 3, 4, 5, 6, 7, 8, 9, 10, 11, 12, 13, 14, 15}" using assms by (simp only: insert_iff empty_iff) presburger
  then show "hex_val (''0123456789abcdef'' ! n) = Some n" "''0123456789abcdef'' ! n \<noteq> CHR ''-''"
    by (elim insertE emptyE; simp add: hex_val_def numeral_eq_Suc)+
qed

lemma nibbles: "unat (drop_bit 4 (b :: u8)) < 16" "unat (b AND 0x0F) < 16" "16 * unat (drop_bit 4 b) + unat (b AND 0x0F) = unat b"
proof -
  have "(0x0F :: u8) = mask 4" by (simp add: mask_eq_exp_minus_1)
  then have "b AND 0x0F = take_bit 4 b" by (simp add: take_bit_eq_mask)
  then have m: "unat (b AND 0x0F) = unat b mod 16" by (simp only: unsigned_take_bit_eq) (simp add: take_bit_eq_mod)
  have d: "unat (drop_bit 4 b) = unat b div 16" by (simp add: unat_drop_bit)
  show "unat (drop_bit 4 b) < 16" unfolding d using unat_u8_lt [of b] by (simp add: less_mult_imp_div_less)
  show "unat (b AND 0x0F) < 16" "16 * unat (drop_bit 4 b) + unat (b AND 0x0F) = unat b" by (simp_all add: m d)
qed

abbreviation hex_pair :: "u8 \<Rightarrow> string" where
  "hex_pair b \<equiv> [hex_digit (drop_bit 4 b), hex_digit (b AND 0x0F)]"

lemma uuid_pairs_hex: "uuid_pairs (concat (map hex_pair bs)) = Some bs"
proof (induction bs)
  case (Cons b bs)
  have "strtoul_hex2 (hex_digit (drop_bit 4 b)) (hex_digit (b AND 0x0F)) = Some (unat b)"
    unfolding strtoul_hex2_def hex_digit_def by (simp add: hex_val_digit nibbles)
  with Cons show ?case by simp
qed simp

lemma uuid_clean_filter:
  "length acc + length (filter (\<lambda>c. c \<noteq> CHR ''-'') cs) \<le> 32 \<Longrightarrow> uuid_clean cs acc = Some (acc @ filter (\<lambda>c. c \<noteq> CHR ''-'') cs)"
  by (induction cs arbitrary: acc) (auto split: if_splits)

text \<open>(C22) The UUID the receiver prints is one the output accepts for the same sixteen bytes: printing and parsing round trip.\<close>

theorem uuid_roundtrip:
  assumes "length bs = 16"
  shows "uuid_to_bytes (bytes_to_uuid bs) = Some bs"
proof -
  let ?h = "concat (map hex_pair bs)"
  have l: "length ?h = 32" using assms by (simp add: length_concat comp_def sum_list_triv)
  have "\<forall>c\<in>set ?h. c \<noteq> CHR ''-''" by (auto simp: hex_digit_def hex_val_digit nibbles)
  then have nd: "filter (\<lambda>c. c \<noteq> CHR ''-'') (take n (drop m ?h)) = take n (drop m ?h)" for n m
    by (meson filter_True in_set_dropD in_set_takeD)
  have "take 8 ?h @ take 4 (drop 8 ?h) @ take 4 (drop 12 ?h) @ take 4 (drop 16 ?h) @ take 12 (drop 20 ?h) = take (8 + 4 + 4 + 4 + 12) ?h"
    by (simp only: take_add append_assoc) simp
  then have "filter (\<lambda>c. c \<noteq> CHR ''-'') (bytes_to_uuid bs) = ?h"
    using assms l nd [of _ 0] nd [of 12 20] by (simp add: bytes_to_uuid_def Let_def nd)
  then show ?thesis using uuid_clean_filter [of "[]" "bytes_to_uuid bs"] l uuid_pairs_hex [of bs] by (simp add: uuid_to_bytes_def)
qed

theorem uuid_roundtrip_witness:
  "uuid_to_bytes (bytes_to_uuid (map of_nat [0..<16])) = Some (map of_nat [0..<16])"
  by (rule uuid_roundtrip) simp

section \<open>From the capture to the receiver's file\<close>

text \<open>(C7) End to end: after any run of the ZMQ output and its destruction, a receiver that gets the delivered
  messages accepts every one and its savefile holds exactly their records, in order, with the tagged
  frames; the data records among them are, in order, records of captured packets and as many as the output counted as forwarded.\<close>

theorem zmq_end_to_end:
  assumes "zmq_output_new opts output_stats_zero zs env = (Inr out, env')" "zk_delivered env' = []"
    and "\<forall>p\<in>set (event_packets es). packet_ok p" and "recv_file_output_new path fenv0 = Some (Inr path, fenv)"
  shows "\<exists>s out2 env2 fenv' rs. zmq_run (out, env') es = Some s \<and> zmq_output_destroy s = Some (out2, env2) \<and>
     recv_loop (zk_delivered env2) (Some path) fenv = Some (Inr (), fenv') \<and>
     fe_files fenv' path = Some \<lparr>sf_snaplen = 65535, sf_records = map dump_of rs\<rparr> \<and>
     subseq (data_records rs) (List.map_filter (spec_record out) (event_packets es)) \<and>
     packets_is (fwd_packets (o_stats out2)) (data_num rs) \<and> packets_is (heartbeat_packets (o_stats out2)) (beat_num rs)"
proof -
  have f: "fe_files fenv path = Some \<lparr>sf_snaplen = 65535, sf_records = []\<rparr>"
    using assms(4) by (auto simp: recv_file_output_new_def sys_fopen_def sys_call_def pcap_dump_fopen_def Let_def split: if_splits)
  note i0 = new_output_inv [OF assms(1)]
  obtain rs out1 env1 where run: "zmq_run (out, env') es = Some (out1, env1)" "zmq_inv out env' (event_packets es) rs (out1, env1)"
    using inv_run [OF i0 assms(3)] by auto
  obtain out2 env2 where d: "zmq_output_destroy (out1, env1) = Some (out2, env2)" "zmq_inv out env' (event_packets es) [] (out2, env2)"
    using inv_destroy [OF run(2)] by auto
  obtain bs where bs: "zk_delivered env2 = map (batch_msg out) bs" "\<forall>b\<in>set bs. batch_ok b"
    "subseq (data_records (concat bs)) (List.map_filter (spec_record out) (event_packets es))"
    "packets_is (fwd_packets (o_stats out2)) (data_num (concat bs))" "packets_is (heartbeat_packets (o_stats out2)) (beat_num (concat bs))"
    using d(2) assms(2) unfolding zmq_inv_def ledger_def by auto
  have k: "length (bh_keybit (zb_hdr (z_pkts_buf out))) = 4" "length (bh_uuid (zb_hdr (z_pkts_buf out))) = 16"
    using i0 by (auto simp: zmq_inv_def zmq_rep_def hdr_ok_def)
  have "recv_loop (zk_delivered env2) (Some path) fenv = Some (Inr (), add_records path (map dump_of (concat bs)) fenv)"
    unfolding bs(1) using recv_batches [OF bs(2) k] f by simp
  moreover have "fe_files (add_records path (map dump_of (concat bs)) fenv) path = Some \<lparr>sf_snaplen = 65535, sf_records = map dump_of (concat bs)\<rparr>"
    using f by simp
  ultimately show ?thesis using run(1) d(1) bs(3-5) by blast
qed

definition sample_file_env :: file_env where
  "sample_file_env = \<lparr>fe_ok = \<lambda>_. True, fe_clock = \<lambda>_. 0,
     fe_localtime = \<lambda>_. \<lparr>tm_year = 0, tm_mon = 0, tm_mday = 1, tm_hour = 0, tm_min = 0, tm_sec = 0\<rparr>, fe_calls = 0, fe_files = Map.empty\<rparr>"

lemma sample_recv_new: "\<exists>fenv. recv_file_output_new ''f'' sample_file_env = Some (Inr ''f'', fenv)"
  by (simp add: recv_file_output_new_def sys_fopen_def sys_call_def pcap_dump_fopen_def sample_file_env_def)

theorem zmq_end_to_end_witness:
  "\<exists>out env' fenv s out2 env2 fenv' rs.
     zmq_output_new sample_zmq_options output_stats_zero sample_zmq_setup sample_zmq_env = (Inr out, env') \<and>
     zmq_run (out, env') sample_zmq_events = Some s \<and> zmq_output_destroy s = Some (out2, env2) \<and>
     recv_loop (zk_delivered env2) (Some ''f'') fenv = Some (Inr (), fenv') \<and>
     fe_files fenv' ''f'' = Some \<lparr>sf_snaplen = 65535, sf_records = map dump_of rs\<rparr> \<and>
     packets_is (fwd_packets (o_stats out2)) (data_num rs)"
  using sample_zmq_new sample_recv_new zmq_end_to_end [OF _ _ sample_zmq_packets] by metis


end
