(* ===== verification/CJson.thy ===== *)
theory CJson
  imports Complex_Main CP_Prelude
begin

text \<open>
  \<open>cJSON/cJSON.c\<close>: the JSON tree and the accessors the worker uses.
\<close>

section \<open>Numbers\<close>

text \<open>The values of a C \<open>double\<close> that \<open>strtod\<close> returns on a JSON number; the finite ones are rational.\<close>

datatype double = Finite rat | Pos_infinity | Neg_infinity

instantiation double :: linorder
begin

definition less_eq_double :: "double \<Rightarrow> double \<Rightarrow> bool" where
  "less_eq_double x y = (case (x, y) of (Neg_infinity, _) \<Rightarrow> True | (_, Pos_infinity) \<Rightarrow> True
     | (Finite p, Finite q) \<Rightarrow> p \<le> q | _ \<Rightarrow> False)"

definition less_double :: "double \<Rightarrow> double \<Rightarrow> bool" where
  "less_double x y \<longleftrightarrow> x \<le> y \<and> \<not> y \<le> (x :: double)"

instance
  by standard (auto simp: less_eq_double_def less_double_def split: double.splits)

end

abbreviation dbl :: "int \<Rightarrow> double" where
  "dbl k \<equiv> Finite (of_int k)"

lemma double_less_simps [simp]:
  "Finite p \<le> Finite q \<longleftrightarrow> p \<le> q" "Finite p < Finite q \<longleftrightarrow> p < q"
  "Finite p \<le> Pos_infinity" "Finite p < Pos_infinity" "\<not> Pos_infinity \<le> Finite p" "\<not> Pos_infinity < Finite p"
  "Neg_infinity \<le> Finite p" "Neg_infinity < Finite p" "\<not> Finite p \<le> Neg_infinity" "\<not> Finite p < Neg_infinity"
  by (auto simp: less_eq_double_def less_double_def)

text \<open>Conversion of a finite value to an integer type, and \<open>floor (value) == value\<close>.\<close>

definition c_trunc :: "double \<Rightarrow> int" where
  "c_trunc d = (case d of Finite q \<Rightarrow> if q < 0 then - \<lfloor>- q\<rfloor> else \<lfloor>q\<rfloor> | _ \<Rightarrow> 0)"

definition is_integral :: "double \<Rightarrow> bool" where
  "is_integral d = (case d of Finite q \<Rightarrow> of_int \<lfloor>q\<rfloor> = q | _ \<Rightarrow> True)"

lemma c_trunc_dbl [simp]: "c_trunc (dbl k) = k"
  by (simp add: c_trunc_def)

lemma is_integral_dbl [simp]: "is_integral (dbl k)"
  by (simp add: is_integral_def)

lemma integral_cases:
  assumes "is_integral d"
  obtains k where "d = dbl k" | "d = Pos_infinity" | "d = Neg_infinity"
proof (cases d)
  case (Finite q)
  then have "d = dbl \<lfloor>q\<rfloor>" using assms by (auto simp: is_integral_def)
  then show thesis by (rule that(1))
qed (use that in auto)

section \<open>Trees\<close>

datatype cJSON = cJSON_NULL | cJSON_Bool bool | cJSON_Number double | cJSON_String string
  | cJSON_Array "cJSON list" | cJSON_Object "(string \<times> cJSON) list"

definition cJSON_GetObjectItemCaseSensitive :: "cJSON \<Rightarrow> string \<Rightarrow> cJSON option" where
  "cJSON_GetObjectItemCaseSensitive obj name = (case obj of cJSON_Object items \<Rightarrow> map_of items name | _ \<Rightarrow> None)"

fun cJSON_IsObject :: "cJSON \<Rightarrow> bool" where
  "cJSON_IsObject (cJSON_Object _) = True"
| "cJSON_IsObject _ = False"

end
