(* ===== verification/Cjson_Utils.thy ===== *)
theory Cjson_Utils
  imports CJson
begin

text \<open>
  \<open>cjson_utils.c\<close>: parse errors and the integer accessors.  An error is kept as the format and the arguments of the
  calls that produced it: \<open>Set_error\<close> for \<open>cjson_set_parse_error\<close>, \<open>Wrap_error\<close> for
  \<open>cjson_wrap_parse_error\<close>, which prefixes the message already there.
\<close>

section \<open>Errors\<close>

datatype fmt_arg = A_str string | A_double double | A_int int

datatype parse_error = Set_error string "fmt_arg list" | Wrap_error string "fmt_arg list" parse_error

type_synonym 'a parsed = "parse_error + 'a"

definition bindE :: "'a parsed \<Rightarrow> ('a \<Rightarrow> 'b parsed) \<Rightarrow> 'b parsed" where
  "bindE m f = (case m of Inl e \<Rightarrow> Inl e | Inr v \<Rightarrow> f v)"

definition wrap :: "string \<Rightarrow> fmt_arg list \<Rightarrow> 'a parsed \<Rightarrow> 'a parsed" where
  "wrap fmt args m = (case m of Inl e \<Rightarrow> Inl (Wrap_error fmt args e) | Inr v \<Rightarrow> Inr v)"

abbreviation fail :: "string \<Rightarrow> fmt_arg list \<Rightarrow> 'a parsed" where
  "fail fmt args \<equiv> Inl (Set_error fmt args)"

lemma bindE_simps [simp]: "bindE (Inl e) f = Inl e" "bindE (Inr v) f = f v"
  by (simp_all add: bindE_def)

lemma wrap_simps [simp]: "wrap fmt args (Inl e) = Inl (Wrap_error fmt args e)" "wrap fmt args (Inr v) = Inr v"
  by (simp_all add: wrap_def)

lemma bindE_Inr: "bindE m f = Inr v \<longleftrightarrow> (\<exists>x. m = Inr x \<and> f x = Inr v)"
  by (cases m) simp_all

lemma wrap_Inr: "wrap fmt args m = Inr v \<longleftrightarrow> m = Inr v"
  by (cases m) simp_all

section \<open>Integers\<close>

definition cjson_get_int64_range :: "cJSON \<Rightarrow> string \<Rightarrow> int \<Rightarrow> int \<Rightarrow> int parsed" where
  "cjson_get_int64_range item name lo hi =
    (case item of
       cJSON_Number value \<Rightarrow>
         if value < dbl lo \<or> value > dbl hi \<or> dbl (c_trunc value) \<noteq> value
         then fail ''invalid %s: %.15g, must be an integer in [%lld, %lld]'' [A_str name, A_double value, A_int lo, A_int hi]
         else Inr (c_trunc value)
     | _ \<Rightarrow> fail ''invalid %s'' [A_str name])"

definition cjson_get_integer :: "cJSON \<Rightarrow> string \<Rightarrow> double parsed" where
  "cjson_get_integer item name =
    (case item of
       cJSON_Number value \<Rightarrow>
         if \<not> is_integral value then fail ''invalid %s: %.15g, must be an integer'' [A_str name, A_double value] else Inr value
     | _ \<Rightarrow> fail ''invalid %s'' [A_str name])"

lemma int64_range_dbl [simp]:
  "lo \<le> k \<Longrightarrow> k \<le> hi \<Longrightarrow> cjson_get_int64_range (cJSON_Number (dbl k)) name lo hi = Inr k"
  by (simp add: cjson_get_int64_range_def)

lemma int64_range_Inr: "cjson_get_int64_range item name lo hi = Inr k \<longleftrightarrow> item = cJSON_Number (dbl k) \<and> lo \<le> k \<and> k \<le> hi"
proof
  assume a: "cjson_get_int64_range item name lo hi = Inr k"
  obtain v where v: "item = cJSON_Number v" using a by (cases item) (simp_all add: cjson_get_int64_range_def)
  show "item = cJSON_Number (dbl k) \<and> lo \<le> k \<and> k \<le> hi"
  proof (cases "v < dbl lo \<or> v > dbl hi \<or> dbl (c_trunc v) \<noteq> v")
    case True
    then show ?thesis using a unfolding v cjson_get_int64_range_def by simp
  next
    case False
    then have "v = dbl k" using a unfolding v cjson_get_int64_range_def by simp
    then show ?thesis using False v by simp
  qed
qed simp

lemma get_integer_dbl [simp]: "cjson_get_integer (cJSON_Number (dbl k)) name = Inr (dbl k)"
  by (simp add: cjson_get_integer_def)

lemma get_integer_Inr: "cjson_get_integer item name = Inr v \<longleftrightarrow> item = cJSON_Number v \<and> is_integral v"
  by (auto simp: cjson_get_integer_def split: cJSON.splits if_splits)

end
