(* ===== verification/Config.thy ===== *)
theory Config
  imports Cjson_Utils
begin

text \<open>
  \<open>config.c\<close>: from the JSON tree of a configuration to the \<open>Config\<close> structure.  A C union with a type string is a
  datatype with one constructor per type.  \<open>mem\<close> says for every allocation, named by its place in the
  document, whether it succeeds.
\<close>

section \<open>The configuration\<close>

record SplitConfig =
  max_payload_size :: u16
  recalculate_checksum :: bool

record vxlan_config =
  vc_host :: string
  vc_port :: u16
  vc_capture_time :: bool
  vc_vni_version :: u8
  vc_vni :: u32
  vc_bind_device :: string
  vc_pmtudisc :: int
  vc_split :: SplitConfig

record gre_config =
  gc_host :: string
  gc_service_tag :: u32
  gc_bind_device :: string
  gc_pmtudisc :: int

record zmq_config =
  zc_host :: string
  zc_port :: u16
  zc_hwm :: int
  zc_service_tag :: u32
  zc_uuid :: string
  zc_heartbeat_ms :: int

record rotating_file_config =
  rc_file_root :: string
  rc_max_file_interval :: int

datatype output_type = Vxlan vxlan_config | Gre gre_config | Zmq zmq_config | File string
  | Rotating_file rotating_file_config | Null

record OutputConfig =
  oc_rate_limit_mbps :: u64
  oc_slice :: int
  oc_config :: output_type

record libpcap_config =
  lc_interface :: string
  lc_snaplen :: int
  lc_netns :: string
  lc_bpf_filter :: string
  lc_buffer_size_mb :: int
  lc_timeout_ms :: int
  lc_not_filter_output_hosts :: bool

record pcap_file_config =
  pc_file_name :: string
  pc_bpf_filter :: string

record dpdk_config =
  dc_interface :: string
  dc_snaplen :: int
  dc_bpf_filter :: string
  dc_ring_size :: int

datatype CapturerConfig = Libpcap libpcap_config | Pcap_file pcap_file_config | Dpdk_pdump dpdk_config

datatype ReqPatternConfig = Pattern_none | Pattern_auto | Pattern_custom string

record TaskConfig =
  tc_fingerprint :: "string option"
  tc_req_pattern :: ReqPatternConfig
  tc_capturer :: CapturerConfig
  tc_outputs :: "OutputConfig list"

type_synonym TasksAllConfig = "TaskConfig list"

datatype ControlConfig = Control_unix string

datatype log_level = LOG_DEBUG | LOG_INFO | LOG_WARN | LOG_ERROR

datatype execution_model = EXECUTION_MODEL_RTC | EXECUTION_MODEL_PIPELINE

record Config =
  cf_log_level :: log_level
  cf_cpu_affinity :: string
  cf_execution_model :: execution_model
  cf_buffer_size_mb :: u64
  cf_control :: "ControlConfig option"
  cf_tasks :: TasksAllConfig

section \<open>Fields\<close>

type_synonym mem = "string list \<Rightarrow> bool"

definition sub_mem :: "string \<Rightarrow> mem \<Rightarrow> mem" where
  "sub_mem name mem = (\<lambda>path. mem (name # path))"

definition DEFAULT_SNAPLEN :: int where "DEFAULT_SNAPLEN = 2048"
definition MAX_SNAPLEN :: int where "MAX_SNAPLEN = 262144"
definition INT_MAX :: int where "INT_MAX = 2147483647"
definition MAX_LIBPCAP_BUFFER_SIZE_MB :: int where "MAX_LIBPCAP_BUFFER_SIZE_MB = INT_MAX div 1024 div 1024"

lemmas config_consts = DEFAULT_SNAPLEN_def MAX_SNAPLEN_def INT_MAX_def MAX_LIBPCAP_BUFFER_SIZE_MB_def

abbreviation item :: "cJSON \<Rightarrow> string \<Rightarrow> cJSON option" where
  "item \<equiv> cJSON_GetObjectItemCaseSensitive"

text \<open>The recurring blocks: a required string, an optional string with default \<open>""\<close>, an optional boolean with
  default false, an optional number cut at \<open>INT_MAX\<close>, and \<open>pmtudisc\<close>.\<close>

definition strdup :: "mem \<Rightarrow> string \<Rightarrow> string \<Rightarrow> string \<Rightarrow> string parsed" where
  "strdup mem site msg s = (if mem [site] then Inr s else fail msg [])"

definition required_string :: "mem \<Rightarrow> cJSON \<Rightarrow> string \<Rightarrow> string \<Rightarrow> string \<Rightarrow> string parsed" where
  "required_string mem obj key invalid nomem =
    (case item obj key of Some (cJSON_String s) \<Rightarrow> strdup mem key nomem s | _ \<Rightarrow> fail invalid [])"

definition optional_string :: "mem \<Rightarrow> cJSON \<Rightarrow> string \<Rightarrow> string \<Rightarrow> string \<Rightarrow> string parsed" where
  "optional_string mem obj key invalid nomem =
    (case item obj key of None \<Rightarrow> strdup mem key nomem []
     | Some (cJSON_String s) \<Rightarrow> strdup mem key nomem s
     | Some _ \<Rightarrow> fail invalid [])"

definition optional_bool :: "cJSON \<Rightarrow> string \<Rightarrow> string \<Rightarrow> bool parsed" where
  "optional_bool obj key invalid =
    (case item obj key of None \<Rightarrow> Inr False | Some (cJSON_Bool b) \<Rightarrow> Inr b | Some _ \<Rightarrow> fail invalid [])"

definition nonneg_int :: "cJSON \<Rightarrow> string \<Rightarrow> string \<Rightarrow> string \<Rightarrow> int \<Rightarrow> int parsed" where
  "nonneg_int obj key name msg dflt =
    (case item obj key of None \<Rightarrow> Inr dflt
     | Some it \<Rightarrow> bindE (cjson_get_integer it name) (\<lambda>value.
         if value < dbl 0 then fail msg [A_double value]
         else Inr (if value > dbl INT_MAX then INT_MAX else c_trunc value)))"

definition parse_pmtudisc :: "cJSON \<Rightarrow> string \<Rightarrow> int parsed" where
  "parse_pmtudisc obj invalid =
    (case item obj ''pmtudisc'' of None \<Rightarrow> Inr (-1)
     | Some (cJSON_String s) \<Rightarrow>
         if s = ''do'' then Inr 2 else if s = ''dont'' then Inr 0 else if s = ''want'' then Inr 1
         else fail (invalid @ '' %s'') [A_str s]
     | Some _ \<Rightarrow> fail invalid [])"

definition parse_snaplen :: "cJSON \<Rightarrow> string \<Rightarrow> bool \<Rightarrow> int parsed" where
  "parse_snaplen obj name non_positive_means_max =
    (case item obj ''snaplen'' of None \<Rightarrow> Inr DEFAULT_SNAPLEN
     | Some snaplen \<Rightarrow> bindE (cjson_get_integer snaplen name) (\<lambda>value.
         if value \<le> dbl 0 \<and> \<not> non_positive_means_max then fail ''invalid %s: %.15g, must be > 0'' [A_str name, A_double value]
         else if value = dbl 0 then Inr MAX_SNAPLEN
         else if value < dbl 0 \<or> value > dbl MAX_SNAPLEN then Inr MAX_SNAPLEN
         else Inr (c_trunc value)))"

section \<open>Capturers\<close>

definition parse_libpcap :: "mem \<Rightarrow> cJSON \<Rightarrow> CapturerConfig parsed" where
  "parse_libpcap mem obj =
    bindE (required_string mem obj ''interface'' ''missing or invalid libpcap.interface'' ''memory allocation failed'') (\<lambda>interface.
    bindE (optional_string mem obj ''netns'' ''invalid netns'' ''memory allocation failed'') (\<lambda>netns.
    bindE (parse_snaplen obj ''libpcap.snaplen'' True) (\<lambda>snaplen.
    bindE (optional_string mem obj ''bpf'' ''invalid libpcap.bpf'' ''Memory allocation failed'') (\<lambda>bpf_filter.
    bindE (case item obj ''buffer_size_mb'' of None \<Rightarrow> Inr 256
           | Some buffer_size \<Rightarrow> bindE (cjson_get_integer buffer_size ''libpcap.buffer_size_mb'') (\<lambda>value.
               if value \<le> dbl 0 then fail ''invalid libpcap.buffer_size_mb: %.15g, must be > 0'' [A_double value]
               else Inr (if value > dbl MAX_LIBPCAP_BUFFER_SIZE_MB then MAX_LIBPCAP_BUFFER_SIZE_MB else c_trunc value))) (\<lambda>buffer_size_mb.
    bindE (nonneg_int obj ''timeout_ms'' ''libpcap.timeout_ms'' ''invalid libpcap.timeout_ms: %.15g, must be >= 0'' 0) (\<lambda>timeout_ms.
    bindE (optional_bool obj ''not_filter_output_hosts'' ''invalid libpcap.not_filter_output_hosts'') (\<lambda>not_filter_output_hosts.
    Inr (Libpcap \<lparr>lc_interface = interface, lc_snaplen = snaplen, lc_netns = netns, lc_bpf_filter = bpf_filter,
      lc_buffer_size_mb = buffer_size_mb, lc_timeout_ms = timeout_ms, lc_not_filter_output_hosts = not_filter_output_hosts\<rparr>))))))))"

definition parse_pcap_file :: "mem \<Rightarrow> cJSON \<Rightarrow> CapturerConfig parsed" where
  "parse_pcap_file mem obj =
    bindE (required_string mem obj ''file_name'' ''missing or invalid pcap_file.file_name'' ''Memory allocation failed'') (\<lambda>file_name.
    bindE (optional_string mem obj ''bpf'' ''invalid pcap_file.bpf'' ''Memory allocation failed'') (\<lambda>bpf_filter.
    Inr (Pcap_file \<lparr>pc_file_name = file_name, pc_bpf_filter = bpf_filter\<rparr>)))"

definition parse_dpdk_pdump :: "mem \<Rightarrow> cJSON \<Rightarrow> CapturerConfig parsed" where
  "parse_dpdk_pdump mem obj =
    bindE (required_string mem obj ''interface'' ''missing or invalid dpdk_pdump.interface'' ''memory allocation failed'') (\<lambda>interface.
    bindE (parse_snaplen obj ''dpdk_pdump.snaplen'' False) (\<lambda>snaplen.
    bindE (optional_string mem obj ''bpf'' ''invalid dpdkdump.bpf'' ''Memory allocation failed'') (\<lambda>bpf_filter.
    bindE (case item obj ''ring_size'' of None \<Rightarrow> Inr 2048
           | Some ring_size \<Rightarrow> cjson_get_int64_range ring_size ''dpdk_pdump.ring_size'' 2 (2 ^ 30)) (\<lambda>ring_size.
    Inr (Dpdk_pdump \<lparr>dc_interface = interface, dc_snaplen = snaplen, dc_bpf_filter = bpf_filter, dc_ring_size = ring_size\<rparr>)))))"

definition parse_capturer_config :: "mem \<Rightarrow> cJSON \<Rightarrow> CapturerConfig parsed" where
  "parse_capturer_config mem engine_obj =
    bindE (required_string mem engine_obj ''type'' ''missing or invalid capturer type'' ''memory allocation failed'') (\<lambda>type.
    if type = ''libpcap'' then
      (case item engine_obj ''libpcap'' of None \<Rightarrow> fail ''missing libpcap config'' []
       | Some obj \<Rightarrow> parse_libpcap (sub_mem ''libpcap'' mem) obj)
    else if type = ''pcap_file'' then
      (case item engine_obj ''pcap_file'' of None \<Rightarrow> fail ''missing pcap_file config'' []
       | Some obj \<Rightarrow> parse_pcap_file (sub_mem ''pcap_file'' mem) obj)
    else if type = ''dpdk_pdump'' then
      (case item engine_obj ''dpdk_pdump'' of None \<Rightarrow> fail ''missing dpdk_pdump config'' []
       | Some obj \<Rightarrow> parse_dpdk_pdump (sub_mem ''dpdk_pdump'' mem) obj)
    else fail ''unknown capturer type: %s'' [A_str type])"

section \<open>Outputs\<close>

definition parse_split_config :: "cJSON option \<Rightarrow> SplitConfig parsed" where
  "parse_split_config split_obj =
    (case split_obj of None \<Rightarrow> Inr \<lparr>max_payload_size = 0, recalculate_checksum = False\<rparr>
     | Some obj \<Rightarrow>
         bindE (case item obj ''max_payload_size'' of None \<Rightarrow> Inr 0
                | Some it \<Rightarrow> cjson_get_int64_range it ''vxlan.split.max_payload_size'' 0 65535) (\<lambda>value.
         bindE (optional_bool obj ''recalculate_checksum'' ''invalid recalculate_checksum: must be boolean'') (\<lambda>recalc_checksum.
         Inr \<lparr>max_payload_size = word_of_int value, recalculate_checksum = recalc_checksum\<rparr>)))"

definition parse_vni :: "cJSON \<Rightarrow> (u8 \<times> u32) parsed" where
  "parse_vni obj =
    (case (item obj ''vni1'', item obj ''vni2'') of
       (Some _, Some _) \<Rightarrow> fail ''vxlan.vni1 and vxlan.vni2 are mutually exclusive'' []
     | (Some vni1, None) \<Rightarrow> bindE (cjson_get_int64_range vni1 ''vxlan.vni1'' 0 4294967295) (\<lambda>value.
         let value = (if value > 0xFFFFFF then value AND 0xFFFFFF else value) in Inr (1, word_of_int value))
     | (None, Some vni2) \<Rightarrow> bindE (cjson_get_int64_range vni2 ''vxlan.vni2'' 0 4294967295) (\<lambda>value. Inr (2, word_of_int value))
     | (None, None) \<Rightarrow> fail ''require vxlan.vni1 or vxlan.vni2'' [])"

definition parse_vxlan :: "mem \<Rightarrow> cJSON \<Rightarrow> output_type parsed" where
  "parse_vxlan mem obj =
    bindE (required_string mem obj ''host'' ''missing or invalid vxlan.host'' ''memory allocation failed'') (\<lambda>host.
    bindE (case item obj ''port'' of None \<Rightarrow> Inr 4789 | Some port \<Rightarrow> cjson_get_int64_range port ''vxlan.port'' 1 65535) (\<lambda>port.
    bindE (optional_bool obj ''capture_time'' ''invalid vxlan.capture_time'') (\<lambda>capture_time.
    bindE (parse_vni obj) (\<lambda>(vni_version, vni).
    bindE (optional_string mem obj ''bind_device'' ''invalid vxlan.bind_device'' ''memory allocation failed'') (\<lambda>bind_device.
    bindE (parse_pmtudisc obj ''invalid vxlan.pmtudisc'') (\<lambda>pmtudisc.
    bindE (wrap ''parse vxlan.split error'' [] (parse_split_config (item obj ''split''))) (\<lambda>split.
    Inr (Vxlan \<lparr>vc_host = host, vc_port = word_of_int port, vc_capture_time = capture_time, vc_vni_version = vni_version,
      vc_vni = vni, vc_bind_device = bind_device, vc_pmtudisc = pmtudisc, vc_split = split\<rparr>))))))))"

definition parse_gre :: "mem \<Rightarrow> cJSON \<Rightarrow> output_type parsed" where
  "parse_gre mem obj =
    bindE (required_string mem obj ''host'' ''missing or invalid gre.host'' ''memory allocation failed'') (\<lambda>host.
    bindE (case item obj ''service_tag'' of None \<Rightarrow> Inr 0x0fffffff
           | Some tag \<Rightarrow> cjson_get_int64_range tag ''gre.service_tag'' 0 4294967295) (\<lambda>service_tag.
    bindE (optional_string mem obj ''bind_device'' ''invalid gre.bind_device'' ''memory allocation failed'') (\<lambda>bind_device.
    bindE (parse_pmtudisc obj ''invalid gre.pmtudisc'') (\<lambda>pmtudisc.
    Inr (Gre \<lparr>gc_host = host, gc_service_tag = word_of_int service_tag, gc_bind_device = bind_device, gc_pmtudisc = pmtudisc\<rparr>)))))"

definition parse_zmq :: "mem \<Rightarrow> cJSON \<Rightarrow> output_type parsed" where
  "parse_zmq mem obj =
    bindE (required_string mem obj ''host'' ''missing or invalid zmq.host'' ''memory allocation failed'') (\<lambda>host.
    bindE (case item obj ''port'' of None \<Rightarrow> fail ''missing zmq.port'' [] | Some port \<Rightarrow> cjson_get_int64_range port ''zmq.port'' 1 65535) (\<lambda>port.
    bindE (nonneg_int obj ''hwm'' ''zmq.hwm'' ''invalid zmq.hwm: %.15g, must be >= 0'' 100) (\<lambda>hwm.
    bindE (case item obj ''service_tag'' of None \<Rightarrow> Inr 0xffffffff
           | Some tag \<Rightarrow> cjson_get_int64_range tag ''zmq.service_tag'' 0 4294967295) (\<lambda>service_tag.
    bindE (optional_string mem obj ''uuid'' ''invalid zmq.uuid'' ''memory allocation failed'') (\<lambda>uuid.
    bindE (case item obj ''heartbeat_ms'' of None \<Rightarrow> Inr 0
           | Some hb \<Rightarrow> cjson_get_int64_range hb ''zmq.heartbeat_ms'' 0 60000) (\<lambda>heartbeat_ms.
    Inr (Zmq \<lparr>zc_host = host, zc_port = word_of_int port, zc_hwm = hwm, zc_service_tag = word_of_int service_tag, zc_uuid = uuid,
      zc_heartbeat_ms = heartbeat_ms\<rparr>)))))))"

definition parse_file :: "mem \<Rightarrow> cJSON \<Rightarrow> output_type parsed" where
  "parse_file mem obj =
    bindE (required_string mem obj ''name'' ''missing or invalid file.name'' ''memory allocation failed'') (\<lambda>name. Inr (File name))"

definition parse_rotating_file :: "mem \<Rightarrow> cJSON \<Rightarrow> output_type parsed" where
  "parse_rotating_file mem obj =
    bindE (required_string mem obj ''file_root'' ''missing or invalid rotating_file.file_root'' ''memory allocation failed'') (\<lambda>file_root.
    bindE (nonneg_int obj ''max_file_interval'' ''rotating_file.max_file_interval''
             ''invalid rotating_file.max_file_interval: %.15g, must be >= 0'' 60) (\<lambda>max_file_interval.
    Inr (Rotating_file \<lparr>rc_file_root = file_root, rc_max_file_interval = max_file_interval\<rparr>)))"

definition parse_output_type :: "mem \<Rightarrow> string \<Rightarrow> cJSON \<Rightarrow> output_type parsed" where
  "parse_output_type mem type output_obj =
    (if type = ''vxlan'' then
      (case item output_obj type of None \<Rightarrow> fail ''missing vxlan config'' [] | Some obj \<Rightarrow> parse_vxlan (sub_mem type mem) obj)
    else if type = ''gre'' then
      (case item output_obj type of None \<Rightarrow> fail ''missing gre config'' [] | Some obj \<Rightarrow> parse_gre (sub_mem type mem) obj)
    else if type = ''zmq'' then
      (case item output_obj type of None \<Rightarrow> fail ''missing zmq config'' [] | Some obj \<Rightarrow> parse_zmq (sub_mem type mem) obj)
    else if type = ''file'' then
      (case item output_obj type of None \<Rightarrow> fail ''missing file config'' [] | Some obj \<Rightarrow> parse_file (sub_mem type mem) obj)
    else if type = ''rotating_file'' then
      (case item output_obj type of None \<Rightarrow> fail ''missing rotating_file config'' [] | Some obj \<Rightarrow> parse_rotating_file (sub_mem type mem) obj)
    else if type = ''null'' then Inr Null
    else fail ''unknown output type: %s'' [A_str type])"

definition parse_output_config :: "mem \<Rightarrow> cJSON \<Rightarrow> OutputConfig parsed" where
  "parse_output_config mem output_obj =
    bindE (required_string mem output_obj ''type'' ''missing or invalid output type'' ''memory allocation failed'') (\<lambda>type.
    bindE (nonneg_int output_obj ''rate_limit_mbps'' ''rate_limit_mbps'' ''invalid rate_limit_mbps: %.15g, must be >= 0'' 0) (\<lambda>rate_limit_mbps.
    bindE (nonneg_int output_obj ''slice'' ''slice'' ''invalid slice: %.15g, must be >= 0'' 0) (\<lambda>slice.
    bindE (parse_output_type mem type output_obj) (\<lambda>config.
    Inr \<lparr>oc_rate_limit_mbps = word_of_int rate_limit_mbps, oc_slice = slice, oc_config = config\<rparr>))))"

section \<open>Tasks\<close>

definition parse_req_pattern_config :: "mem \<Rightarrow> cJSON \<Rightarrow> ReqPatternConfig parsed" where
  "parse_req_pattern_config mem obj =
    bindE (required_string mem obj ''type'' ''missing or invalid output type'' ''memory allocation failed'') (\<lambda>type.
    if type = ''auto'' then Inr Pattern_auto
    else if type = ''custom'' then
      (case item obj ''custom'' of
         Some (cJSON_Object items) \<Rightarrow>
           bindE (optional_string (sub_mem ''custom'' mem) (cJSON_Object items) ''pattern'' ''invalid custom.pattern'' ''memory allocation failed'')
             (\<lambda>pattern. Inr (Pattern_custom pattern))
       | _ \<Rightarrow> fail ''custom %d is not an object'' [])
    else fail ''unknown req_pattern type: %s'' [A_str type])"

text \<open>The loop over the \<open>outputs\<close> array from index \<open>i\<close> on.\<close>

fun parse_outputs :: "mem \<Rightarrow> nat \<Rightarrow> cJSON list \<Rightarrow> OutputConfig list parsed" where
  "parse_outputs mem i [] = Inr []"
| "parse_outputs mem i (output_obj # objs) =
    (if \<not> cJSON_IsObject output_obj then fail ''output %d is not an object'' [A_int (int i)]
     else if \<not> mem [dec_nat i, ''calloc''] then fail ''memory allocation failed'' []
     else bindE (wrap ''parse output error'' [] (parse_output_config (sub_mem (dec_nat i) mem) output_obj)) (\<lambda>output.
          bindE (parse_outputs mem (i + 1) objs) (\<lambda>outputs. Inr (output # outputs))))"

definition parse_task_config :: "mem \<Rightarrow> cJSON \<Rightarrow> TaskConfig parsed" where
  "parse_task_config mem task_obj =
    bindE (case item task_obj ''fingerprint'' of None \<Rightarrow> Inr None
           | Some (cJSON_String s) \<Rightarrow> Inr (if s = [] then None else if mem [''fingerprint''] then Some s else None)
           | Some _ \<Rightarrow> fail ''invalid fingerprint'' []) (\<lambda>fingerprint.
    bindE (case item task_obj ''req_pattern'' of
             None \<Rightarrow> if mem [''req_pattern''] then Inr Pattern_none else fail ''memory allocation failed'' []
           | Some req_pattern \<Rightarrow>
               if \<not> cJSON_IsObject req_pattern then fail ''invalid netns'' []
               else wrap ''parse req_pattern error'' [] (parse_req_pattern_config (sub_mem ''req_pattern'' mem) req_pattern)) (\<lambda>req_pattern.
    bindE (case item task_obj ''capturer'' of
             Some (cJSON_Object items) \<Rightarrow>
               wrap ''parse capturer error'' [] (parse_capturer_config (sub_mem ''capturer'' mem) (cJSON_Object items))
           | _ \<Rightarrow> fail ''missing or invalid capturer config'' []) (\<lambda>capturer.
    bindE (case item task_obj ''outputs'' of
             Some (cJSON_Array objs) \<Rightarrow>
               if \<not> mem [''outputs''] then fail ''memory allocation failed'' []
               else parse_outputs (sub_mem ''outputs'' mem) 0 objs
           | _ \<Rightarrow> fail ''missing or invalid outputs config'' []) (\<lambda>outputs.
    Inr \<lparr>tc_fingerprint = fingerprint, tc_req_pattern = req_pattern, tc_capturer = capturer, tc_outputs = outputs\<rparr>))))"

text \<open>The loop over the \<open>tasks\<close> array: \<open>tasks\<close> are the ones already read.\<close>

fun parse_tasks :: "mem \<Rightarrow> nat \<Rightarrow> TaskConfig list \<Rightarrow> cJSON list \<Rightarrow> TasksAllConfig parsed" where
  "parse_tasks mem i tasks [] = Inr tasks"
| "parse_tasks mem i tasks (task_obj # objs) =
    (if \<not> cJSON_IsObject task_obj then fail ''task %d is not an object'' [A_int (int i)]
     else if \<not> mem [dec_nat i, ''calloc''] then fail ''memory allocation failed'' []
     else bindE (wrap ''parse task %d error'' [A_int (int i)] (parse_task_config (sub_mem (dec_nat i) mem) task_obj)) (\<lambda>task.
          if tc_fingerprint task \<noteq> None \<and> list_ex (\<lambda>t. tc_fingerprint t = tc_fingerprint task) tasks
          then fail (''duplicate fingerprint '' @ [CHR 0x27] @ ''%s'' @ [CHR 0x27]) [A_str (the (tc_fingerprint task))]
          else parse_tasks mem (i + 1) (tasks @ [task]) objs))"

definition parse_tasks_json :: "mem \<Rightarrow> cJSON \<Rightarrow> TasksAllConfig parsed" where
  "parse_tasks_json mem json =
    (if \<not> mem [''tasks_config''] then fail ''memory allocation failed'' []
     else case item json ''tasks'' of
       Some (cJSON_Array objs) \<Rightarrow>
         if \<not> mem [''tasks''] then fail ''memory allocation failed'' [] else parse_tasks (sub_mem ''tasks'' mem) 0 [] objs
     | _ \<Rightarrow> fail ''missing or invalid tasks array'' [])"

section \<open>The whole document\<close>

definition parse_control_config :: "mem \<Rightarrow> cJSON \<Rightarrow> ControlConfig parsed" where
  "parse_control_config mem control_obj =
    bindE (required_string mem control_obj ''type'' ''missing or invalid control type'' ''memory allocation failed'') (\<lambda>type.
    if type = ''unix'' then
      (case item control_obj ''unix'' of None \<Rightarrow> fail ''missing unix config'' []
       | Some unix_obj \<Rightarrow>
           bindE (required_string (sub_mem ''unix'' mem) unix_obj ''path'' ''missing or invalid unix.path'' ''memory allocation failed'')
             (\<lambda>path. Inr (Control_unix path)))
    else fail ''unknown control type: %s'' [A_str type])"

definition to_lower :: "char \<Rightarrow> nat" where
  "to_lower c = (let n = of_char c in if 65 \<le> n \<and> n \<le> 90 then n + 32 else n)"

definition strcaseeq :: "string \<Rightarrow> string \<Rightarrow> bool" where
  "strcaseeq s t \<longleftrightarrow> map to_lower s = map to_lower t"

definition parse_log_level :: "cJSON \<Rightarrow> log_level parsed" where
  "parse_log_level json =
    (case item json ''log_level'' of None \<Rightarrow> Inr LOG_INFO
     | Some (cJSON_String s) \<Rightarrow>
         if strcaseeq s ''DEBUG'' then Inr LOG_DEBUG else if strcaseeq s ''INFO'' then Inr LOG_INFO
         else if strcaseeq s ''WARN'' then Inr LOG_WARN else if strcaseeq s ''ERROR'' then Inr LOG_ERROR
         else fail ''invalid log_level'' []
     | Some _ \<Rightarrow> fail ''invalid log_level'' [])"

definition parse_execution_model :: "cJSON \<Rightarrow> execution_model parsed" where
  "parse_execution_model json =
    (case item json ''execution_model'' of None \<Rightarrow> Inr EXECUTION_MODEL_RTC
     | Some (cJSON_String s) \<Rightarrow>
         if s = ''rtc'' then Inr EXECUTION_MODEL_RTC else if s = ''pipeline'' then Inr EXECUTION_MODEL_PIPELINE
         else fail ''invalid execution_model'' []
     | Some _ \<Rightarrow> fail ''invalid execution_model'' [])"

definition parse_pipeline :: "execution_model \<Rightarrow> cJSON \<Rightarrow> int parsed" where
  "parse_pipeline m json =
    (if m = EXECUTION_MODEL_PIPELINE then
       (case item json ''pipeline'' of None \<Rightarrow> fail ''missing pipeline config'' []
        | Some (cJSON_Object items) \<Rightarrow>
            (case item (cJSON_Object items) ''buffer_size_mb'' of None \<Rightarrow> fail ''missing pipeline.buffer_size_mb'' []
             | Some it \<Rightarrow> cjson_get_int64_range it ''pipeline.buffer_size_mb'' 1 ((2 ^ 64 - 1) div (1024 * 1024)))
        | Some _ \<Rightarrow> fail ''invalid pipeline config'' [])
     else Inr 0)"

definition parse_config_json :: "mem \<Rightarrow> cJSON \<Rightarrow> Config parsed" where
  "parse_config_json mem json =
    (if \<not> mem [''config''] then fail ''memory allocation failed'' []
     else
     bindE (parse_tasks_json mem json) (\<lambda>tasks.
     bindE (parse_log_level json) (\<lambda>log_level.
     bindE (optional_string mem json ''cpu_affinity'' ''invalid cpu_affinity'' ''memory allocation failed'') (\<lambda>cpu_affinity.
     bindE (parse_execution_model json) (\<lambda>execution_model.
     bindE (parse_pipeline execution_model json) (\<lambda>buffer_size_mb.
     bindE (case item json ''control'' of None \<Rightarrow> Inr None
            | Some control_obj \<Rightarrow>
                if \<not> cJSON_IsObject control_obj then fail ''invalid control'' []
                else if \<not> mem [''control''] then fail ''memory allocation failed'' []
                else bindE (wrap ''parse control error'' [] (parse_control_config (sub_mem ''control'' mem) control_obj)) (\<lambda>c. Inr (Some c))) (\<lambda>control.
     Inr \<lparr>cf_log_level = log_level, cf_cpu_affinity = cpu_affinity, cf_execution_model = execution_model,
       cf_buffer_size_mb = word_of_int buffer_size_mb, cf_control = control, cf_tasks = tasks\<rparr>)))))))"

section \<open>Valid configurations\<close>

definition pmtudisc_ok :: "int \<Rightarrow> bool" where
  "pmtudisc_ok p \<longleftrightarrow> p \<in> {-1, 0, 1, 2}"

fun output_type_ok :: "output_type \<Rightarrow> bool" where
  "output_type_ok (Vxlan c) \<longleftrightarrow> vc_port c \<noteq> 0 \<and> pmtudisc_ok (vc_pmtudisc c) \<and>
     (vc_vni_version c = 1 \<and> unat (vc_vni c) < 2 ^ 24 \<or> vc_vni_version c = 2)"
| "output_type_ok (Gre c) \<longleftrightarrow> pmtudisc_ok (gc_pmtudisc c)"
| "output_type_ok (Zmq c) \<longleftrightarrow> zc_port c \<noteq> 0 \<and> zc_hwm c \<in> {0..2147483647} \<and> zc_heartbeat_ms c \<in> {0..60000}"
| "output_type_ok (Rotating_file c) \<longleftrightarrow> rc_max_file_interval c \<in> {0..2147483647}"
| "output_type_ok _ \<longleftrightarrow> True"

definition output_config_ok :: "OutputConfig \<Rightarrow> bool" where
  "output_config_ok c \<longleftrightarrow> unat (oc_rate_limit_mbps c) * 1000000 < 2 ^ 31 * 1000000 \<and> oc_slice c \<in> {0..2147483647} \<and> output_type_ok (oc_config c)"

fun capturer_ok :: "CapturerConfig \<Rightarrow> bool" where
  "capturer_ok (Libpcap c) \<longleftrightarrow> lc_snaplen c \<in> {1..262144} \<and> 1 \<le> lc_buffer_size_mb c \<and> lc_buffer_size_mb c * 1024 * 1024 \<le> 2147483647 \<and>
     lc_timeout_ms c \<in> {0..2147483647}"
| "capturer_ok (Dpdk_pdump c) \<longleftrightarrow> dc_snaplen c \<in> {1..262144} \<and> dc_ring_size c \<in> {2..2 ^ 30}"
| "capturer_ok (Pcap_file c) \<longleftrightarrow> True"

definition task_ok :: "TaskConfig \<Rightarrow> bool" where
  "task_ok t \<longleftrightarrow> tc_fingerprint t \<noteq> Some [] \<and> capturer_ok (tc_capturer t) \<and> list_all output_config_ok (tc_outputs t)"

definition fingerprints :: "TasksAllConfig \<Rightarrow> string list" where
  "fingerprints ts = map the (filter (\<lambda>f. f \<noteq> None) (map tc_fingerprint ts))"

definition tasks_ok :: "TasksAllConfig \<Rightarrow> bool" where
  "tasks_ok ts \<longleftrightarrow> list_all task_ok ts \<and> distinct (fingerprints ts)"

definition config_ok :: "Config \<Rightarrow> bool" where
  "config_ok c \<longleftrightarrow> tasks_ok (cf_tasks c) \<and>
     (case cf_execution_model c of EXECUTION_MODEL_RTC \<Rightarrow> cf_buffer_size_mb c = 0
      | EXECUTION_MODEL_PIPELINE \<Rightarrow> cf_buffer_size_mb c \<noteq> 0 \<and> unat (cf_buffer_size_mb c) * 1024 * 1024 < 2 ^ 64)"

lemma c_trunc_bounds:
  "is_integral d \<Longrightarrow> \<not> d < Finite 0 \<Longrightarrow> 0 \<le> c_trunc d"
  "is_integral d \<Longrightarrow> \<not> dbl k < d \<Longrightarrow> 0 \<le> k \<Longrightarrow> c_trunc d \<le> k"
  "is_integral d \<Longrightarrow> \<not> d \<le> Finite 0 \<Longrightarrow> \<not> dbl k < d \<Longrightarrow> 1 \<le> c_trunc d"
  by (elim integral_cases, auto simp: c_trunc_def)+

lemma nonneg_int_Inr:
  assumes "nonneg_int obj key name msg dflt = Inr v" "0 \<le> dflt" "dflt \<le> 2147483647"
  shows "0 \<le> v \<and> v \<le> 2147483647"
  using assms c_trunc_bounds(1) c_trunc_bounds(2) [of _ INT_MAX]
  by (auto simp: nonneg_int_def bindE_Inr get_integer_Inr INT_MAX_def split: option.splits if_splits)

lemma parse_snaplen_Inr: "parse_snaplen obj name b = Inr v \<Longrightarrow> v \<in> {1..262144}"
proof -
  assume a: "parse_snaplen obj name b = Inr v"
  show ?thesis
  proof (cases "item obj ''snaplen''")
    case (Some it)
    then obtain d where d: "is_integral d"
      "(if d \<le> dbl 0 \<and> \<not> b then fail ''invalid %s: %.15g, must be > 0'' [A_str name, A_double d]
         else if d = dbl 0 then Inr MAX_SNAPLEN else if d < dbl 0 \<or> d > dbl MAX_SNAPLEN then Inr MAX_SNAPLEN else Inr (c_trunc d)) = Inr v"
      using a by (auto simp: parse_snaplen_def bindE_Inr get_integer_Inr)
    show ?thesis using d by (elim integral_cases) (auto simp: MAX_SNAPLEN_def split: if_splits)
  qed (use a in \<open>auto simp: parse_snaplen_def DEFAULT_SNAPLEN_def\<close>)
qed

lemma parse_pmtudisc_Inr: "parse_pmtudisc obj msg = Inr v \<Longrightarrow> pmtudisc_ok v"
  by (auto simp: parse_pmtudisc_def pmtudisc_ok_def split: option.splits cJSON.splits if_splits)

lemma parse_capturer_ok: "parse_capturer_config mem obj = Inr c \<Longrightarrow> capturer_ok c"
proof -
  assume a: "parse_capturer_config mem obj = Inr c"
  have "is_integral d \<Longrightarrow> \<not> Finite 2047 < d \<Longrightarrow> 1048576 * c_trunc d \<le> 2147483647" for d
    using c_trunc_bounds(2) [of d 2047] by simp
  then have l: "parse_libpcap m o' = Inr c \<Longrightarrow> ?thesis" for m o'
    unfolding parse_libpcap_def bindE_Inr using c_trunc_bounds(3) [of _ 2047]
    by (auto dest!: parse_snaplen_Inr nonneg_int_Inr simp: bindE_Inr get_integer_Inr config_consts split: option.splits if_splits)
  have d: "parse_dpdk_pdump m o' = Inr c \<Longrightarrow> ?thesis" for m o'
    unfolding parse_dpdk_pdump_def bindE_Inr by (auto dest!: parse_snaplen_Inr simp: int64_range_Inr split: option.splits)
  have p: "parse_pcap_file m o' = Inr c \<Longrightarrow> ?thesis" for m o' unfolding parse_pcap_file_def bindE_Inr by auto
  show ?thesis using a l d p unfolding parse_capturer_config_def bindE_Inr by (auto split: if_splits option.splits)
qed

lemma word_of_int_range:
  "0 \<le> k \<Longrightarrow> k < 2 ^ LENGTH('a) \<Longrightarrow> unat (word_of_int k :: 'a::len word) = nat k"
  by (simp add: unat_eq_nat_uint uint_word_of_int_eq take_bit_int_eq_self)

lemma port_nonzero: "1 \<le> k \<Longrightarrow> k \<le> 65535 \<Longrightarrow> (word_of_int k :: u16) \<noteq> 0"
  using word_of_int_range [of k, where 'a = 16] by (auto simp: unat_eq_0 [symmetric])

lemma parse_vni_Inr: "parse_vni obj = Inr (v, n) \<Longrightarrow> v = 1 \<and> unat n < 2 ^ 24 \<or> v = 2"
proof -
  have "0 \<le> k \<Longrightarrow> unat (word_of_int (if k > 0xFFFFFF then k AND 0xFFFFFF else k) :: u32) < 2 ^ 24" for k :: int
  proof -
    assume k: "0 \<le> k"
    have "k AND 0xFFFFFF = take_bit 24 k" by (simp add: take_bit_eq_mask mask_eq_exp_minus_1)
    then have "k AND 0xFFFFFF = k mod 16777216" by (simp only: take_bit_eq_mod) simp
    then have "(if k > 0xFFFFFF then k AND 0xFFFFFF else k) < 16777216" "0 \<le> (if k > 0xFFFFFF then k AND 0xFFFFFF else k)" using k by auto
    then show ?thesis using word_of_int_range [of "if k > 0xFFFFFF then k AND 0xFFFFFF else k", where 'a = 32] by (auto split: if_splits)
  qed
  then show "parse_vni obj = Inr (v, n) \<Longrightarrow> ?thesis"
    by (auto simp: parse_vni_def bindE_Inr int64_range_Inr Let_def split: option.splits)
qed

lemma parse_output_type_ok: "parse_output_type mem ty obj = Inr c \<Longrightarrow> output_type_ok c"
proof -
  assume a: "parse_output_type mem ty obj = Inr c"
  have v: "parse_vxlan m o' = Inr c \<Longrightarrow> ?thesis" for m o'
    unfolding parse_vxlan_def bindE_Inr wrap_Inr
    by (auto dest!: parse_vni_Inr parse_pmtudisc_Inr simp: bindE_Inr wrap_Inr int64_range_Inr port_nonzero split: option.splits)
  have g: "parse_gre m o' = Inr c \<Longrightarrow> ?thesis" for m o' unfolding parse_gre_def bindE_Inr by (auto dest!: parse_pmtudisc_Inr)
  have z: "parse_zmq m o' = Inr c \<Longrightarrow> ?thesis" for m o'
    unfolding parse_zmq_def bindE_Inr by (auto dest!: nonneg_int_Inr simp: int64_range_Inr port_nonzero split: option.splits)
  have f: "parse_file m o' = Inr c \<Longrightarrow> ?thesis" for m o' unfolding parse_file_def bindE_Inr by auto
  have r: "parse_rotating_file m o' = Inr c \<Longrightarrow> ?thesis" for m o'
    unfolding parse_rotating_file_def bindE_Inr by (auto dest!: nonneg_int_Inr)
  show ?thesis using a v g z f r unfolding parse_output_type_def by (auto split: if_splits option.splits)
qed

lemma parse_output_ok: "parse_output_config mem obj = Inr c \<Longrightarrow> output_config_ok c"
  unfolding parse_output_config_def bindE_Inr output_config_ok_def
  by (auto dest!: nonneg_int_Inr parse_output_type_ok simp: word_of_int_range)

lemma parse_outputs_ok: "parse_outputs mem i objs = Inr cs \<Longrightarrow> list_all output_config_ok cs"
  by (induction objs arbitrary: i cs) (auto simp: bindE_Inr wrap_Inr parse_output_ok split: if_splits)

lemma parse_task_ok: "parse_task_config mem obj = Inr t \<Longrightarrow> task_ok t"
  unfolding parse_task_config_def bindE_Inr task_ok_def
  by (auto dest!: parse_capturer_ok parse_outputs_ok simp: wrap_Inr split: option.splits cJSON.splits if_splits)

lemma fingerprints_append: "fingerprints (ts @ [t]) = fingerprints ts @ (case tc_fingerprint t of None \<Rightarrow> [] | Some f \<Rightarrow> [f])"
  by (simp add: fingerprints_def split: option.splits)

lemma fingerprints_append2: "fingerprints (ts @ us) = fingerprints ts @ fingerprints us"
  by (simp add: fingerprints_def)

lemma fingerprints_Cons: "fingerprints (t # ts) = (case tc_fingerprint t of None \<Rightarrow> [] | Some f \<Rightarrow> [f]) @ fingerprints ts"
  by (simp add: fingerprints_def split: option.splits)

lemma in_fingerprints: "f \<in> set (fingerprints ts) \<longleftrightarrow> (\<exists>t\<in>set ts. tc_fingerprint t = Some f)"
  by (induction ts) (auto simp: fingerprints_def)

lemma parse_tasks_ok: "parse_tasks mem i ts objs = Inr ts' \<Longrightarrow> tasks_ok ts \<Longrightarrow> tasks_ok ts'"
proof (induction objs arbitrary: i ts)
  case (Cons obj objs)
  then obtain t where t: "parse_task_config (sub_mem (dec_nat i) mem) obj = Inr t"
    "\<not> (tc_fingerprint t \<noteq> None \<and> list_ex (\<lambda>t'. tc_fingerprint t' = tc_fingerprint t) ts)"
    "parse_tasks mem (i + 1) (ts @ [t]) objs = Inr ts'" by (auto simp: bindE_Inr wrap_Inr split: if_splits)
  have "tasks_ok (ts @ [t])"
    using parse_task_ok [OF t(1)] t(2) Cons.prems(2)
    by (auto simp: tasks_ok_def fingerprints_append in_fingerprints list_ex_iff split: option.splits)
  then show ?case using Cons.IH t(3) by blast
qed auto

text \<open>(C10) Whatever JSON document the parser accepts, the configuration is valid: every number lies in the range the
  code that uses it needs (the buffer sizes and rates do not overflow when converted to bytes, snap lengths and ring sizes are
  positive, a version-1 VNI fits 24 bits), and no two tasks share a fingerprint.\<close>

theorem config_valid:
  assumes "parse_config_json mem json = Inr c"
  shows "config_ok c"
proof -
  have t: "parse_tasks_json mem json = Inr ts \<Longrightarrow> tasks_ok ts" for ts
    by (auto simp: parse_tasks_json_def tasks_ok_def fingerprints_def split: option.splits cJSON.splits if_splits dest: parse_tasks_ok [where ts = "[]"])
  have b: "1 \<le> k \<Longrightarrow> k \<le> 17592186044415 \<Longrightarrow> (word_of_int k :: u64) \<noteq> 0 \<and> unat (word_of_int k :: u64) < 17592186044416" for k
    using word_of_int_range [of k, where 'a = 64] by (auto simp: unat_eq_0 [symmetric])
  show ?thesis using assms unfolding parse_config_json_def config_ok_def
    by (auto simp: bindE_Inr t parse_pipeline_def int64_range_Inr b parse_execution_model_def
        split: if_splits option.splits cJSON.splits execution_model.splits)
qed

section \<open>Printing a configuration\<close>

definition num :: "int \<Rightarrow> cJSON" where
  "num k = cJSON_Number (dbl k)"

lemma num_back [simp]:
  "cjson_get_integer (num k) name = Inr (dbl k)" "lo \<le> k \<Longrightarrow> k \<le> hi \<Longrightarrow> cjson_get_int64_range (num k) name lo hi = Inr k"
  by (simp_all add: num_def)

definition pmtudisc_json :: "int \<Rightarrow> (string \<times> cJSON) list" where
  "pmtudisc_json p = (if p = 2 then [(''pmtudisc'', cJSON_String ''do'')] else if p = 0 then [(''pmtudisc'', cJSON_String ''dont'')]
     else if p = 1 then [(''pmtudisc'', cJSON_String ''want'')] else [])"

fun output_type_name :: "output_type \<Rightarrow> string" where
  "output_type_name (Vxlan _) = ''vxlan''"
| "output_type_name (Gre _) = ''gre''"
| "output_type_name (Zmq _) = ''zmq''"
| "output_type_name (File _) = ''file''"
| "output_type_name (Rotating_file _) = ''rotating_file''"
| "output_type_name Null = ''null''"

fun output_type_json :: "output_type \<Rightarrow> cJSON" where
  "output_type_json (Vxlan c) = cJSON_Object ([(''host'', cJSON_String (vc_host c)), (''port'', num (uint (vc_port c))),
     (''capture_time'', cJSON_Bool (vc_capture_time c)), (if vc_vni_version c = 1 then ''vni1'' else ''vni2'', num (uint (vc_vni c))),
     (''bind_device'', cJSON_String (vc_bind_device c)),
     (''split'', cJSON_Object [(''max_payload_size'', num (uint (max_payload_size (vc_split c)))),
        (''recalculate_checksum'', cJSON_Bool (recalculate_checksum (vc_split c)))])] @ pmtudisc_json (vc_pmtudisc c))"
| "output_type_json (Gre c) = cJSON_Object ([(''host'', cJSON_String (gc_host c)), (''service_tag'', num (uint (gc_service_tag c))),
     (''bind_device'', cJSON_String (gc_bind_device c))] @ pmtudisc_json (gc_pmtudisc c))"
| "output_type_json (Zmq c) = cJSON_Object [(''host'', cJSON_String (zc_host c)), (''port'', num (uint (zc_port c))), (''hwm'', num (zc_hwm c)),
     (''service_tag'', num (uint (zc_service_tag c))), (''uuid'', cJSON_String (zc_uuid c)), (''heartbeat_ms'', num (zc_heartbeat_ms c))]"
| "output_type_json (File name) = cJSON_Object [(''name'', cJSON_String name)]"
| "output_type_json (Rotating_file c) = cJSON_Object [(''file_root'', cJSON_String (rc_file_root c)), (''max_file_interval'', num (rc_max_file_interval c))]"
| "output_type_json Null = cJSON_NULL"

definition output_json :: "OutputConfig \<Rightarrow> cJSON" where
  "output_json c = cJSON_Object [(''type'', cJSON_String (output_type_name (oc_config c))), (''rate_limit_mbps'', num (uint (oc_rate_limit_mbps c))),
     (''slice'', num (oc_slice c)), (output_type_name (oc_config c), output_type_json (oc_config c))]"

fun capturer_json :: "CapturerConfig \<Rightarrow> cJSON" where
  "capturer_json (Libpcap c) = cJSON_Object [(''type'', cJSON_String ''libpcap''), (''libpcap'', cJSON_Object [(''interface'', cJSON_String (lc_interface c)),
     (''snaplen'', num (lc_snaplen c)), (''netns'', cJSON_String (lc_netns c)), (''bpf'', cJSON_String (lc_bpf_filter c)),
     (''buffer_size_mb'', num (lc_buffer_size_mb c)), (''timeout_ms'', num (lc_timeout_ms c)),
     (''not_filter_output_hosts'', cJSON_Bool (lc_not_filter_output_hosts c))])]"
| "capturer_json (Pcap_file c) = cJSON_Object [(''type'', cJSON_String ''pcap_file''), (''pcap_file'', cJSON_Object [
     (''file_name'', cJSON_String (pc_file_name c)), (''bpf'', cJSON_String (pc_bpf_filter c))])]"
| "capturer_json (Dpdk_pdump c) = cJSON_Object [(''type'', cJSON_String ''dpdk_pdump''), (''dpdk_pdump'', cJSON_Object [
     (''interface'', cJSON_String (dc_interface c)), (''snaplen'', num (dc_snaplen c)), (''bpf'', cJSON_String (dc_bpf_filter c)),
     (''ring_size'', num (dc_ring_size c))])]"

fun req_pattern_json :: "ReqPatternConfig \<Rightarrow> (string \<times> cJSON) list" where
  "req_pattern_json Pattern_none = []"
| "req_pattern_json Pattern_auto = [(''req_pattern'', cJSON_Object [(''type'', cJSON_String ''auto'')])]"
| "req_pattern_json (Pattern_custom p) = [(''req_pattern'', cJSON_Object [(''type'', cJSON_String ''custom''),
     (''custom'', cJSON_Object [(''pattern'', cJSON_String p)])])]"

definition task_json :: "TaskConfig \<Rightarrow> cJSON" where
  "task_json t = cJSON_Object ([(''fingerprint'', cJSON_String (case tc_fingerprint t of None \<Rightarrow> [] | Some f \<Rightarrow> f)),
     (''capturer'', capturer_json (tc_capturer t)), (''outputs'', cJSON_Array (map output_json (tc_outputs t)))] @ req_pattern_json (tc_req_pattern t))"

definition config_json :: "Config \<Rightarrow> cJSON" where
  "config_json c = cJSON_Object ([(''tasks'', cJSON_Array (map task_json (cf_tasks c))),
     (''log_level'', cJSON_String (case cf_log_level c of LOG_DEBUG \<Rightarrow> ''debug'' | LOG_INFO \<Rightarrow> ''info'' | LOG_WARN \<Rightarrow> ''warn'' | LOG_ERROR \<Rightarrow> ''error'')),
     (''cpu_affinity'', cJSON_String (cf_cpu_affinity c)),
     (''execution_model'', cJSON_String (case cf_execution_model c of EXECUTION_MODEL_RTC \<Rightarrow> ''rtc'' | EXECUTION_MODEL_PIPELINE \<Rightarrow> ''pipeline'')),
     (''pipeline'', cJSON_Object [(''buffer_size_mb'', num (uint (cf_buffer_size_mb c)))])] @
     (case cf_control c of None \<Rightarrow> [] | Some (Control_unix path) \<Rightarrow>
        [(''control'', cJSON_Object [(''type'', cJSON_String ''unix''), (''unix'', cJSON_Object [(''path'', cJSON_String path)])])]))"

lemma item_object [simp]: "item (cJSON_Object items) k = map_of items k"
  by (simp add: cJSON_GetObjectItemCaseSensitive_def)

lemma sub_mem_all [simp]: "sub_mem x (\<lambda>_. True) = (\<lambda>_. True)"
  by (simp add: sub_mem_def)

lemma strings_back [simp]:
  "item obj key = Some (cJSON_String s) \<Longrightarrow> required_string (\<lambda>_. True) obj key e m = Inr s"
  "item obj key = Some (cJSON_String s) \<Longrightarrow> optional_string (\<lambda>_. True) obj key e m = Inr s"
  "item obj key = Some (cJSON_Bool b) \<Longrightarrow> optional_bool obj key e = Inr b"
  by (simp_all add: required_string_def optional_string_def optional_bool_def strdup_def)

lemma nonneg_back [simp]:
  "item obj key = Some (num k) \<Longrightarrow> 0 \<le> k \<Longrightarrow> k \<le> 2147483647 \<Longrightarrow> nonneg_int obj key name msg dflt = Inr k"
  by (simp add: nonneg_int_def INT_MAX_def)

lemma snaplen_back [simp]:
  "item obj ''snaplen'' = Some (num k) \<Longrightarrow> 1 \<le> k \<Longrightarrow> k \<le> 262144 \<Longrightarrow> parse_snaplen obj name b = Inr k"
  by (simp add: parse_snaplen_def MAX_SNAPLEN_def)

lemma pmtudisc_map_of: "k \<noteq> ''pmtudisc'' \<Longrightarrow> map_of (pmtudisc_json p) k = None"
  by (simp add: pmtudisc_json_def)

lemma pmtudisc_back:
  "item obj ''pmtudisc'' = map_of (pmtudisc_json p) ''pmtudisc'' \<Longrightarrow> pmtudisc_ok p \<Longrightarrow> parse_pmtudisc obj e = Inr p"
  by (auto simp: parse_pmtudisc_def pmtudisc_json_def pmtudisc_ok_def)

lemma capturer_back: "capturer_ok c \<Longrightarrow> parse_capturer_config (\<lambda>_. True) (capturer_json c) = Inr c"
  by (cases c) (auto simp: parse_capturer_config_def parse_libpcap_def parse_pcap_file_def parse_dpdk_pdump_def config_consts)

lemma uint_bounds [simp]: "uint (w :: u16) \<le> 65535" "uint (v :: u32) \<le> 4294967295" "w \<noteq> 0 \<Longrightarrow> 1 \<le> uint w"
proof -
  show "uint w \<le> 65535" "uint v \<le> 4294967295" using uint_bounded [of w] uint_bounded [of v] by simp_all
  show "w \<noteq> 0 \<Longrightarrow> 1 \<le> uint w" using uint_ge_0 [of w] by (metis int_one_le_iff_zero_less le_less uint_0_iff)
qed

lemma uint_le_unat: "unat w \<le> k \<Longrightarrow> uint w \<le> int k"
  by (metis of_nat_le_iff of_nat_unat)

lemma vni_back:
  assumes "vc_vni_version c = 1 \<and> unat (vc_vni c) < 2 ^ 24 \<or> vc_vni_version c = 2"
    and "item obj ''vni1'' = (if vc_vni_version c = 1 then Some (num (uint (vc_vni c))) else None)"
    and "item obj ''vni2'' = (if vc_vni_version c = 1 then None else Some (num (uint (vc_vni c))))"
  shows "parse_vni obj = Inr (vc_vni_version c, vc_vni c)"
proof -
  have "unat (vc_vni c) < 2 ^ 24 \<Longrightarrow> \<not> uint (vc_vni c) > 16777215" using uint_le_unat [of "vc_vni c" 16777215] by simp
  then show ?thesis using assms by (auto simp: parse_vni_def)
qed

lemma vxlan_back: "output_type_ok (Vxlan c) \<Longrightarrow> parse_vxlan (\<lambda>_. True) (output_type_json (Vxlan c)) = Inr (Vxlan c)"
  unfolding parse_vxlan_def by (simp add: pmtudisc_map_of pmtudisc_back [where p = "vc_pmtudisc c"] vni_back [where c = c] parse_split_config_def)

lemma gre_back: "output_type_ok (Gre c) \<Longrightarrow> parse_gre (\<lambda>_. True) (output_type_json (Gre c)) = Inr (Gre c)"
  unfolding parse_gre_def by (simp add: pmtudisc_map_of pmtudisc_back [where p = "gc_pmtudisc c"])

lemma zmq_back: "output_type_ok (Zmq c) \<Longrightarrow> parse_zmq (\<lambda>_. True) (output_type_json (Zmq c)) = Inr (Zmq c)"
  unfolding parse_zmq_def by simp

lemma output_type_back:
  "output_type_ok c \<Longrightarrow> parse_output_type (\<lambda>_. True) (output_type_name c)
     (cJSON_Object [(''type'', a), (''rate_limit_mbps'', b), (''slice'', d), (output_type_name c, output_type_json c)]) = Inr c"
  using vxlan_back gre_back zmq_back
  by (cases c) (simp_all add: parse_output_type_def parse_file_def parse_rotating_file_def del: output_type_json.simps(1-3))

lemma output_back: "output_config_ok c \<Longrightarrow> parse_output_config (\<lambda>_. True) (output_json c) = Inr c"
proof -
  assume ok: "output_config_ok c"
  have r: "0 \<le> uint (oc_rate_limit_mbps c)" "uint (oc_rate_limit_mbps c) \<le> 2147483647"
    using ok uint_le_unat [of "oc_rate_limit_mbps c" 2147483647] by (simp_all add: output_config_ok_def)
  show ?thesis using ok r output_type_back [of "oc_config c"]
    unfolding parse_output_config_def output_json_def by (simp add: output_config_ok_def)
qed

lemma outputs_back: "list_all output_config_ok cs \<Longrightarrow> parse_outputs (\<lambda>_. True) i (map output_json cs) = Inr cs"
proof (induction cs arbitrary: i)
  case (Cons c cs)
  have "cJSON_IsObject (output_json c)" by (simp add: output_json_def)
  then show ?case using Cons by (simp add: output_back)
qed simp

lemma task_back: "task_ok t \<Longrightarrow> parse_task_config (\<lambda>_. True) (task_json t) = Inr t"
proof -
  assume ok: "task_ok t"
  obtain items where c: "capturer_json (tc_capturer t) = cJSON_Object items" by (cases "tc_capturer t") simp_all
  have "parse_capturer_config (\<lambda>_. True) (cJSON_Object items) = Inr (tc_capturer t)" using capturer_back [of "tc_capturer t"] ok c by (simp add: task_ok_def)
  then show ?thesis using ok outputs_back [of "tc_outputs t" 0] c
    unfolding parse_task_config_def task_json_def
    by (cases "tc_req_pattern t"; cases "tc_fingerprint t"; simp add: task_ok_def parse_req_pattern_config_def)
qed

lemma tasks_back:
  "tasks_ok (ts @ us) \<Longrightarrow> parse_tasks (\<lambda>_. True) i ts (map task_json us) = Inr (ts @ us)"
proof (induction us arbitrary: i ts)
  case (Cons u us)
  have "cJSON_IsObject (task_json u)" by (simp add: task_json_def)
  moreover have "task_ok u" using Cons.prems by (simp add: tasks_ok_def)
  moreover have "\<not> (tc_fingerprint u \<noteq> None \<and> list_ex (\<lambda>t. tc_fingerprint t = tc_fingerprint u) ts)"
    using Cons.prems in_fingerprints [of _ ts] by (auto simp: tasks_ok_def fingerprints_Cons list_ex_iff fingerprints_append2)
  ultimately show ?case using Cons.IH [of "ts @ [u]" "i + 1"] Cons.prems task_back [of u] by simp
qed simp

text \<open>(C12) Every valid configuration can be written down: printed as a JSON tree and parsed again it is read back
  unchanged, field by field.\<close>

theorem config_roundtrip:
  assumes "config_ok c"
  shows "parse_config_json (\<lambda>_. True) (config_json c) = Inr c"
proof -
  have t: "parse_tasks_json (\<lambda>_. True) (config_json c) = Inr (cf_tasks c)"
    using tasks_back [of "[]" "cf_tasks c" 0] assms by (simp add: parse_tasks_json_def config_json_def config_ok_def)
  have l: "parse_log_level (config_json c) = Inr (cf_log_level c)"
    by (cases "cf_log_level c") (simp_all add: parse_log_level_def config_json_def strcaseeq_def to_lower_def)
  have m: "parse_execution_model (config_json c) = Inr (cf_execution_model c)"
    by (cases "cf_execution_model c") (simp_all add: parse_execution_model_def config_json_def)
  have p: "\<exists>k. parse_pipeline (cf_execution_model c) (config_json c) = Inr k \<and> word_of_int k = cf_buffer_size_mb c"
  proof (cases "cf_execution_model c")
    case EXECUTION_MODEL_PIPELINE
    then have b: "cf_buffer_size_mb c \<noteq> 0" "unat (cf_buffer_size_mb c) \<le> 17592186044415" using assms by (simp_all add: config_ok_def)
    have "1 \<le> uint (cf_buffer_size_mb c)" using b(1) uint_ge_0 [of "cf_buffer_size_mb c"] by (metis int_one_le_iff_zero_less le_less uint_0_iff)
    then show ?thesis using uint_le_unat [OF b(2)] EXECUTION_MODEL_PIPELINE by (simp add: parse_pipeline_def config_json_def)
  qed (use assms in \<open>simp add: parse_pipeline_def config_ok_def\<close>)
  have a: "optional_string (\<lambda>_. True) (config_json c) ''cpu_affinity'' e n = Inr (cf_cpu_affinity c)" for e n
    by (simp add: config_json_def)
  have ctl: "item (config_json c) ''control'' = (case cf_control c of None \<Rightarrow> None | Some (Control_unix path) \<Rightarrow>
      Some (cJSON_Object [(''type'', cJSON_String ''unix''), (''unix'', cJSON_Object [(''path'', cJSON_String path)])]))"
    by (simp add: config_json_def split: option.splits ControlConfig.splits)
  show ?thesis using p unfolding parse_config_json_def
    by (auto simp: t l m a ctl parse_control_config_def split: option.splits ControlConfig.splits)
qed

definition sample_config :: Config where
  "sample_config = \<lparr>cf_log_level = LOG_WARN, cf_cpu_affinity = ''1'', cf_execution_model = EXECUTION_MODEL_PIPELINE, cf_buffer_size_mb = 64,
     cf_control = Some (Control_unix ''/s''), cf_tasks = [
       \<lparr>tc_fingerprint = Some ''a'', tc_req_pattern = Pattern_custom ''host 1.2.3.4'',
        tc_capturer = Libpcap \<lparr>lc_interface = ''eth0'', lc_snaplen = 2048, lc_netns = [], lc_bpf_filter = ''ip'', lc_buffer_size_mb = 256,
          lc_timeout_ms = 0, lc_not_filter_output_hosts = False\<rparr>,
        tc_outputs = [\<lparr>oc_rate_limit_mbps = 10, oc_slice = 0, oc_config = Vxlan \<lparr>vc_host = ''h'', vc_port = 4789, vc_capture_time = True,
          vc_vni_version = 1, vc_vni = 7, vc_bind_device = [], vc_pmtudisc = -1, vc_split = \<lparr>max_payload_size = 1400, recalculate_checksum = True\<rparr>\<rparr>\<rparr>]\<rparr>,
       \<lparr>tc_fingerprint = None, tc_req_pattern = Pattern_none, tc_capturer = Dpdk_pdump \<lparr>dc_interface = ''p0'', dc_snaplen = 100, dc_bpf_filter = [], dc_ring_size = 2\<rparr>,
        tc_outputs = [\<lparr>oc_rate_limit_mbps = 0, oc_slice = 64, oc_config = Zmq \<lparr>zc_host = ''h'', zc_port = 82, zc_hwm = 0, zc_service_tag = 1, zc_uuid = [], zc_heartbeat_ms = 0\<rparr>\<rparr>]\<rparr>]\<rparr>"

lemma sample_config_ok: "config_ok sample_config"
  by (simp add: sample_config_def config_ok_def tasks_ok_def task_ok_def fingerprints_def output_config_ok_def pmtudisc_ok_def)

theorem config_roundtrip_witness:
  "config_ok sample_config \<and> parse_config_json (\<lambda>_. True) (config_json sample_config) = Inr sample_config"
  using config_roundtrip [OF sample_config_ok] sample_config_ok by simp

lemma sample_config_parses: "parse_config_json (\<lambda>_. True) (cJSON_Object [(''tasks'', cJSON_Array []), (''log_level'', cJSON_String ''Error'')])
    = Inr \<lparr>cf_log_level = LOG_ERROR, cf_cpu_affinity = [], cf_execution_model = EXECUTION_MODEL_RTC, cf_buffer_size_mb = 0, cf_control = None, cf_tasks = []\<rparr>"
  by (simp add: parse_config_json_def parse_tasks_json_def parse_log_level_def strcaseeq_def to_lower_def optional_string_def strdup_def
      parse_execution_model_def parse_pipeline_def)

theorem config_valid_witness:
  "config_ok \<lparr>cf_log_level = LOG_ERROR, cf_cpu_affinity = [], cf_execution_model = EXECUTION_MODEL_RTC, cf_buffer_size_mb = 0, cf_control = None, cf_tasks = []\<rparr>"
  by (rule config_valid [OF sample_config_parses])

section \<open>Filters and snap lengths derived from a configuration\<close>

definition output_forward_host :: "OutputConfig \<Rightarrow> string option" where
  "output_forward_host output =
    (case oc_config output of Vxlan c \<Rightarrow> Some (vc_host c) | Gre c \<Rightarrow> Some (gc_host c) | Zmq c \<Rightarrow> Some (zc_host c) | _ \<Rightarrow> None)"

text \<open>The loop that collects the hosts and the buffer size.\<close>

fun collect_hosts :: "string list \<times> nat \<Rightarrow> OutputConfig list \<Rightarrow> string list \<times> nat" where
  "collect_hosts (hosts, buf_size) [] = (hosts, buf_size)"
| "collect_hosts (hosts, buf_size) (output # outputs) =
    (case output_forward_host output of None \<Rightarrow> collect_hosts (hosts, buf_size) outputs
     | Some host \<Rightarrow>
         if list_ex (\<lambda>h. h = host) hosts then collect_hosts (hosts, buf_size) outputs
         else collect_hosts (hosts @ [host], buf_size + length host + length '' and not host '') outputs)"

fun write_hosts :: "string \<Rightarrow> bool \<Rightarrow> string list \<Rightarrow> string" where
  "write_hosts out is_first [] = out"
| "write_hosts out is_first (host # hosts) = write_hosts (out @ (if is_first then [] else '' and '') @ ''not host '' @ host) False hosts"

text \<open>\<^term>\<open>None\<close> is a write past the end of the allocated buffer.\<close>

definition bpf_filter_exclude_task_output_hosts :: "bool \<Rightarrow> bool \<Rightarrow> string \<Rightarrow> TasksAllConfig \<Rightarrow> (string + string) option" where
  "bpf_filter_exclude_task_output_hosts calloc_ok malloc_ok bpf tasks_cfg =
    (let max_hosts = sum_list (map (\<lambda>t. length (tc_outputs t)) tasks_cfg) in
     if max_hosts > 0 \<and> \<not> calloc_ok then Some (Inl ''failed to allocate memory'')
     else let (hosts, buf_size) = collect_hosts ([], length bpf + 1 + 2) (concat (map tc_outputs tasks_cfg)) in
       if length hosts > max_hosts then None
       else if \<not> malloc_ok then Some (Inl ''failed to allocate memory'')
       else let out = (if bpf \<noteq> [] then ''('' @ bpf @ '')'' else []);
                out = write_hosts out (bpf = []) hosts
            in if length out + 1 > buf_size then None else Some (Inr out))"

definition MAXIMUM_SNAPLEN :: int where "MAXIMUM_SNAPLEN = 262144"

definition task_capturer_snaplen :: "TaskConfig \<Rightarrow> int" where
  "task_capturer_snaplen task =
    (case tc_capturer task of Libpcap c \<Rightarrow> lc_snaplen c | Pcap_file _ \<Rightarrow> MAXIMUM_SNAPLEN | Dpdk_pdump c \<Rightarrow> dc_snaplen c)"

fun join_and :: "string list \<Rightarrow> string" where
  "join_and [] = []"
| "join_and [x] = x"
| "join_and (x # y # xs) = x @ '' and '' @ join_and (y # xs)"

lemma write_hosts_join:
  "out \<noteq> [] \<or> is_first \<Longrightarrow> (is_first \<longrightarrow> out = []) \<Longrightarrow>
     write_hosts out is_first hs = join_and ((if is_first then [] else [out]) @ map (\<lambda>h. ''not host '' @ h) hs)"
proof (induction hs arbitrary: out is_first)
  case (Cons h hs)
  have j: "join_and ((x @ '' and '' @ y) # ys) = join_and (x # y # ys)" for x y ys by (cases ys) simp_all
  show ?case using Cons.IH [of "out @ (if is_first then [] else '' and '') @ ''not host '' @ h" False] Cons.prems j
    by (cases is_first) simp_all
qed auto

lemma collect_hosts_run:
  "collect_hosts (hs, n) outs = (hs', n') \<Longrightarrow> distinct hs \<Longrightarrow> distinct hs' \<and> set hs' = set hs \<union> set (List.map_filter output_forward_host outs) \<and>
     n' = n + sum_list (map (\<lambda>h. length h + 14) (drop (length hs) hs')) \<and> take (length hs) hs' = hs \<and> length hs' \<le> length hs + length outs"
proof (induction outs arbitrary: hs n)
  case (Cons oc outs)
  show ?case
  proof (cases "\<exists>h. output_forward_host oc = Some h \<and> h \<notin> set hs")
    case True
    then obtain h where h: "output_forward_host oc = Some h" "h \<notin> set hs" by blast
    then have c: "collect_hosts (hs @ [h], n + length h + 14) outs = (hs', n')" using Cons.prems(1) by (simp add: list_ex_iff numeral_eq_Suc)
    note ih = Cons.IH [OF c]
    have t: "take (length hs + 1) hs' = hs @ [h]" "length hs + 1 \<le> length hs'" using ih h(2) Cons.prems(2) by (auto dest: arg_cong [where f = length])
    then have "hs' ! length hs = h" "length hs < length hs'" by (auto dest: arg_cong [where f = "\<lambda>xs. xs ! length hs"] simp: nth_append)
    then have "drop (length hs) hs' = h # drop (length hs + 1) hs'" by (simp add: Cons_nth_drop_Suc [symmetric])
    moreover have "take (length hs) hs' = hs" using t by (metis append_eq_conv_conj le_add1 min.absorb1 take_take)
    ultimately show ?thesis using ih h Cons.prems(2) by auto
  next
    case False
    then have "collect_hosts (hs, n) outs = (hs', n')" using Cons.prems(1) by (auto simp: list_ex_iff split: option.splits if_splits)
    from Cons.IH [OF this Cons.prems(2)] False show ?thesis by (auto split: option.splits)
  qed
qed auto

lemma length_write_hosts: "length (write_hosts out is_first hs) \<le> length out + sum_list (map (\<lambda>h. length h + 14) hs)"
proof (induction hs arbitrary: out is_first)
  case (Cons h hs)
  show ?case using Cons.IH [of "out @ (if is_first then [] else '' and '') @ ''not host '' @ h" False] by (cases is_first) (simp_all add: numeral_eq_Suc)
qed simp

text \<open>(C21) The capture filter that keeps forwarded traffic out of the capture: the string always fits the buffer whose
  size was summed up beforehand, and it is the conjunction of the bracketed user filter and one \<open>not host\<close> term per distinct
  host the outputs of any task forward to.\<close>

theorem exclude_hosts_filter:
  "\<exists>hosts. distinct hosts \<and> set hosts = set (List.map_filter output_forward_host (concat (map tc_outputs tasks_cfg))) \<and>
     bpf_filter_exclude_task_output_hosts True True bpf tasks_cfg
       = Some (Inr (join_and ((if bpf = [] then [] else [''('' @ bpf @ '')'']) @ map (\<lambda>h. ''not host '' @ h) hosts))) \<and>
     bpf_filter_exclude_task_output_hosts calloc_ok malloc_ok bpf tasks_cfg \<noteq> None"
proof -
  obtain hs n where c: "collect_hosts ([], length bpf + 1 + 2) (concat (map tc_outputs tasks_cfg)) = (hs, n)" by (rule prod.exhaust)
  have "distinct ([] :: string list)" by simp
  note r = collect_hosts_run [OF c this]
  let ?out = "if bpf \<noteq> [] then ''('' @ bpf @ '')'' else []"
  have w: "write_hosts ?out (bpf = []) hs = join_and ((if bpf = [] then [] else [''('' @ bpf @ '')'']) @ map (\<lambda>h. ''not host '' @ h) hs)"
    using write_hosts_join [of ?out "bpf = []" hs] by (cases "bpf = []") simp_all
  have l: "\<not> length (write_hosts ?out (bpf = []) hs) + 1 > n"
    using length_write_hosts [of ?out "bpf = []" hs] r by (cases "bpf = []") simp_all
  have m: "\<not> length hs > sum_list (map (\<lambda>t. length (tc_outputs t)) tasks_cfg)"
    using r by (simp add: length_concat comp_def)
  have e: "bpf_filter_exclude_task_output_hosts ca ma bpf tasks_cfg
      = (if sum_list (map (\<lambda>t. length (tc_outputs t)) tasks_cfg) > 0 \<and> \<not> ca then Some (Inl ''failed to allocate memory'')
         else if \<not> ma then Some (Inl ''failed to allocate memory'') else Some (Inr (write_hosts ?out (bpf = []) hs)))" for ca ma
    unfolding bpf_filter_exclude_task_output_hosts_def Let_def c prod.case by (simp only: m l if_False)
  show ?thesis
  proof (intro exI [of _ hs] conjI)
    show "distinct hs" "set hs = set (List.map_filter output_forward_host (concat (map tc_outputs tasks_cfg)))" using r by simp_all
  qed (simp_all only: e w simp_thms if_False, simp)
qed

end
