(* ===== verification/Outputs.thy ===== *)
theory Outputs
  imports Output_File Output_Gre Output_Vxlan Output_Zmq Config
begin

text \<open>
  The interface of \<open>output.h\<close>: an output is created from its configuration by the factory of its type and
  driven through \<open>output_send_packet\<close>, \<open>output_heartbeat\<close> and \<open>destroy_output\<close>, which call the functions of
  its type.  Every output is kept with the part of the environment it talks to.
\<close>

section \<open>Creation and dispatch\<close>

datatype output_base = Null_output null_output | File_output "file_output \<times> file_env" | Rotating_output rotating_state
  | Gre_output gre_state | Vxlan_output vxlan_state | Zmq_output zmq_state

record output_env =
  oe_calloc :: bool
  oe_files :: file_env
  oe_setup :: socket_setup
  oe_socket :: socket_env
  oe_zmq_setup :: zmq_setup
  oe_zmq :: zmq_env

definition null_output_new_from_cfg :: "OutputConfig \<Rightarrow> output_stats \<Rightarrow> output_env \<Rightarrow> string + output_base" where
  "null_output_new_from_cfg cfg st env = map_sum id Null_output (null_output_new (oc_rate_limit_mbps cfg) (oc_slice cfg) st (oe_calloc env))"

definition file_output_new_from_cfg :: "TaskConfig \<Rightarrow> OutputConfig \<Rightarrow> string \<Rightarrow> output_stats \<Rightarrow> output_env \<Rightarrow> string + output_base" where
  "file_output_new_from_cfg task cfg name st env =
    (let (r, files) = file_output_new name (task_capturer_snaplen task) (oc_slice cfg) (oc_rate_limit_mbps cfg) st (oe_files env)
     in map_sum id (\<lambda>out. File_output (out, files)) r)"

definition rotating_file_output_new_from_cfg ::
  "TaskConfig \<Rightarrow> OutputConfig \<Rightarrow> rotating_file_config \<Rightarrow> output_stats \<Rightarrow> output_env \<Rightarrow> string + output_base" where
  "rotating_file_output_new_from_cfg task cfg c st env =
    (let (r, files) = rotating_file_output_new (rc_file_root c) (rc_max_file_interval c) (task_capturer_snaplen task) (oc_slice cfg)
           (oc_rate_limit_mbps cfg) st (oe_files env)
     in map_sum id (\<lambda>out. Rotating_output (out, files)) r)"

definition gre_output_new_from_cfg :: "OutputConfig \<Rightarrow> gre_config \<Rightarrow> output_stats \<Rightarrow> output_env \<Rightarrow> string + output_base" where
  "gre_output_new_from_cfg cfg c st env =
    map_sum id (\<lambda>out. Gre_output (out, oe_socket env))
      (gre_output_new (gc_host c) (gc_service_tag c) (Some (gc_bind_device c)) (gc_pmtudisc c) (oc_rate_limit_mbps cfg) (oc_slice cfg) st (oe_setup env))"

definition vxlan_output_new_from_cfg :: "OutputConfig \<Rightarrow> vxlan_config \<Rightarrow> output_stats \<Rightarrow> output_env \<Rightarrow> string + output_base" where
  "vxlan_output_new_from_cfg cfg c st env =
    map_sum id (\<lambda>out. Vxlan_output (out, oe_socket env))
      (vxlan_output_new \<lparr>vo_host = vc_host c, vo_capture_time = vc_capture_time c, vo_vni_version = vc_vni_version c, vo_vni = vc_vni c,
         vo_bind_device = Some (vc_bind_device c), vo_pmtudisc = vc_pmtudisc c, vo_rate_limit_mbps = oc_rate_limit_mbps cfg,
         vo_slice = oc_slice cfg, vo_max_payload_size = max_payload_size (vc_split c),
         vo_recalculate_checksum = recalculate_checksum (vc_split c)\<rparr> st (oe_setup env))"

definition zmq_output_new_from_cfg :: "OutputConfig \<Rightarrow> zmq_config \<Rightarrow> output_stats \<Rightarrow> output_env \<Rightarrow> string + output_base" where
  "zmq_output_new_from_cfg cfg c st env =
    (let (r, zenv) = zmq_output_new \<lparr>zo_host = zc_host c, zo_port = zc_port c, zo_service_tag = zc_service_tag c, zo_uuid = Some (zc_uuid c),
           zo_rate_limit_mbps = oc_rate_limit_mbps cfg, zo_slice = oc_slice cfg, zo_heartbeat_ms = zc_heartbeat_ms c\<rparr> st (oe_zmq_setup env) (oe_zmq env)
     in map_sum id (\<lambda>out. Zmq_output (out, zenv)) r)"

text \<open>The factory table of \<open>task.c\<close>: every type a parsed configuration can have is in it.\<close>

definition output_new_from_cfg :: "TaskConfig \<Rightarrow> OutputConfig \<Rightarrow> output_stats \<Rightarrow> output_env \<Rightarrow> string + output_base" where
  "output_new_from_cfg task cfg st env =
    (case oc_config cfg of
       Vxlan c \<Rightarrow> vxlan_output_new_from_cfg cfg c st env
     | Gre c \<Rightarrow> gre_output_new_from_cfg cfg c st env
     | Zmq c \<Rightarrow> zmq_output_new_from_cfg cfg c st env
     | File name \<Rightarrow> file_output_new_from_cfg task cfg name st env
     | Rotating_file c \<Rightarrow> rotating_file_output_new_from_cfg task cfg c st env
     | Null \<Rightarrow> null_output_new_from_cfg cfg st env)"

definition output_send_packet :: "bool \<Rightarrow> output_base \<Rightarrow> pcap_pkthdr \<Rightarrow> bytes \<Rightarrow> int \<Rightarrow> (output_base \<times> int) option" where
  "output_send_packet sse2 out header pkt_data direct =
    (case out of
       Null_output s \<Rightarrow> map_option (map_prod Null_output id) (null_send_packet s header pkt_data direct)
     | File_output s \<Rightarrow> map_option (map_prod File_output id) (file_write_packet s header pkt_data direct)
     | Rotating_output s \<Rightarrow> map_option (map_prod Rotating_output id) (rotating_file_write_packet s header pkt_data direct)
     | Gre_output s \<Rightarrow> map_option (map_prod Gre_output id) (gre_send_packet s header pkt_data direct)
     | Vxlan_output s \<Rightarrow> map_option (map_prod Vxlan_output id) (vxlan_send_packet sse2 s header pkt_data direct)
     | Zmq_output s \<Rightarrow> map_option (map_prod Zmq_output id) (zmq_send_packet s header pkt_data direct))"

definition output_heartbeat :: "output_base \<Rightarrow> int \<Rightarrow> output_base option" where
  "output_heartbeat out now = (case out of Zmq_output s \<Rightarrow> map_option Zmq_output (zmq_heartbeat s now) | _ \<Rightarrow> Some out)"

definition destroy_output :: "output_base \<Rightarrow> output_base option" where
  "destroy_output out = (case out of Zmq_output s \<Rightarrow> map_option Zmq_output (zmq_output_destroy s) | _ \<Rightarrow> Some out)"

section \<open>Outputs that count at once\<close>

fun output_stats_of :: "output_base \<Rightarrow> output_stats" where
  "output_stats_of (Null_output s) = o_stats s"
| "output_stats_of (File_output s) = o_stats (fst s)"
| "output_stats_of (Rotating_output s) = o_stats (fst s)"
| "output_stats_of (Gre_output s) = o_stats (fst s)"
| "output_stats_of (Vxlan_output s) = o_stats (fst s)"
| "output_stats_of (Zmq_output s) = o_stats (fst s)"

fun output_flen :: "output_base \<Rightarrow> u32 \<Rightarrow> u64" where
  "output_flen (Null_output s) = (\<lambda>n. output_frame_len n (o_slice s) SIZE_MAX)"
| "output_flen (File_output s) = file_flen (fst s)"
| "output_flen (Rotating_output s) = file_flen (fst s)"
| "output_flen (Gre_output s) = gre_flen (fst s)"
| "output_flen (Vxlan_output s) = vx_flen (fst s)"
| "output_flen (Zmq_output s) = (\<lambda>n. output_frame_len n (o_slice (fst s)) ZMQ_MAX_FRAME_LEN)"

fun output_ok :: "output_base \<Rightarrow> bool" where
  "output_ok (Null_output s) = True"
| "output_ok (File_output s) = file_ok s"
| "output_ok (Rotating_output s) = rot_ok s"
| "output_ok (Gre_output s) = gre_ok s"
| "output_ok (Vxlan_output s) = vx_ok s"
| "output_ok (Zmq_output s) = False"

interpretation outputs: counting_output "output_send_packet sse2" output_stats_of output_flen output_ok for sse2
proof
  fix out h d dir
  assume ok: "output_ok out" and p: "packet_ok (h, d, dir)"
  show "\<exists>out' c. output_send_packet sse2 out h d dir = Some (out', return_code c) \<and> output_ok out' \<and> output_flen out' = output_flen out \<and>
     output_stats_of out' = count_packet c (output_stats_of out) (output_flen out (ph_caplen h)) \<and> (c = Direction_drop \<longleftrightarrow> dir = PKT_DIR_UNKNOWN)"
    using ok null_out.counts_once [OF _ p] file_out.counts_once [OF _ p] rotating_out.counts_once [OF _ p] gre_out.counts_once [OF _ p]
      vxlan_out.counts_once [OF _ p, of _ sse2]
    by (cases out) (fastforce simp: output_send_packet_def)+
qed
lemma created_ok:
  assumes "output_new_from_cfg task cfg st env = Inr out" "\<forall>n. tm_ok (fe_localtime (oe_files env) (fe_clock (oe_files env) n))"
    "\<forall>c. oc_config cfg \<noteq> Zmq c"
  shows "output_ok out \<and> output_stats_of out = st"
proof (cases "oc_config cfg")
  case (Vxlan c)
  then obtain o' where o: "out = Vxlan_output (o', oe_socket env)" "vxlan_output_new \<lparr>vo_host = vc_host c, vo_capture_time = vc_capture_time c,
      vo_vni_version = vc_vni_version c, vo_vni = vc_vni c, vo_bind_device = Some (vc_bind_device c), vo_pmtudisc = vc_pmtudisc c,
      vo_rate_limit_mbps = oc_rate_limit_mbps cfg, vo_slice = oc_slice cfg, vo_max_payload_size = max_payload_size (vc_split c),
      vo_recalculate_checksum = recalculate_checksum (vc_split c)\<rparr> st (oe_setup env) = Inr o'"
    using assms(1) by (auto simp: output_new_from_cfg_def vxlan_output_new_from_cfg_def map_sum_def split: sum.splits)
  then show ?thesis using vxlan_new_ok [OF o(2)] by (auto simp: vxlan_output_new_def Let_def split: if_splits)
next
  case (Gre c)
  then obtain o' where o: "out = Gre_output (o', oe_socket env)"
    "gre_output_new (gc_host c) (gc_service_tag c) (Some (gc_bind_device c)) (gc_pmtudisc c) (oc_rate_limit_mbps cfg) (oc_slice cfg) st (oe_setup env) = Inr o'"
    using assms(1) by (auto simp: output_new_from_cfg_def gre_output_new_from_cfg_def map_sum_def split: sum.splits)
  then show ?thesis using gre_new_ok [OF o(2)] by (auto simp: gre_output_new_def Let_def split: if_splits)
next
  case (File name)
  then show ?thesis using assms(1)
    by (auto simp: output_new_from_cfg_def file_output_new_from_cfg_def file_output_new_def sys_fopen_def sys_call_def pcap_dump_fopen_def
        file_ok_def Let_def split: if_splits)
next
  case (Rotating_file c)
  then show ?thesis using assms(1,2)
    by (auto simp: output_new_from_cfg_def rotating_file_output_new_from_cfg_def rotating_file_output_new_def sys_call_def rot_ok_def Let_def split: if_splits)
next
  case Null
  then show ?thesis using assms(1)
    by (auto simp: output_new_from_cfg_def null_output_new_from_cfg_def null_output_new_def split: if_splits)
qed (use assms(3) in auto)

lemma foldl_packets_is: "packets_is s k \<Longrightarrow> packets_is (foldl packets_stats_add s (map (\<lambda>_. 1) xs)) (k + length xs)"
proof (induction xs arbitrary: s k)
  case (Cons x xs)
  then show ?case using Cons.IH [OF packets_is_one [OF Cons.prems]] by simp
qed simp

lemma foldl_bytes_is: "bytes_is s k \<Longrightarrow> bytes_is (foldl bytes_stats_add s ns) (k + sum_list (map unat ns))"
proof (induction ns arbitrary: s k)
  case (Cons n ns)
  have "bytes_is (bytes_stats_add s n) (k + unat n)" using bytes_is_add [OF Cons.prems, of "unat n"] by simp
  from Cons.IH [OF this] show ?case by (simp add: add.assoc)
qed simp

lemma stats_zero_is: "packets_is (class_packets c output_stats_zero) 0" "bytes_is (class_bytes c output_stats_zero) 0"
  by (cases c; simp add: packets_is_def bytes_is_def output_stats_zero_def packets_stats_zero_def bytes_stats_zero_def packets_inv_def
      bytes_inv_def packets_val_def bytes_val_def PETA_IN_PACKETS_def EIB_IN_BYTES_def)+


definition sample_task :: TaskConfig where
  "sample_task = \<lparr>tc_fingerprint = None, tc_req_pattern = Pattern_none, tc_capturer = Pcap_file \<lparr>pc_file_name = ''f'', pc_bpf_filter = []\<rparr>, tc_outputs = []\<rparr>"

definition sample_gre_config :: OutputConfig where
  "sample_gre_config = \<lparr>oc_rate_limit_mbps = 0, oc_slice = 64, oc_config = Gre \<lparr>gc_host = ''h'', gc_service_tag = 7, gc_bind_device = [], gc_pmtudisc = -1\<rparr>\<rparr>"

definition sample_output_env :: output_env where
  "sample_output_env = \<lparr>oe_calloc = True, oe_files = \<lparr>fe_ok = \<lambda>_. True, fe_clock = \<lambda>_. 0,
     fe_localtime = \<lambda>_. \<lparr>tm_year = 100, tm_mon = 0, tm_mday = 1, tm_hour = 0, tm_min = 0, tm_sec = 0\<rparr>, fe_calls = 0, fe_files = Map.empty\<rparr>,
     oe_setup = sample_setup, oe_socket = sample_socket, oe_zmq_setup = sample_zmq_setup, oe_zmq = sample_zmq_env\<rparr>"

lemma sample_gre_created: "\<exists>out. output_new_from_cfg sample_task sample_gre_config output_stats_zero sample_output_env = Inr out"
  by (simp add: output_new_from_cfg_def sample_gre_config_def gre_output_new_from_cfg_def gre_output_new_def sample_output_env_def sample_setup_def Let_def)


end
