(* ===== verification/Net_Addr.thy ===== *)
theory Net_Addr
  imports Cjson_Utils
begin

text \<open>
  \<open>ip.c\<close>, \<open>ether.c\<close> and \<open>if_util.c\<close>: IP addresses, the text of a MAC address, and the lookups of an
  interface's addresses in the list \<open>getifaddrs\<close> returns.  The list, or the text of the error, is an
  argument of the lookups; \<open>inet_ntop\<close> is an argument of \<open>format_ip_addr\<close>.
\<close>

section \<open>IP addresses\<close>

datatype ip_addr_t = IP_TYPE_IPv4 u32 | IP_TYPE_IPv6 bytes

fun ip_addr_equal :: "ip_addr_t \<Rightarrow> ip_addr_t \<Rightarrow> bool" where
  "ip_addr_equal (IP_TYPE_IPv4 a) (IP_TYPE_IPv4 b) \<longleftrightarrow> a = b"
| "ip_addr_equal (IP_TYPE_IPv6 a) (IP_TYPE_IPv6 b) \<longleftrightarrow> take 16 a = take 16 b"
| "ip_addr_equal _ _ \<longleftrightarrow> False"

fun ip_addr_wf :: "ip_addr_t \<Rightarrow> bool" where
  "ip_addr_wf (IP_TYPE_IPv4 a) \<longleftrightarrow> True"
| "ip_addr_wf (IP_TYPE_IPv6 a) \<longleftrightarrow> length a = 16"

lemma ip_addr_equal_eq: "ip_addr_wf a \<Longrightarrow> ip_addr_wf b \<Longrightarrow> ip_addr_equal a b \<longleftrightarrow> a = b"
  by (induction a b rule: ip_addr_equal.induct) simp_all

definition INET_ADDRSTRLEN :: nat where "INET_ADDRSTRLEN = 16"
definition INET6_ADDRSTRLEN :: nat where "INET6_ADDRSTRLEN = 46"

text \<open>\<open>format_ip_addr\<close> returns the status and the text in the buffer.  \<^term>\<open>inet_ntop a n\<close> is the text
  \<open>inet_ntop\<close> writes for the address \<^term>\<open>a\<close> into \<^term>\<open>n\<close> bytes, \<^term>\<open>None\<close> when it fails.\<close>

definition format_ip_addr :: "(ip_addr_t \<Rightarrow> nat \<Rightarrow> string option) \<Rightarrow> ip_addr_t option \<Rightarrow> string option \<Rightarrow> nat \<Rightarrow> int \<times> string option" where
  "format_ip_addr inet_ntop addr buf buflen =
    (case (addr, buf) of
       (Some a, Some _) \<Rightarrow>
         if buflen < 1 then (-1, buf)
         else
           let required_len = (case a of IP_TYPE_IPv4 _ \<Rightarrow> INET_ADDRSTRLEN | IP_TYPE_IPv6 _ \<Rightarrow> INET6_ADDRSTRLEN) in
           if buflen < required_len then (-2, Some [])
           else (case inet_ntop a required_len of None \<Rightarrow> (-3, Some []) | Some text \<Rightarrow> (0, Some text))
     | _ \<Rightarrow> (-1, buf))"

section \<open>MAC addresses\<close>

text \<open>\<open>%02x\<close>.\<close>

definition hex02 :: "u8 \<Rightarrow> string" where
  "hex02 b = [hex_digit (drop_bit 4 b), hex_digit (b AND 0x0F)]"

definition ETHER_ADDR_LEN :: nat where "ETHER_ADDR_LEN = 6"

function format_mac_loop :: "bytes \<Rightarrow> nat \<Rightarrow> string" where
  "format_mac_loop mac_addr i =
    (if i < ETHER_ADDR_LEN
     then (if i > 0 then '':'' else []) @ hex02 (mac_addr ! i) @ format_mac_loop mac_addr (i + 1)
     else [])"

  by pat_completeness auto

termination by (relation "measure (\<lambda>(mac_addr, i). ETHER_ADDR_LEN - i)") auto

declare format_mac_loop.simps [simp del]

definition format_mac_addr :: "bytes \<Rightarrow> string" where
  "format_mac_addr mac_addr = format_mac_loop mac_addr 0"

section \<open>Addresses of an interface\<close>

datatype sockaddr = Sa_inet u32 | Sa_inet6 bytes | Sa_packet nat bytes | Sa_other

record ifaddrs =
  ifa_name :: string
  ifa_addr :: "sockaddr option"

fun find_mac :: "string \<Rightarrow> ifaddrs list \<Rightarrow> bytes option" where
  "find_mac ifname [] = None"
| "find_mac ifname (ifa # rest) =
    (if ifa_name ifa \<noteq> ifname then find_mac ifname rest
     else case ifa_addr ifa of
       Some (Sa_packet sll_halen sll_addr) \<Rightarrow>
         if sll_halen = ETHER_ADDR_LEN then Some (take ETHER_ADDR_LEN sll_addr) else find_mac ifname rest
     | _ \<Rightarrow> find_mac ifname rest)"

definition get_if_mac_addr :: "string + ifaddrs list \<Rightarrow> string option \<Rightarrow> bytes parsed" where
  "get_if_mac_addr getifaddrs name =
    (case name of
       None \<Rightarrow> fail ''ifname is empty'' []
     | Some ifname \<Rightarrow>
         (case getifaddrs of
            Inl err \<Rightarrow> fail ''getifaddrs error: %s'' [A_str err]
          | Inr ifap \<Rightarrow>
              (case find_mac ifname ifap of
                 None \<Rightarrow> fail (''Failed to find MAC address for interface '' @ [CHR 0x27] @ ''%s'' @ [CHR 0x27]) [A_str ifname]
               | Some mac_addr \<Rightarrow> Inr mac_addr)))"

fun find_ip :: "string \<Rightarrow> ifaddrs list \<Rightarrow> ip_addr_t option" where
  "find_ip ifname [] = None"
| "find_ip ifname (ifa # rest) =
    (case ifa_addr ifa of
       None \<Rightarrow> find_ip ifname rest
     | Some sa \<Rightarrow>
         if ifa_name ifa \<noteq> ifname then find_ip ifname rest
         else (case sa of
           Sa_inet sin_addr \<Rightarrow> Some (IP_TYPE_IPv4 sin_addr)
         | Sa_inet6 sin6_addr \<Rightarrow> Some (IP_TYPE_IPv6 sin6_addr)
         | _ \<Rightarrow> find_ip ifname rest))"

definition get_if_ip_addr :: "string + ifaddrs list \<Rightarrow> string \<Rightarrow> ip_addr_t parsed" where
  "get_if_ip_addr getifaddrs ifname =
    (case getifaddrs of
       Inl err \<Rightarrow> fail ''getifaddrs error'' []
     | Inr ifaddr \<Rightarrow>
         (case find_ip ifname ifaddr of
            None \<Rightarrow> fail ''No IP address found for %s'' [A_str ifname]
          | Some addr \<Rightarrow> Inr addr))"

end
