(* ===== verification/Req_Pattern.thy ===== *)
theory Req_Pattern
  imports Net_Addr Packet_Split Config
begin

text \<open>
  \<open>req_pattern.c\<close>: the request pattern of a task, which tells for each packet whether it goes to the
  service or comes from it.  The first half is the pattern language: the lexer \<open>get_next_token\<close>, the
  recursive-descent parser and \<open>evaluate\<close>.  The second half finds the addresses and ports of a frame,
  through any stack of VLAN tags and any nesting of VXLAN, and judges the direction.

  \<open>inet_pton\<close> and the interface lookup are the environment of the parser.  Pattern texts are C strings,
  so they hold no NUL; the allocations of tokens and nodes, which the source does not check, succeed.
  The parser's functions take fuel, one unit for each call or loop round: \<open>parse_total\<close> shows that four
  units for each character are enough.
\<close>

section \<open>The lexer\<close>

datatype Token = TOKEN_HOST | TOKEN_PORT | TOKEN_AND | TOKEN_OR | TOKEN_LPAREN | TOKEN_RPAREN
  | TOKEN_VALUE string | TOKEN_EOF

text \<open>\<open>strncmp(input, w, n) == 0 && !isalnum(input[n])\<close>.\<close>

definition keyword :: "string \<Rightarrow> string \<Rightarrow> bool" where
  "keyword w s \<longleftrightarrow> take (length w) s = w \<and> \<not> (length w < length s \<and> is_alnum (s ! length w))"

fun read_value :: "string \<Rightarrow> string \<times> string" where
  "read_value [] = ([], [])"
| "read_value (c # cs) =
    (if is_space c \<or> c = CHR ''('' \<or> c = CHR '')'' \<or> keyword ''and'' (c # cs) \<or> keyword ''or'' (c # cs)
     then ([], c # cs)
     else let (value, rest) = read_value cs in (c # value, rest))"

definition get_next_token :: "string \<Rightarrow> Token \<times> string" where
  "get_next_token input =
    (let input = dropWhile is_space input in
     if input = [] then (TOKEN_EOF, [])
     else if keyword ''host'' input then (TOKEN_HOST, drop 4 input)
     else if keyword ''port'' input then (TOKEN_PORT, drop 4 input)
     else if keyword ''and'' input then (TOKEN_AND, drop 3 input)
     else if keyword ''or'' input then (TOKEN_OR, drop 2 input)
     else if hd input = CHR ''('' then (TOKEN_LPAREN, tl input)
     else if hd input = CHR '')'' then (TOKEN_RPAREN, tl input)
     else let (value, rest) = read_value input in (TOKEN_VALUE value, rest))"

section \<open>The parser\<close>

datatype ConditionType = COND_HOST | COND_PORT

datatype OperatorType = OP_AND | OP_OR

datatype Node = Cond_host ip_addr_t | Cond_port u16 | Operator OperatorType Node Node

record pattern_env =
  inet_pton4 :: "string \<Rightarrow> u32 option"
  inet_pton6 :: "string \<Rightarrow> bytes option"
  get_ip :: "string \<Rightarrow> ip_addr_t parsed"

text \<open>\<open>strtol\<close> reads the leading digits of a value that starts with one; a value that does not is
  rejected by \<open>plain_decimal\<close> whatever it reads.\<close>

definition LONG_MAX :: nat where "LONG_MAX = 9223372036854775807"

definition create_condition_node :: "pattern_env \<Rightarrow> ConditionType \<Rightarrow> string \<Rightarrow> Node option" where
  "create_condition_node env type value =
    (case type of
       COND_HOST \<Rightarrow>
         if take 4 value = ''nic.''
         then (case get_ip env (drop 4 value) of Inr addr \<Rightarrow> Some (Cond_host addr) | Inl err \<Rightarrow> None)
         else (case inet_pton4 env value of
                 Some v4 \<Rightarrow> Some (Cond_host (IP_TYPE_IPv4 v4))
               | None \<Rightarrow> (case inet_pton6 env value of
                           Some v6 \<Rightarrow> Some (Cond_host (IP_TYPE_IPv6 v6))
                         | None \<Rightarrow> None))
     | COND_PORT \<Rightarrow>
         let plain_decimal = (value \<noteq> [] \<and> is_digit (hd value) \<and> \<not> (hd value = CHR ''0'' \<and> tl value \<noteq> []));
             digits = takeWhile is_digit value;
             port = digits_val digits in
         if \<not> plain_decimal \<or> LONG_MAX < port \<or> digits \<noteq> value \<or> port > 65535 then None
         else Some (Cond_port (of_nat port)))"

type_synonym parser_state = "Token \<times> string"

definition next_token :: "parser_state \<Rightarrow> parser_state" where
  "next_token st = get_next_token (snd st)"

definition parse_condition :: "pattern_env \<Rightarrow> parser_state \<Rightarrow> Node option \<times> parser_state" where
  "parse_condition env st =
    (if fst st = TOKEN_HOST \<or> fst st = TOKEN_PORT
     then
       let type = (if fst st = TOKEN_HOST then COND_HOST else COND_PORT);
           st = next_token st in
       (case fst st of
          TOKEN_VALUE value \<Rightarrow> (create_condition_node env type value, next_token st)
        | _ \<Rightarrow> (None, st))
     else (None, st))"

function (sequential) parse_expression :: "pattern_env \<Rightarrow> nat \<Rightarrow> parser_state \<Rightarrow> (Node option \<times> parser_state) option"
and parse_or :: "pattern_env \<Rightarrow> nat \<Rightarrow> Node \<Rightarrow> parser_state \<Rightarrow> (Node option \<times> parser_state) option"
and parse_term :: "pattern_env \<Rightarrow> nat \<Rightarrow> parser_state \<Rightarrow> (Node option \<times> parser_state) option"
and parse_and :: "pattern_env \<Rightarrow> nat \<Rightarrow> Node \<Rightarrow> parser_state \<Rightarrow> (Node option \<times> parser_state) option"
and parse_factor :: "pattern_env \<Rightarrow> nat \<Rightarrow> parser_state \<Rightarrow> (Node option \<times> parser_state) option" where
  "parse_expression env 0 st = None"
| "parse_expression env (Suc fuel) st =
    do {
      (l, st) \<leftarrow> parse_term env fuel st;
      case l of None \<Rightarrow> Some (None, st) | Some left \<Rightarrow> parse_or env fuel left st
    }"
| "parse_or env 0 left st = None"
| "parse_or env (Suc fuel) left st =
    (if fst st = TOKEN_OR
     then do {
       (r, st) \<leftarrow> parse_term env fuel (next_token st);
       case r of None \<Rightarrow> Some (None, st) | Some right \<Rightarrow> parse_or env fuel (Operator OP_OR left right) st
     }
     else Some (Some left, st))"
| "parse_term env 0 st = None"
| "parse_term env (Suc fuel) st =
    do {
      (l, st) \<leftarrow> parse_factor env fuel st;
      case l of None \<Rightarrow> Some (None, st) | Some left \<Rightarrow> parse_and env fuel left st
    }"
| "parse_and env 0 left st = None"
| "parse_and env (Suc fuel) left st =
    (if fst st = TOKEN_AND
     then do {
       (r, st) \<leftarrow> parse_factor env fuel (next_token st);
       case r of None \<Rightarrow> Some (None, st) | Some right \<Rightarrow> parse_and env fuel (Operator OP_AND left right) st
     }
     else Some (Some left, st))"
| "parse_factor env 0 st = None"
| "parse_factor env (Suc fuel) st =
    (if fst st = TOKEN_LPAREN
     then do {
       (expr, st) \<leftarrow> parse_expression env fuel (next_token st);
       if fst st \<noteq> TOKEN_RPAREN then Some (None, st) else Some (expr, next_token st)
     }
     else Some (parse_condition env st))"

  by pat_completeness auto

termination
  by (relation "measure (case_sum (case_sum (\<lambda>(env, fuel, st). fuel) (\<lambda>(env, fuel, left, st). fuel))
        (case_sum (\<lambda>(env, fuel, st). fuel) (case_sum (\<lambda>(env, fuel, left, st). fuel) (\<lambda>(env, fuel, st). fuel))))") auto

definition parse_fuel :: "string \<Rightarrow> nat" where
  "parse_fuel pattern = 4 * length pattern + 3"

text \<open>\<^term>\<open>Some None\<close> is the status -1.\<close>

definition req_pattern_custom_matcher_init :: "pattern_env \<Rightarrow> string \<Rightarrow> Node option option" where
  "req_pattern_custom_matcher_init env pattern =
    do {
      (ast, st) \<leftarrow> parse_expression env (parse_fuel pattern) (get_next_token pattern);
      Some (if fst st = TOKEN_EOF then ast else None)
    }"

fun evaluate :: "Node \<Rightarrow> ip_addr_t \<Rightarrow> u16 \<Rightarrow> bool" where
  "evaluate (Cond_host addr) ip port \<longleftrightarrow> ip_addr_equal addr ip"
| "evaluate (Cond_port p) ip port \<longleftrightarrow> p = port"
| "evaluate (Operator op_type l r) ip port \<longleftrightarrow>
    (let left = evaluate l ip port; right = evaluate r ip port in
     case op_type of OP_AND \<Rightarrow> left \<and> right | OP_OR \<Rightarrow> left \<or> right)"

section \<open>The lexer makes progress\<close>

lemma read_value_append: "read_value s = (v, r) \<Longrightarrow> s = v @ r"
  by (induction s arbitrary: v r) (auto split: if_splits prod.splits)

lemma read_value_progress: "read_value s = (v, r) \<Longrightarrow> s \<noteq> [] \<Longrightarrow> \<not> is_space (hd s) \<Longrightarrow> hd s \<noteq> CHR ''('' \<Longrightarrow> hd s \<noteq> CHR '')'' \<Longrightarrow>
   \<not> keyword ''and'' s \<Longrightarrow> \<not> keyword ''or'' s \<Longrightarrow> length r < length s"
  using read_value_append by (cases s) (fastforce split: if_splits prod.splits)+

lemma dropWhile_space: "dropWhile is_space s = [] \<or> \<not> is_space (hd (dropWhile is_space s))"
  by (metis hd_dropWhile)

lemma token_progress:
  assumes "get_next_token s = (t, r)"
  shows "if t = TOKEN_EOF then r = [] else length r < length s"
proof -
  define u where "u = dropWhile is_space s"
  have l: "length u \<le> length s" unfolding u_def by (rule length_dropWhile_le)
  have g: "(t, r) = get_next_token s" using assms by simp
  show ?thesis
  proof (cases u)
    case Nil
    then show ?thesis using g by (simp add: get_next_token_def u_def [symmetric])
  next
    case (Cons c cs)
    obtain v r' where v: "read_value u = (v, r')" by (rule prod.exhaust)
    have "\<not> is_space c" using dropWhile_space [of s] Cons by (simp add: u_def [symmetric])
    then have "\<not> keyword ''and'' u \<Longrightarrow> \<not> keyword ''or'' u \<Longrightarrow> c \<noteq> CHR ''('' \<Longrightarrow> c \<noteq> CHR '')'' \<Longrightarrow> length r' < length u"
      using read_value_progress [OF v] Cons by simp
    then show ?thesis using g l unfolding get_next_token_def u_def [symmetric] Let_def v
      by (simp add: Cons split: if_splits) 
  qed
qed

section \<open>The parser terminates\<close>

text \<open>What is left to read, an upper bound of the tokens left.\<close>

definition left_over :: "parser_state \<Rightarrow> nat" where
  "left_over st = (if fst st = TOKEN_EOF then 0 else length (snd st) + 1)"

lemma left_over_first: "left_over (get_next_token s) \<le> length s"
  using token_progress [of s "fst (get_next_token s)" "snd (get_next_token s)"]
  by (auto simp: left_over_def split: if_splits)

lemma left_over_next: "fst st \<noteq> TOKEN_EOF \<Longrightarrow> left_over (next_token st) < left_over st"
  using left_over_first [of "snd st"] unfolding next_token_def by (simp add: left_over_def)

lemma parse_condition_left: "left_over (snd (parse_condition env st)) \<le> left_over st"
  using left_over_next [of st] left_over_next [of "next_token st"]
  by (cases "fst (next_token st)") (auto simp: parse_condition_def)

definition returns :: "(Node option \<times> parser_state) option \<Rightarrow> parser_state \<Rightarrow> bool" where
  "returns m st \<longleftrightarrow> (\<exists>r st'. m = Some (r, st') \<and> left_over st' \<le> left_over st)"

lemma returnsE: "returns m st \<Longrightarrow> (\<And>r st'. m = Some (r, st') \<Longrightarrow> left_over st' \<le> left_over st \<Longrightarrow> P) \<Longrightarrow> P"
  by (auto simp: returns_def)

lemma returns_mono: "returns m st \<Longrightarrow> left_over st \<le> left_over st0 \<Longrightarrow> returns m st0"
  by (auto simp: returns_def)

lemma returns_Some [simp]: "returns (Some (r, st')) st \<longleftrightarrow> left_over st' \<le> left_over st"
  by (simp add: returns_def)

lemma parse_total:
  "4 * left_over st + 3 \<le> fuel \<Longrightarrow> returns (parse_expression env fuel st) st"
  "4 * left_over st + 2 \<le> fuel \<Longrightarrow> returns (parse_or env fuel left st) st"
  "4 * left_over st + 2 \<le> fuel \<Longrightarrow> returns (parse_term env fuel st) st"
  "4 * left_over st + 1 \<le> fuel \<Longrightarrow> returns (parse_and env fuel left st) st"
  "4 * left_over st + 1 \<le> fuel \<Longrightarrow> returns (parse_factor env fuel st) st"
proof (induction fuel arbitrary: st left)
  case (Suc fuel)
  note IH = Suc.IH
  have le: "left_over st' \<le> left_over st \<Longrightarrow> 4 * left_over st' \<le> 4 * left_over st" for st' st :: parser_state by simp
  { case 1
    then have "returns (parse_term env fuel st) st" by (intro IH) simp
    then show ?case
    proof (rule returnsE)
      fix l st' assume l: "parse_term env fuel st = Some (l, st')" "left_over st' \<le> left_over st"
      have "returns (parse_or env fuel a st') st" for a using l(2) 1 by (intro returns_mono [OF IH(2)]) simp_all
      then show ?thesis using l by (cases l) simp_all
    qed }
  { case 2
    show ?case
    proof (cases "fst st = TOKEN_OR")
      case True
      then have n: "left_over (next_token st) < left_over st" by (simp add: left_over_next)
      then have "returns (parse_term env fuel (next_token st)) (next_token st)" using 2 by (intro IH) simp
      then show ?thesis
      proof (rule returnsE)
        fix r st' assume r: "parse_term env fuel (next_token st) = Some (r, st')" "left_over st' \<le> left_over (next_token st)"
        have "returns (parse_or env fuel a st') st" for a using r(2) n 2 by (intro returns_mono [OF IH(2)]) simp_all
        moreover have "left_over st' \<le> left_over st" using r(2) n by linarith
        ultimately show ?thesis using r(1) True by (cases r) simp_all
      qed
    qed simp }
  { case 3
    then have "returns (parse_factor env fuel st) st" by (intro IH) simp
    then show ?case
    proof (rule returnsE)
      fix l st' assume l: "parse_factor env fuel st = Some (l, st')" "left_over st' \<le> left_over st"
      have "returns (parse_and env fuel a st') st" for a using l(2) 3 by (intro returns_mono [OF IH(4)]) simp_all
      then show ?thesis using l by (cases l) simp_all
    qed }
  { case 4
    show ?case
    proof (cases "fst st = TOKEN_AND")
      case True
      then have n: "left_over (next_token st) < left_over st" by (simp add: left_over_next)
      then have "returns (parse_factor env fuel (next_token st)) (next_token st)" using 4 by (intro IH) simp
      then show ?thesis
      proof (rule returnsE)
        fix r st' assume r: "parse_factor env fuel (next_token st) = Some (r, st')" "left_over st' \<le> left_over (next_token st)"
        have "returns (parse_and env fuel a st') st" for a using r(2) n 4 by (intro returns_mono [OF IH(4)]) simp_all
        moreover have "left_over st' \<le> left_over st" using r(2) n by linarith
        ultimately show ?thesis using r(1) True by (cases r) simp_all
      qed
    qed simp }
  { case 5
    show ?case
    proof (cases "fst st = TOKEN_LPAREN")
      case True
      then have n: "left_over (next_token st) < left_over st" by (simp add: left_over_next)
      then have "returns (parse_expression env fuel (next_token st)) (next_token st)" using 5 by (intro IH) simp
      then show ?thesis
      proof (rule returnsE)
        fix r st' assume r: "parse_expression env fuel (next_token st) = Some (r, st')" "left_over st' \<le> left_over (next_token st)"
        have "left_over st' \<le> left_over st" using r(2) n by linarith
        then show ?thesis using r(1) True left_over_next [of st'] by (cases "fst st' = TOKEN_RPAREN") simp_all
      qed
    next
      case False
      then show ?thesis using parse_condition_left [of env st] by (simp add: returns_def prod_eq_iff)
    qed }
qed simp_all

text \<open>More fuel does not change a result.\<close>

definition refines :: "'a option \<Rightarrow> 'a option \<Rightarrow> bool" where
  "refines m n \<longleftrightarrow> (\<forall>r. m = Some r \<longrightarrow> n = Some r)"

lemma refines_rules:
  "refines None n" "refines m m"
  "refines m n \<Longrightarrow> (\<And>x. refines (f x) (g x)) \<Longrightarrow> refines (m \<bind> f) (n \<bind> g)"
  "(b \<Longrightarrow> refines m m') \<Longrightarrow> (\<not> b \<Longrightarrow> refines n n') \<Longrightarrow> refines (if b then m else n) (if b then m' else n')"
  "refines u u' \<Longrightarrow> (\<And>x. refines (h x) (h' x)) \<Longrightarrow> refines (case_option u h y) (case_option u' h' y)"
  "(\<And>a b. refines (k a b) (k' a b)) \<Longrightarrow> refines (case_prod k p) (case_prod k' p)"
  by (auto simp: refines_def bind_eq_Some_conv split: option.splits prod.splits)

lemma parse_fuel_step:
  "refines (parse_expression env f st) (parse_expression env (Suc f) st)"
  "refines (parse_or env f left st) (parse_or env (Suc f) left st)"
  "refines (parse_term env f st) (parse_term env (Suc f) st)"
  "refines (parse_and env f left st) (parse_and env (Suc f) left st)"
  "refines (parse_factor env f st) (parse_factor env (Suc f) st)"
proof (induction f arbitrary: st left)
  case (Suc f)
  note rules = refines_rules Suc.IH
  { case 1 show ?case by (subst (1 2) parse_expression.simps(2)) (intro rules) }
  { case 2 show ?case by (subst (1 2) parse_or.simps(2)) (intro rules) }
  { case 3 show ?case by (subst (1 2) parse_term.simps(2)) (intro rules) }
  { case 4 show ?case by (subst (1 2) parse_and.simps(2)) (intro rules) }
  { case 5 show ?case by (subst (1 2) parse_factor.simps(2)) (intro rules) }
qed (simp_all add: refines_rules(1))

lemma refines_chain: "(\<And>f. refines (F f) (F (Suc f))) \<Longrightarrow> F f = Some r \<Longrightarrow> F (f + n) = Some r"
  by (induction n) (simp_all add: refines_def)

lemmas parse_fuel_mono =
  refines_chain [where F = "\<lambda>f. parse_expression env f st" for env st, OF parse_fuel_step(1)]
  refines_chain [where F = "\<lambda>f. parse_or env f left st" for env left st, OF parse_fuel_step(2)]
  refines_chain [where F = "\<lambda>f. parse_term env f st" for env st, OF parse_fuel_step(3)]
  refines_chain [where F = "\<lambda>f. parse_and env f left st" for env left st, OF parse_fuel_step(4)]
  refines_chain [where F = "\<lambda>f. parse_factor env f st" for env st, OF parse_fuel_step(5)]

section \<open>The grammar\<close>

text \<open>The tokens of a pattern, and the language the parser accepts: \<open>and\<close> binds tighter than \<open>or\<close>,
  and both associate to the left.\<close>

function tokens :: "string \<Rightarrow> Token list" where
  "tokens s = (let (t, r) = get_next_token s in if t = TOKEN_EOF then [] else t # tokens r)"
  by pat_completeness auto

termination
proof (relation "measure length")
  fix s x t r assume "x = get_next_token s" "(t, r) = x" "t \<noteq> TOKEN_EOF"
  then show "(r, s) \<in> measure length" using token_progress [of s t r] by simp
qed simp

declare tokens.simps [simp del]

definition pending :: "parser_state \<Rightarrow> Token list" where
  "pending st = (if fst st = TOKEN_EOF then [] else fst st # tokens (snd st))"

lemma pending_first: "pending (get_next_token s) = tokens s"
  by (subst tokens.simps) (simp add: pending_def split: prod.split)

lemma pending_next: "fst st \<noteq> TOKEN_EOF \<Longrightarrow> pending st = fst st # pending (next_token st)"
  by (simp add: next_token_def pending_first) (simp add: pending_def)

inductive expression :: "pattern_env \<Rightarrow> Token list \<Rightarrow> Node \<Rightarrow> bool"
  and term' :: "pattern_env \<Rightarrow> Token list \<Rightarrow> Node \<Rightarrow> bool"
  and factor :: "pattern_env \<Rightarrow> Token list \<Rightarrow> Node \<Rightarrow> bool"
  for env where
  expression_term: "term' env ts a \<Longrightarrow> expression env ts a"
| expression_or: "expression env ts a \<Longrightarrow> term' env us b \<Longrightarrow> expression env (ts @ TOKEN_OR # us) (Operator OP_OR a b)"
| term_factor: "factor env ts a \<Longrightarrow> term' env ts a"
| term_and: "term' env ts a \<Longrightarrow> factor env us b \<Longrightarrow> term' env (ts @ TOKEN_AND # us) (Operator OP_AND a b)"
| factor_paren: "expression env ts a \<Longrightarrow> factor env (TOKEN_LPAREN # ts @ [TOKEN_RPAREN]) a"
| factor_host: "create_condition_node env COND_HOST v = Some a \<Longrightarrow> factor env [TOKEN_HOST, TOKEN_VALUE v] a"
| factor_port: "create_condition_node env COND_PORT v = Some a \<Longrightarrow> factor env [TOKEN_PORT, TOKEN_VALUE v] a"

text \<open>What a parse reads is a phrase of the grammar.\<close>

definition reads :: "parser_state \<Rightarrow> parser_state \<Rightarrow> Token list \<Rightarrow> bool" where
  "reads st st' ts \<longleftrightarrow> pending st = ts @ pending st'"

lemma reads_rules:
  "reads st st []"
  "fst st \<noteq> TOKEN_EOF \<Longrightarrow> reads st (next_token st) [fst st]"
  "reads st st' ts \<Longrightarrow> reads st' st'' us \<Longrightarrow> reads st st'' (ts @ us)"
  by (simp_all add: reads_def pending_next)

lemma condition_sound:
  assumes "parse_condition env st = (Some a, st')"
  shows "\<exists>ts. reads st st' ts \<and> factor env ts a"
proof -
  obtain v where v: "fst (next_token st) = TOKEN_VALUE v" "st' = next_token (next_token st)"
    using assms by (auto simp: parse_condition_def Let_def split: if_splits Token.splits)
  have r: "reads st st' [fst st, TOKEN_VALUE v]" if "fst st \<noteq> TOKEN_EOF"
    using that v pending_next [of st] pending_next [of "next_token st"] by (simp add: reads_def)
  have "fst st = TOKEN_HOST \<or> fst st = TOKEN_PORT" using assms by (auto simp: parse_condition_def split: if_splits)
  then show ?thesis
  proof
    assume "fst st = TOKEN_HOST"
    then show ?thesis using r assms v factor_host [of env v a] by (auto simp: parse_condition_def)
  next
    assume "fst st = TOKEN_PORT"
    then show ?thesis using r assms v factor_port [of env v a] by (auto simp: parse_condition_def)
  qed
qed

lemma parse_sound:
  "parse_expression env f st = Some (Some a, st') \<Longrightarrow> \<exists>ts. reads st st' ts \<and> expression env ts a"
  "parse_or env f left st = Some (Some a, st') \<Longrightarrow> expression env us left \<Longrightarrow> \<exists>ts. reads st st' ts \<and> expression env (us @ ts) a"
  "parse_term env f st = Some (Some a, st') \<Longrightarrow> \<exists>ts. reads st st' ts \<and> term' env ts a"
  "parse_and env f left st = Some (Some a, st') \<Longrightarrow> term' env us left \<Longrightarrow> \<exists>ts. reads st st' ts \<and> term' env (us @ ts) a"
  "parse_factor env f st = Some (Some a, st') \<Longrightarrow> \<exists>ts. reads st st' ts \<and> factor env ts a"
proof (induction f arbitrary: st st' left a us)
  case (Suc f)
  note IH = Suc.IH
  { case 1
    then obtain l st1 where l: "parse_term env f st = Some (Some l, st1)" "parse_or env f l st1 = Some (Some a, st')"
      by (auto simp: bind_eq_Some_conv split: option.splits)
    obtain ts where ts: "reads st st1 ts" "term' env ts l" using IH(3) [OF l(1)] by blast
    obtain us where "reads st1 st' us" "expression env (ts @ us) a" using IH(2) [OF l(2) expression_term [OF ts(2)]] by blast
    then show ?case using reads_rules(3) [OF ts(1)] by blast }
  { case (2 st st' left a us)
    show ?case
    proof (cases "fst st = TOKEN_OR")
      case True
      then obtain r st1 where r: "parse_term env f (next_token st) = Some (Some r, st1)"
        "parse_or env f (Operator OP_OR left r) st1 = Some (Some a, st')"
        using 2(1) by (auto simp: bind_eq_Some_conv split: option.splits)
      obtain ts where ts: "reads (next_token st) st1 ts" "term' env ts r" using IH(3) [OF r(1)] by blast
      obtain vs where vs: "reads st1 st' vs" "expression env ((us @ TOKEN_OR # ts) @ vs) a"
        using IH(2) [OF r(2) expression_or [OF 2(2) ts(2)]] by blast
      have "reads st st' (TOKEN_OR # ts @ vs)"
        using reads_rules(3) [OF reads_rules(2) reads_rules(3) [OF ts(1) vs(1)]] True by simp
      then show ?thesis using vs(2) by auto
    next
      case False
      then show ?thesis using 2 reads_rules(1) [of st] by (intro exI [where x = "[]"]) simp
    qed }
  { case 3
    then obtain l st1 where l: "parse_factor env f st = Some (Some l, st1)" "parse_and env f l st1 = Some (Some a, st')"
      by (auto simp: bind_eq_Some_conv split: option.splits)
    obtain ts where ts: "reads st st1 ts" "factor env ts l" using IH(5) [OF l(1)] by blast
    obtain us where "reads st1 st' us" "term' env (ts @ us) a" using IH(4) [OF l(2) term_factor [OF ts(2)]] by blast
    then show ?case using reads_rules(3) [OF ts(1)] by blast }
  { case (4 st st' left a us)
    show ?case
    proof (cases "fst st = TOKEN_AND")
      case True
      then obtain r st1 where r: "parse_factor env f (next_token st) = Some (Some r, st1)"
        "parse_and env f (Operator OP_AND left r) st1 = Some (Some a, st')"
        using 4(1) by (auto simp: bind_eq_Some_conv split: option.splits)
      obtain ts where ts: "reads (next_token st) st1 ts" "factor env ts r" using IH(5) [OF r(1)] by blast
      obtain vs where vs: "reads st1 st' vs" "term' env ((us @ TOKEN_AND # ts) @ vs) a"
        using IH(4) [OF r(2) term_and [OF 4(2) ts(2)]] by blast
      have "reads st st' (TOKEN_AND # ts @ vs)"
        using reads_rules(3) [OF reads_rules(2) reads_rules(3) [OF ts(1) vs(1)]] True by simp
      then show ?thesis using vs(2) by auto
    next
      case False
      then show ?thesis using 4 reads_rules(1) [of st] by (intro exI [where x = "[]"]) simp
    qed }
  { case 5
    show ?case
    proof (cases "fst st = TOKEN_LPAREN")
      case True
      then obtain st1 where r: "parse_expression env f (next_token st) = Some (Some a, st1)" "fst st1 = TOKEN_RPAREN" "st' = next_token st1"
        using 5 by (auto simp: bind_eq_Some_conv split: if_splits)
      obtain ts where ts: "reads (next_token st) st1 ts" "expression env ts a" using IH(1) [OF r(1)] by blast
      have "reads st1 st' [TOKEN_RPAREN]" using reads_rules(2) [of st1] r(2,3) by simp
      then have "reads st st' (TOKEN_LPAREN # ts @ [TOKEN_RPAREN])"
        using reads_rules(3) [OF reads_rules(2) reads_rules(3) [OF ts(1)]] True by fastforce
      then show ?thesis using factor_paren [OF ts(2)] by blast
    next
      case False
      then show ?thesis using 5 condition_sound by simp
    qed }
qed simp_all

lemma pending_Cons: "pending st = t # ts \<Longrightarrow> fst st = t \<and> pending (next_token st) = ts"
  using pending_next [of st] by (cases "fst st = TOKEN_EOF") (simp_all add: pending_def)

lemma pending_Nil: "pending st = [] \<longleftrightarrow> fst st = TOKEN_EOF"
  by (simp add: pending_def)

lemma no_EOF: "TOKEN_EOF \<notin> set (tokens s)"
  by (induction s rule: tokens.induct) (subst tokens.simps, auto split: prod.split)

lemma parse_step:
  "parse_term env g st = Some (Some l, st1) \<Longrightarrow> parse_or env f l st1 = Some r \<Longrightarrow> \<exists>n. parse_expression env n st = Some r"
  "fst st = TOKEN_OR \<Longrightarrow> parse_term env g (next_token st) = Some (Some b, st1) \<Longrightarrow>
     parse_or env f (Operator OP_OR a b) st1 = Some r \<Longrightarrow> \<exists>n. parse_or env n a st = Some r"
  "parse_factor env g st = Some (Some l, st1) \<Longrightarrow> parse_and env f l st1 = Some r \<Longrightarrow> \<exists>n. parse_term env n st = Some r"
  "fst st = TOKEN_AND \<Longrightarrow> parse_factor env g (next_token st) = Some (Some b, st1) \<Longrightarrow>
     parse_and env f (Operator OP_AND a b) st1 = Some r \<Longrightarrow> \<exists>n. parse_and env n a st = Some r"
  using parse_fuel_mono(3) [where f = g and n = f] parse_fuel_mono(2) [where f = f and n = g]
    parse_fuel_mono(5) [where f = g and n = f] parse_fuel_mono(4) [where f = f and n = g]
  by (intro exI [of _ "Suc (g + f)"]; simp add: add.commute)+

lemma parse_stop:
  "fst st \<noteq> TOKEN_OR \<Longrightarrow> parse_or env (Suc f) a st = Some (Some a, st)"
  "fst st \<noteq> TOKEN_AND \<Longrightarrow> parse_and env (Suc f) a st = Some (Some a, st)"
  by simp_all

text \<open>Every phrase of the grammar is parsed.  After a phrase of \<open>term'\<close> the parser is in the loop of
  \<open>parse_term\<close> with the phrase's tree, whatever follows, and likewise after an \<open>expression\<close> that no
  \<open>and\<close> follows.\<close>

lemma parse_complete:
  "expression env ts a \<Longrightarrow> pending st = ts @ rest \<Longrightarrow> rest = [] \<or> hd rest \<noteq> TOKEN_AND \<Longrightarrow>
     \<exists>st'. pending st' = rest \<and> (\<forall>f r. parse_or env f a st' = Some r \<longrightarrow> (\<exists>g. parse_expression env g st = Some r))"
  "term' env ts a \<Longrightarrow> pending st = ts @ rest \<Longrightarrow>
     \<exists>st'. pending st' = rest \<and> (\<forall>f r. parse_and env f a st' = Some r \<longrightarrow> (\<exists>g. parse_term env g st = Some r))"
  "factor env ts a \<Longrightarrow> pending st = ts @ rest \<Longrightarrow>
     \<exists>st'. pending st' = rest \<and> (\<exists>g. parse_factor env g st = Some (Some a, st'))"
proof (induction arbitrary: st rest and st rest and st rest rule: expression_term'_factor.inducts)
  case (expression_term ts a)
  obtain st' where st': "pending st' = rest" "\<And>f r. parse_and env f a st' = Some r \<Longrightarrow> \<exists>g. parse_term env g st = Some r"
    using expression_term by blast
  have "fst st' \<noteq> TOKEN_AND" using expression_term.prems(2) st'(1) pending_Cons [of st'] by (cases rest) (auto simp: pending_Nil)
  then obtain g where "parse_term env g st = Some (Some a, st')" using st'(2) parse_stop(2) by blast
  then show ?case using parse_step(1) st'(1) by blast
next
  case (expression_or ts a us b)
  obtain st1 where st1: "pending st1 = TOKEN_OR # us @ rest"
    "\<And>f r. parse_or env f a st1 = Some r \<Longrightarrow> \<exists>g. parse_expression env g st = Some r"
    using expression_or.IH(2) [of st "TOKEN_OR # us @ rest"] expression_or.prems(1) by auto
  obtain st2 where st2: "pending st2 = rest" "\<And>f r. parse_and env f b st2 = Some r \<Longrightarrow> \<exists>g. parse_term env g (next_token st1) = Some r"
    using expression_or.IH(4) [of "next_token st1" rest] pending_Cons [OF st1(1)] by blast
  have "fst st2 \<noteq> TOKEN_AND" using expression_or.prems(2) st2(1) pending_Cons [of st2] by (cases rest) (auto simp: pending_Nil)
  then obtain g where "parse_term env g (next_token st1) = Some (Some b, st2)" using st2(2) parse_stop(2) by blast
  then show ?case using parse_step(2) [of st1] pending_Cons [OF st1(1)] st1(2) st2(1) by blast
next
  case (term_factor ts a)
  then show ?case using parse_step(3) by blast
next
  case (term_and ts a us b)
  obtain st1 where st1: "pending st1 = TOKEN_AND # us @ rest"
    "\<And>f r. parse_and env f a st1 = Some r \<Longrightarrow> \<exists>g. parse_term env g st = Some r"
    using term_and.IH(2) [of st "TOKEN_AND # us @ rest"] term_and.prems(1) by auto
  obtain st2 g where st2: "pending st2 = rest" "parse_factor env g (next_token st1) = Some (Some b, st2)"
    using term_and.IH(4) [of "next_token st1" rest] pending_Cons [OF st1(1)] by blast
  then show ?case using parse_step(4) [of st1] pending_Cons [OF st1(1)] st1(2) by blast
next
  case (factor_paren ts a)
  have p: "fst st = TOKEN_LPAREN" "pending (next_token st) = ts @ TOKEN_RPAREN # rest"
    using factor_paren.prems(1) pending_Cons [of st TOKEN_LPAREN "ts @ TOKEN_RPAREN # rest"] by simp_all
  obtain st1 where st1: "pending st1 = TOKEN_RPAREN # rest"
    "\<And>f r. parse_or env f a st1 = Some r \<Longrightarrow> \<exists>g. parse_expression env g (next_token st) = Some r"
    using factor_paren.IH(2) [OF p(2)] by auto
  note q = pending_Cons [OF st1(1)]
  obtain g where "parse_expression env g (next_token st) = Some (Some a, st1)"
    using st1(2) [OF parse_stop(1)] q by auto
  then have "parse_factor env (Suc g) st = Some (Some a, next_token st1)" using p q by simp
  then show ?case using q by blast
next
  case (factor_host v a)
  have p: "fst st = TOKEN_HOST" "pending (next_token st) = TOKEN_VALUE v # rest" using factor_host(2) pending_Cons [of st] by simp_all
  note q = pending_Cons [OF p(2)]
  have "parse_factor env (Suc 0) st = Some (Some a, next_token (next_token st))" using factor_host(1) p(1) q by (simp add: parse_condition_def)
  then show ?case using q by blast
next
  case (factor_port v a)
  have p: "fst st = TOKEN_PORT" "pending (next_token st) = TOKEN_VALUE v # rest" using factor_port(2) pending_Cons [of st] by simp_all
  note q = pending_Cons [OF p(2)]
  have "parse_factor env (Suc 0) st = Some (Some a, next_token (next_token st))" using factor_port(1) p(1) q by (simp add: parse_condition_def)
  then show ?case using q by blast
qed

lemma init_returns:
  "\<exists>r st. parse_expression env (parse_fuel pattern) (get_next_token pattern) = Some (r, st)"
  using parse_total(1) [of "get_next_token pattern" "parse_fuel pattern" env] left_over_first [of pattern]
  by (auto simp: returns_def parse_fuel_def)

text \<open>(C13) The pattern parser always returns, and it accepts exactly the pattern language: \<open>req_pattern_custom_matcher_init\<close>
  succeeds with a tree if and only if the tokens of the text are an expression of the grammar with that tree,
  where \<open>and\<close> binds tighter than \<open>or\<close>, both associate to the left, and parentheses group; any other text is
  rejected.  The fuel of the model is never exhausted.\<close>

theorem pattern_language:
  "\<exists>result. req_pattern_custom_matcher_init env pattern = Some result \<and>
     (\<forall>ast. result = Some ast \<longleftrightarrow> expression env (tokens pattern) ast)"
proof -
  obtain r st where p: "parse_expression env (parse_fuel pattern) (get_next_token pattern) = Some (r, st)"
    using init_returns by blast
  have "(fst st = TOKEN_EOF \<and> r = Some ast) \<longleftrightarrow> expression env (tokens pattern) ast" for ast
  proof
    assume "fst st = TOKEN_EOF \<and> r = Some ast"
    then show "expression env (tokens pattern) ast"
      using parse_sound(1) [of env "parse_fuel pattern" "get_next_token pattern" ast st] p
      by (auto simp: reads_def pending_first pending_Nil [THEN iffD2])
  next
    assume "expression env (tokens pattern) ast"
    then obtain st' where st': "pending st' = []" "\<And>f r. parse_or env f ast st' = Some r \<Longrightarrow> \<exists>g. parse_expression env g (get_next_token pattern) = Some r"
      using parse_complete(1) [of env "tokens pattern" ast "get_next_token pattern" "[]"] pending_first [of pattern] by auto
    then obtain g where "parse_expression env g (get_next_token pattern) = Some (Some ast, st')"
      using st'(2) [OF parse_stop(1)] pending_Nil [of st'] by auto
    then have "(r, st) = (Some ast, st')"
      using p parse_fuel_mono(1) [where f = g and n = "parse_fuel pattern"] parse_fuel_mono(1) [where f = "parse_fuel pattern" and n = g]
      by (metis add.commute option.inject)
    then show "fst st = TOKEN_EOF \<and> r = Some ast" using st'(1) by (simp add: pending_Nil)
  qed
  then show ?thesis unfolding req_pattern_custom_matcher_init_def p by auto
qed

section \<open>Values that end in an operator\<close>

lemma keyword_alnum: "\<forall>c \<in> set s. is_alnum c \<Longrightarrow> keyword w s \<longleftrightarrow> s = w"
  by (auto simp: keyword_def)

lemma read_value_or:
  assumes "\<forall>c \<in> set s. is_alnum c"
  shows "read_value (s @ ''or'') = (s, ''or'')"
  using assms
proof (induction s)
  case Nil
  show ?case by code_simp
next
  case (Cons c s)
  have al: "\<forall>c \<in> set (c # s @ ''or''). is_alnum c" using Cons(2) by (simp add: is_alnum_def)
  have "\<not> is_space c" "c \<noteq> CHR ''(''" "c \<noteq> CHR '')''" using Cons(2) by (auto simp: is_alnum_def is_digit_def is_space_def Let_def)
  moreover have "\<not> keyword ''and'' (c # s @ ''or'')" "\<not> keyword ''or'' (c # s @ ''or'')"
    unfolding keyword_alnum [OF al] by (cases s rule: rev_cases; simp)+
  ultimately show ?case using Cons by simp
qed

lemma parse_trailing_or:
  assumes "get_next_token s = (TOKEN_HOST, s1)" "get_next_token s1 = (TOKEN_VALUE v, s2)"
    "get_next_token s2 = (TOKEN_OR, s3)" "get_next_token s3 = (TOKEN_EOF, s4)" "4 \<le> fuel"
  shows "\<exists>st. parse_expression env fuel (get_next_token s) = Some (None, st)"
proof -
  obtain f where f: "fuel = Suc (Suc (Suc (Suc f)))" using assms(5) by (auto simp: le_iff_add numeral_eq_Suc)
  show ?thesis using assms(1-4) unfolding f
    by (cases "create_condition_node env COND_HOST v") (simp_all add: next_token_def parse_condition_def)
qed

text \<open>(C34) A value ends where \<open>or\<close> or \<open>and\<close> is followed by a character that is no letter and no digit, even in the
  middle of a word.  So the address of an interface whose name ends in \<open>or\<close> cannot be named in a pattern:
  \<open>host nic.<name>or\<close> is rejected whatever the interface lookup answers, because the lexer reads the value
  \<open>nic.<name>\<close> followed by the operator.\<close>

theorem pattern_rejects_or_suffix:
  assumes "\<forall>c \<in> set name. is_alnum c"
  shows "req_pattern_custom_matcher_init env (''host nic.'' @ name @ ''or'') = Some None"
proof -
  let ?p = "''host nic.'' @ name @ ''or''"
  have "get_next_token ?p = (TOKEN_HOST, '' nic.'' @ name @ ''or'')"
    by (simp add: get_next_token_def keyword_def is_space_def is_alnum_def is_digit_def)
  moreover have "get_next_token ('' nic.'' @ name @ ''or'') = (TOKEN_VALUE (''nic.'' @ name), ''or'')"
    using read_value_or [OF assms] by (simp add: get_next_token_def keyword_def is_space_def)
  moreover have "get_next_token ''or'' = (TOKEN_OR, [])" "get_next_token [] = (TOKEN_EOF, [])" by code_simp+
  ultimately have "\<exists>st. parse_expression env (parse_fuel ?p) (get_next_token ?p) = Some (None, st)"
    by (rule parse_trailing_or) (simp add: parse_fuel_def)
  then show ?thesis by (auto simp: req_pattern_custom_matcher_init_def)
qed

theorem pattern_rejects_or_suffix_witness:
  "req_pattern_custom_matcher_init
     \<lparr>inet_pton4 = \<lambda>_. None, inet_pton6 = \<lambda>_. None, get_ip = \<lambda>name. if name = ''monitor'' then Inr (IP_TYPE_IPv4 1) else fail ''none'' []\<rparr>
     (''host nic.'' @ ''monit'' @ ''or'') = Some None"
  by (rule pattern_rejects_or_suffix) (simp add: is_alnum_def)

end
