(* ===== verification/Pkt_Direction.thy ===== *)
theory Pkt_Direction
  imports Req_Pattern Output_Common
begin

text \<open>
  The second half of \<open>req_pattern.c\<close>: finding the addresses and ports of a frame and judging its
  direction.  The four output parameters of the extractors are the record \<open>flow\<close>; the two addresses are
  \<^term>\<open>None\<close> while they are uninitialised.  Every read of the packet is checked, and the result
  \<^term>\<open>None\<close> is a read outside of it.
\<close>

section \<open>Extraction\<close>

record flow =
  fl_sip :: "ip_addr_t option"
  fl_sport :: u16
  fl_dip :: "ip_addr_t option"
  fl_dport :: u16

definition IPPORT_FLAGS_IP :: int where "IPPORT_FLAGS_IP = 0x01"
definition IPPORT_FLAGS_PORT :: int where "IPPORT_FLAGS_PORT = 0x02"

abbreviation caplen :: "pcap_pkthdr \<Rightarrow> nat" where
  "caplen header \<equiv> unat (ph_caplen header)"

definition extract_ipport_from_tcp_layer :: "pcap_pkthdr \<Rightarrow> bytes \<Rightarrow> nat \<Rightarrow> flow \<Rightarrow> (int \<times> flow) option" where
  "extract_ipport_from_tcp_layer header pkt_data data_offset fw =
    (if caplen header < data_offset + 20 then Some (0, fw)
     else do {
       sport \<leftarrow> rd16 pkt_data data_offset;
       dport \<leftarrow> rd16 pkt_data (data_offset + 2);
       Some (IPPORT_FLAGS_PORT, fw\<lparr>fl_sport := sport, fl_dport := dport\<rparr>)
     })"

text \<open>The loop over the tag stack: \<^term>\<open>Some None\<close> is the early return, otherwise the type and the offset of
  the body.\<close>

function skip_vlan_tags :: "pcap_pkthdr \<Rightarrow> bytes \<Rightarrow> u16 \<Rightarrow> nat \<Rightarrow> (u16 \<times> nat) option option" where
  "skip_vlan_tags header pkt_data eth_type next_data_offset =
    (if is_vlan_ethertype eth_type
     then
       if caplen header < next_data_offset + 4 then Some None
       else do {
         eth_type \<leftarrow> rd16 pkt_data (next_data_offset + 2);
         skip_vlan_tags header pkt_data eth_type (next_data_offset + 4)
       }
     else Some (Some (eth_type, next_data_offset)))"
  by pat_completeness auto

termination by (relation "measure (\<lambda>(header, pkt_data, eth_type, n). caplen header - n)") auto

declare skip_vlan_tags.simps [simp del]

lemma skip_vlan_offset: "skip_vlan_tags header pkt t n = Some (Some (t', n')) \<Longrightarrow> n \<le> n'"
proof (induction header pkt t n rule: skip_vlan_tags.induct)
  case (1 header pkt t n)
  then show ?case by (subst (asm) (2) skip_vlan_tags.simps) (auto simp: bind_eq_Some_conv split: if_splits)
qed

function (sequential) extract_ipport_from_ether_layer :: "pcap_pkthdr \<Rightarrow> bytes \<Rightarrow> nat \<Rightarrow> flow \<Rightarrow> (int \<times> flow) option"
and extract_ipport_from_ipv4_layer :: "pcap_pkthdr \<Rightarrow> bytes \<Rightarrow> nat \<Rightarrow> flow \<Rightarrow> (int \<times> flow) option"
and extract_ipport_from_ipv6_layer :: "pcap_pkthdr \<Rightarrow> bytes \<Rightarrow> nat \<Rightarrow> flow \<Rightarrow> (int \<times> flow) option"
and extract_ipport_from_udp_layer :: "pcap_pkthdr \<Rightarrow> bytes \<Rightarrow> nat \<Rightarrow> flow \<Rightarrow> (int \<times> flow) option"
and extract_ipport_from_maybe_vxlan_layer :: "pcap_pkthdr \<Rightarrow> bytes \<Rightarrow> nat \<Rightarrow> flow \<Rightarrow> (int \<times> flow) option" where
  "extract_ipport_from_ether_layer header pkt_data data_offset fw =
    (if caplen header < data_offset + 14 then Some (0, fw)
     else do {
       eth_type \<leftarrow> rd16 pkt_data (data_offset + 12);
       skipped \<leftarrow> skip_vlan_tags header pkt_data eth_type (data_offset + 14);
       (case skipped of
          None \<Rightarrow> Some (0, fw)
        | Some (eth_type, next_data_offset) \<Rightarrow>
            if eth_type = ETHERTYPE_IP then extract_ipport_from_ipv4_layer header pkt_data next_data_offset fw
            else if eth_type = ETHERTYPE_IPV6 then extract_ipport_from_ipv6_layer header pkt_data next_data_offset fw
            else Some (0, fw))
     })"
| "extract_ipport_from_ipv4_layer header pkt_data data_offset fw =
    (if caplen header < data_offset + 20 then Some (0, fw)
     else do {
       b \<leftarrow> rd8 pkt_data data_offset;
       let ip_hdr_len = unat (b AND 0x0F) * 4;
       saddr \<leftarrow> rd32 pkt_data (data_offset + 12);
       daddr \<leftarrow> rd32 pkt_data (data_offset + 16);
       let fw = fw\<lparr>fl_sip := Some (IP_TYPE_IPv4 saddr), fl_dip := Some (IP_TYPE_IPv4 daddr), fl_sport := 0, fl_dport := 0\<rparr>;
       protocol \<leftarrow> rd8 pkt_data (data_offset + 9);
       if protocol = IPPROTO_TCP
       then do {
         (flags, fw) \<leftarrow> extract_ipport_from_tcp_layer header pkt_data (data_offset + ip_hdr_len) fw;
         Some (IPPORT_FLAGS_IP OR flags, fw)
       }
       else if protocol = IPPROTO_UDP
       then do {
         (flags, fw) \<leftarrow> extract_ipport_from_udp_layer header pkt_data (data_offset + ip_hdr_len) fw;
         Some (IPPORT_FLAGS_IP OR flags, fw)
       }
       else Some (IPPORT_FLAGS_IP, fw)
     })"
| "extract_ipport_from_ipv6_layer header pkt_data data_offset fw =
    (if caplen header < data_offset + 40 then Some (0, fw)
     else do {
       saddr \<leftarrow> rd_bytes pkt_data (data_offset + 8) 16;
       daddr \<leftarrow> rd_bytes pkt_data (data_offset + 24) 16;
       let fw = fw\<lparr>fl_sip := Some (IP_TYPE_IPv6 saddr), fl_dip := Some (IP_TYPE_IPv6 daddr), fl_sport := 0, fl_dport := 0\<rparr>;
       nexthdr \<leftarrow> rd8 pkt_data (data_offset + 6);
       if nexthdr = IPPROTO_TCP
       then do {
         (flags, fw) \<leftarrow> extract_ipport_from_tcp_layer header pkt_data (data_offset + 40) fw;
         Some (IPPORT_FLAGS_IP OR flags, fw)
       }
       else if nexthdr = IPPROTO_UDP
       then do {
         (flags, fw) \<leftarrow> extract_ipport_from_udp_layer header pkt_data (data_offset + 40) fw;
         Some (IPPORT_FLAGS_IP OR flags, fw)
       }
       else Some (IPPORT_FLAGS_IP, fw)
     })"
| "extract_ipport_from_udp_layer header pkt_data data_offset fw =
    (if caplen header < data_offset + 8 then Some (0, fw)
     else do {
       source \<leftarrow> rd16 pkt_data data_offset;
       dest \<leftarrow> rd16 pkt_data (data_offset + 2);
       let fw = fw\<lparr>fl_sport := source, fl_dport := dest\<rparr>;
       if 4700 \<le> dest \<and> dest < 4800
       then do {
         (flags, fw) \<leftarrow> extract_ipport_from_maybe_vxlan_layer header pkt_data (data_offset + 8) fw;
         Some (IPPORT_FLAGS_PORT OR flags, fw)
       }
       else Some (IPPORT_FLAGS_PORT, fw)
     })"
| "extract_ipport_from_maybe_vxlan_layer header pkt_data data_offset fw =
    (if caplen header < data_offset + 8 + 14 + 20 then Some (0, fw)
     else extract_ipport_from_ether_layer header pkt_data (data_offset + 8) fw)"
  by pat_completeness auto

text \<open>Each layer starts further on in the packet, so nested encapsulation ends.\<close>

termination
proof (relation "measure (case_sum
    (case_sum (\<lambda>(header, pkt, n, fw). 4 * (caplen header - n) + 1) (\<lambda>(header, pkt, n, fw). 4 * (caplen header - n) + 3))
    (case_sum (\<lambda>(header, pkt, n, fw). 4 * (caplen header - n) + 3)
      (case_sum (\<lambda>(header, pkt, n, fw). 4 * (caplen header - n) + 2) (\<lambda>(header, pkt, n, fw). 4 * (caplen header - n) + 1))))",
    goal_cases)
  case (2 header pkt n fw t sk p t' n')
  then have "n + 14 \<le> n'" "n + 14 \<le> caplen header" using skip_vlan_offset [of header pkt t "n + 14" t' n'] by simp_all
  then show ?case by simp
next
  case (3 header pkt n fw t sk p t' n')
  then have "n + 14 \<le> n'" "n + 14 \<le> caplen header" using skip_vlan_offset [of header pkt t "n + 14" t' n'] by simp_all
  then show ?case by simp
qed auto

declare extract_ipport_from_ether_layer.simps [simp del] extract_ipport_from_ipv4_layer.simps [simp del]
  extract_ipport_from_ipv6_layer.simps [simp del] extract_ipport_from_udp_layer.simps [simp del]
  extract_ipport_from_maybe_vxlan_layer.simps [simp del]

section \<open>Direction\<close>

datatype req_pattern_t = REQ_PATTERN_TYPE_NONE | REQ_PATTERN_TYPE_AUTO bytes | REQ_PATTERN_TYPE_CUSTOM Node

text \<open>\<open>req_pattern_new_from_cfg_adv\<close>: \<^term>\<open>get_mac\<close> is the MAC address lookup, the first argument whether
  \<open>calloc\<close> returns memory.\<close>

definition req_pattern_new_from_cfg_adv ::
  "bool \<Rightarrow> (string \<Rightarrow> bytes parsed) \<Rightarrow> pattern_env \<Rightarrow> ReqPatternConfig \<Rightarrow> string \<Rightarrow> req_pattern_t parsed option" where
  "req_pattern_new_from_cfg_adv calloc_ok get_mac env cfg ifname =
    (if \<not> calloc_ok then Some (fail ''failed to allocate memory for req_pattern_t'' [])
     else case cfg of
       Pattern_none \<Rightarrow> Some (Inr REQ_PATTERN_TYPE_NONE)
     | Pattern_auto \<Rightarrow> Some (bindE (get_mac ifname) (\<lambda>mac_addr. Inr (REQ_PATTERN_TYPE_AUTO mac_addr)))
     | Pattern_custom pattern \<Rightarrow>
         do {
           node \<leftarrow> req_pattern_custom_matcher_init env pattern;
           Some (case node of
                   None \<Rightarrow> fail ''invalid pattern: %s'' [A_str pattern]
                 | Some ast \<Rightarrow> Inr (REQ_PATTERN_TYPE_CUSTOM ast))
         })"

definition req_pattern_new_from_cfg ::
  "bool \<Rightarrow> string + ifaddrs list \<Rightarrow> pattern_env \<Rightarrow> ReqPatternConfig \<Rightarrow> string \<Rightarrow> req_pattern_t parsed option" where
  "req_pattern_new_from_cfg calloc_ok getifaddrs env cfg ifname =
     req_pattern_new_from_cfg_adv calloc_ok (\<lambda>name. get_if_mac_addr getifaddrs (Some name))
       (env\<lparr>get_ip := get_if_ip_addr getifaddrs\<rparr>) cfg ifname"

definition req_pattern_custom_match_by_ipport :: "Node \<Rightarrow> ip_addr_t option \<Rightarrow> u16 \<Rightarrow> bool option" where
  "req_pattern_custom_match_by_ipport node ip port =
    (case ip of None \<Rightarrow> None | Some addr \<Rightarrow> Some (evaluate node addr port))"

definition no_flow :: flow where
  "no_flow = \<lparr>fl_sip = None, fl_sport = 0, fl_dip = None, fl_dport = 0\<rparr>"

definition req_pattern_judge_pkt_direction :: "req_pattern_t \<Rightarrow> pcap_pkthdr \<Rightarrow> bytes \<Rightarrow> int option" where
  "req_pattern_judge_pkt_direction req_pattern header pkt_data =
    (case req_pattern of
       REQ_PATTERN_TYPE_NONE \<Rightarrow> Some PKT_DIR_NONCHECK
     | REQ_PATTERN_TYPE_AUTO mac_addr \<Rightarrow>
         if caplen header < 14 then Some PKT_DIR_UNKNOWN
         else do {
           ether_shost \<leftarrow> rd_bytes pkt_data 6 ETHER_ADDR_LEN;
           Some (if ether_shost = mac_addr then PKT_DIR_OUTGOING else PKT_DIR_INCOMING)
         }
     | REQ_PATTERN_TYPE_CUSTOM node \<Rightarrow>
         do {
           (flags, fw) \<leftarrow> extract_ipport_from_ether_layer header pkt_data 0 no_flow;
           if flags AND IPPORT_FLAGS_IP \<noteq> 0
           then do {
             outgoing \<leftarrow> req_pattern_custom_match_by_ipport node (fl_sip fw) (fl_sport fw);
             if outgoing then Some PKT_DIR_OUTGOING
             else do {
               incoming \<leftarrow> req_pattern_custom_match_by_ipport node (fl_dip fw) (fl_dport fw);
               Some (if incoming then PKT_DIR_INCOMING else PKT_DIR_UNKNOWN)
             }
           }
           else Some PKT_DIR_UNKNOWN
         })"

section \<open>Extraction stays in the packet\<close>

text \<open>What an extractor promises about the flow it was given: without the address flag it left the addresses alone,
  with it both addresses are set.\<close>

definition extracted :: "flow \<Rightarrow> (int \<times> flow) option \<Rightarrow> bool" where
  "extracted fw m \<longleftrightarrow>
    (case m of
       None \<Rightarrow> False
     | Some (flags, fw') \<Rightarrow>
         if flags AND IPPORT_FLAGS_IP = 0 then fl_sip fw' = fl_sip fw \<and> fl_dip fw' = fl_dip fw
         else fl_sip fw' \<noteq> None \<and> fl_dip fw' \<noteq> None)"

lemma skip_vlan_defined:
  "caplen header \<le> length pkt \<Longrightarrow> n \<le> caplen header \<Longrightarrow> \<exists>r. skip_vlan_tags header pkt t n = Some r"
proof (induction header pkt t n rule: skip_vlan_tags.induct)
  case (1 header pkt t n)
  then show ?case by (subst skip_vlan_tags.simps) (simp add: mem_simps)
qed

lemma flags_or:
  "(IPPORT_FLAGS_IP OR f) AND IPPORT_FLAGS_IP \<noteq> 0" "IPPORT_FLAGS_IP \<noteq> 0"
  "(IPPORT_FLAGS_PORT OR f) AND IPPORT_FLAGS_IP = f AND IPPORT_FLAGS_IP" "IPPORT_FLAGS_PORT AND IPPORT_FLAGS_IP = 0"
  by (simp_all add: IPPORT_FLAGS_IP_def IPPORT_FLAGS_PORT_def and_one_eq mod2_eq_if even_or_iff)

lemma tcp_extracted: "caplen header \<le> length pkt \<Longrightarrow> extracted fw (extract_ipport_from_tcp_layer header pkt n fw)"
  by (simp add: extract_ipport_from_tcp_layer_def extracted_def mem_simps flags_or)

text \<open>The IP layers: after the addresses are set, nothing below removes them.\<close>

lemma extracted_ip:
  assumes "extracted fw m" "fl_sip fw \<noteq> None" "fl_dip fw \<noteq> None"
  shows "extracted fw0 (do { (flags, fw) \<leftarrow> m; Some (IPPORT_FLAGS_IP OR flags, fw) })"
  using assms by (cases m) (auto simp: extracted_def flags_or split: if_splits)

lemma extracted_port: "extracted fw m \<Longrightarrow> fl_sip fw = fl_sip fw0 \<Longrightarrow> fl_dip fw = fl_dip fw0 \<Longrightarrow>
   extracted fw0 (do { (flags, fw) \<leftarrow> m; Some (IPPORT_FLAGS_PORT OR flags, fw) })"
  by (cases m) (auto simp: extracted_def flags_or split: if_splits)

lemma extracted_Some:
  "extracted fw (Some (0, fw))"
  "fl_sip fw' \<noteq> None \<Longrightarrow> fl_dip fw' \<noteq> None \<Longrightarrow> extracted fw (Some (IPPORT_FLAGS_IP, fw'))"
  "fl_sip fw' = fl_sip fw \<Longrightarrow> fl_dip fw' = fl_dip fw \<Longrightarrow> extracted fw (Some (IPPORT_FLAGS_PORT, fw'))"
  by (simp_all add: extracted_def flags_or)

lemma layers_extracted:
  "caplen header \<le> length pkt \<Longrightarrow> extracted fw (extract_ipport_from_ether_layer header pkt n fw)"
  "caplen header \<le> length pkt \<Longrightarrow> extracted fw (extract_ipport_from_ipv4_layer header pkt n fw)"
  "caplen header \<le> length pkt \<Longrightarrow> extracted fw (extract_ipport_from_ipv6_layer header pkt n fw)"
  "caplen header \<le> length pkt \<Longrightarrow> extracted fw (extract_ipport_from_udp_layer header pkt n fw)"
  "caplen header \<le> length pkt \<Longrightarrow> extracted fw (extract_ipport_from_maybe_vxlan_layer header pkt n fw)"
proof (induction header pkt n fw and header pkt n fw and header pkt n fw and header pkt n fw and header pkt n fw
    rule: extract_ipport_from_ether_layer_extract_ipport_from_ipv4_layer_extract_ipport_from_ipv6_layer_extract_ipport_from_udp_layer_extract_ipport_from_maybe_vxlan_layer.induct)
  case (1 header pkt n fw)
  show ?case
  proof (cases "caplen header < n + 14")
    case False
    then obtain t where t: "rd16 pkt (n + 12) = Some t" using 1(3) by (simp add: mem_simps)
    obtain sk where sk: "skip_vlan_tags header pkt t (n + 14) = Some sk"
      using skip_vlan_defined [of header pkt "n + 14" t] False 1(3) by auto
    show ?thesis
    proof (cases sk)
      case None
      then show ?thesis using False t sk by (subst extract_ipport_from_ether_layer.simps) (simp add: extracted_Some)
    next
      case (Some p)
      obtain t' n' where p: "p = (t', n')" by (rule prod.exhaust)
      note IH = 1(1,2) [OF False t sk Some p [symmetric]]
      show ?thesis using False t sk Some p IH 1(3)
        by (subst extract_ipport_from_ether_layer.simps) (simp add: extracted_Some)
    qed
  qed (subst extract_ipport_from_ether_layer.simps, simp add: extracted_Some)
next
  case (2 header pkt n fw)
  show ?case
  proof (cases "caplen header < n + 20")
    case False
    then show ?thesis using 2(2)
      by (subst extract_ipport_from_ipv4_layer.simps)
        (auto simp: mem_simps Let_def intro!: extracted_Some extracted_ip [OF tcp_extracted] extracted_ip [OF 2(1)])
  qed (subst extract_ipport_from_ipv4_layer.simps, simp add: extracted_Some)
next
  case (3 header pkt n fw)
  show ?case
  proof (cases "caplen header < n + 40")
    case False
    then show ?thesis using 3(2)
      by (subst extract_ipport_from_ipv6_layer.simps)
        (auto simp: mem_simps Let_def intro!: extracted_Some extracted_ip [OF tcp_extracted] extracted_ip [OF 3(1)])
  qed (subst extract_ipport_from_ipv6_layer.simps, simp add: extracted_Some)
next
  case (4 header pkt n fw)
  show ?case
  proof (cases "caplen header < n + 8")
    case False
    then show ?thesis using 4(2)
      by (subst extract_ipport_from_udp_layer.simps)
        (auto simp: mem_simps Let_def intro!: extracted_Some extracted_port [OF 4(1)])
  qed (subst extract_ipport_from_udp_layer.simps, simp add: extracted_Some)
next
  case (5 header pkt n fw)
  then show ?case by (subst extract_ipport_from_maybe_vxlan_layer.simps) (simp add: extracted_Some)
qed

section \<open>Extraction is relative to the start of a layer\<close>

lemma rd_shift:
  "rd8 (pre @ x) (length pre + i) = rd8 x i"
  "rd16 (pre @ x) (length pre + i) = rd16 x i"
  "rd32 (pre @ x) (length pre + i) = rd32 x i"
  "rd_bytes (pre @ x) (length pre + i) n = rd_bytes x i n"
  by (simp_all add: rd8_def rd16_def rd32_def rd_bytes_def nth_append add.assoc)

lemma skip_vlan_shift:
  assumes "caplen header = length pre + caplen h"
  shows "skip_vlan_tags header (pre @ x) t (length pre + n) =
    map_option (map_option (\<lambda>(t, n). (t, length pre + n))) (skip_vlan_tags h x t n)"
  using assms
proof (induction h x t n rule: skip_vlan_tags.induct)
  case (1 h x t n)
  then show ?case using rd_shift(2) [of pre x "n + 2"]
    by (cases "rd16 x (n + 2)"; subst (1 2) skip_vlan_tags.simps; simp add: add.assoc)
qed

lemma tcp_shift:
  "caplen header = length pre + caplen h \<Longrightarrow>
     extract_ipport_from_tcp_layer header (pre @ x) (length pre + n) fw = extract_ipport_from_tcp_layer h x n fw"
  using rd_shift(2) [of pre x "n + 2"] by (simp add: extract_ipport_from_tcp_layer_def rd_shift add.assoc)

lemma layers_shift:
  "caplen header = length pre + caplen h \<Longrightarrow>
     extract_ipport_from_ether_layer header (pre @ x) (length pre + n) fw = extract_ipport_from_ether_layer h x n fw"
  "caplen header = length pre + caplen h \<Longrightarrow>
     extract_ipport_from_ipv4_layer header (pre @ x) (length pre + n) fw = extract_ipport_from_ipv4_layer h x n fw"
  "caplen header = length pre + caplen h \<Longrightarrow>
     extract_ipport_from_ipv6_layer header (pre @ x) (length pre + n) fw = extract_ipport_from_ipv6_layer h x n fw"
  "caplen header = length pre + caplen h \<Longrightarrow>
     extract_ipport_from_udp_layer header (pre @ x) (length pre + n) fw = extract_ipport_from_udp_layer h x n fw"
  "caplen header = length pre + caplen h \<Longrightarrow>
     extract_ipport_from_maybe_vxlan_layer header (pre @ x) (length pre + n) fw = extract_ipport_from_maybe_vxlan_layer h x n fw"
proof (induction h x n fw and h x n fw and h x n fw and h x n fw and h x n fw
    rule: extract_ipport_from_ether_layer_extract_ipport_from_ipv4_layer_extract_ipport_from_ipv6_layer_extract_ipport_from_udp_layer_extract_ipport_from_maybe_vxlan_layer.induct)
  case (1 h x n fw)
  note [simp] = add.assoc
  show ?case
  proof (cases "caplen h < n + 14 \<or> rd16 x (n + 12) = None")
    case True
    then show ?thesis using 1(3) rd_shift(2) [of pre x "n + 12"]
      by (subst (1 2) extract_ipport_from_ether_layer.simps) auto
  next
    case False
    then obtain t where t: "\<not> caplen h < n + 14" "rd16 x (n + 12) = Some t" by auto
    show ?thesis using 1(1,2) [OF t _ _ _ ] 1(3) t rd_shift(2) [of pre x "n + 12"] skip_vlan_shift [OF 1(3), of x t "n + 14"]
      by (subst (1 2) extract_ipport_from_ether_layer.simps)
        (simp add: map_option_case bind_eq_None_conv split: option.splits Option.bind_splits)
  qed
next
  case (2 h x n fw)
  note rd = rd_shift(1) [of pre x "n + 9"] rd_shift(3) [of pre x "n + 12"] rd_shift(3) [of pre x "n + 16"] rd_shift(1) [of pre x n]
  show ?case
  proof (cases "caplen h < n + 20 \<or> rd8 x n = None \<or> rd32 x (n + 12) = None \<or> rd32 x (n + 16) = None \<or> rd8 x (n + 9) = None")
    case True
    then show ?thesis using 2(2) rd by (subst (1 2) extract_ipport_from_ipv4_layer.simps) (auto simp: add.assoc Let_def)
  next
    case False
    then obtain b s d p where r: "\<not> caplen h < n + 20" "rd8 x n = Some b" "rd32 x (n + 12) = Some s" "rd32 x (n + 16) = Some d" "rd8 x (n + 9) = Some p"
      by auto
    note IH = 2(1) [OF r(1,2) refl r(3,4) refl r(5) _ _ 2(2)]
    show ?thesis using IH rd r 2(2) tcp_shift [OF 2(2), of x "n + unat (b AND 15) * 4"]
      by (subst (1 2) extract_ipport_from_ipv4_layer.simps) (simp add: add.assoc Let_def)
  qed
next
  case (3 h x n fw)
  note rd = rd_shift(1) [of pre x "n + 6"] rd_shift(4) [of pre x "n + 8"] rd_shift(4) [of pre x "n + 24"]
  show ?case
  proof (cases "caplen h < n + 40 \<or> rd_bytes x (n + 8) 16 = None \<or> rd_bytes x (n + 24) 16 = None \<or> rd8 x (n + 6) = None")
    case True
    then show ?thesis using 3(2) rd by (subst (1 2) extract_ipport_from_ipv6_layer.simps) (auto simp: add.assoc Let_def)
  next
    case False
    then obtain s d p where r: "\<not> caplen h < n + 40" "rd_bytes x (n + 8) 16 = Some s" "rd_bytes x (n + 24) 16 = Some d" "rd8 x (n + 6) = Some p"
      by auto
    note IH = 3(1) [OF r(1-3) refl r(4) _ _ 3(2)]
    show ?thesis using IH rd r 3(2) tcp_shift [OF 3(2), of x "n + 40"]
      by (subst (1 2) extract_ipport_from_ipv6_layer.simps) (simp add: add.assoc Let_def)
  qed
next
  case (4 h x n fw)
  note rd = rd_shift(2) [of pre x n] rd_shift(2) [of pre x "n + 2"]
  show ?case
  proof (cases "caplen h < n + 8 \<or> rd16 x n = None \<or> rd16 x (n + 2) = None")
    case True
    then show ?thesis using 4(2) rd by (subst (1 2) extract_ipport_from_udp_layer.simps) (auto simp: add.assoc Let_def)
  next
    case False
    then obtain s d where r: "\<not> caplen h < n + 8" "rd16 x n = Some s" "rd16 x (n + 2) = Some d" by auto
    note IH = 4(1) [OF r refl _ 4(2)]
    show ?thesis using IH rd r 4(2)
      by (subst (1 2) extract_ipport_from_udp_layer.simps) (simp add: add.assoc Let_def)
  qed
next
  case (5 h x n fw)
  then show ?case by (subst (1 2) extract_ipport_from_maybe_vxlan_layer.simps) (simp add: add.assoc Let_def)
qed

section \<open>Frames\<close>

text \<open>An Ethernet frame: the two addresses, a stack of VLAN tags given by type and TCI, the type and the body.\<close>

fun tagged_type :: "(u16 \<times> u16) list \<Rightarrow> u16 \<Rightarrow> u16" where
  "tagged_type [] t = t"
| "tagged_type ((tpid, tci) # tags) t = tpid"

fun tagged_payload :: "(u16 \<times> u16) list \<Rightarrow> u16 \<Rightarrow> bytes \<Rightarrow> bytes" where
  "tagged_payload [] t x = x"
| "tagged_payload ((tpid, tci) # tags) t x = be16 tci @ be16 (tagged_type tags t) @ tagged_payload tags t x"

definition eth_frame :: "bytes \<Rightarrow> (u16 \<times> u16) list \<Rightarrow> u16 \<Rightarrow> bytes \<Rightarrow> bytes" where
  "eth_frame macs tags t x = macs @ be16 (tagged_type tags t) @ tagged_payload tags t x"

definition vlan_stack :: "(u16 \<times> u16) list \<Rightarrow> bool" where
  "vlan_stack tags \<longleftrightarrow> list_all (\<lambda>(tpid, tci). is_vlan_ethertype tpid) tags"

text \<open>The header of the rest of a packet after \<^term>\<open>k\<close> captured bytes.\<close>

definition rest_header :: "pcap_pkthdr \<Rightarrow> nat \<Rightarrow> pcap_pkthdr" where
  "rest_header h k = h\<lparr>ph_caplen := ph_caplen h - of_nat k\<rparr>"

lemma rest_header_caplen:
  assumes "k \<le> caplen h"
  shows "caplen h = k + caplen (rest_header h k)"
proof -
  have "unat (of_nat k :: u32) = k" using le_less_trans [OF assms unat_u32_lt] by (simp add: unat_of_nat)
  then show ?thesis using assms by (simp add: rest_header_def unat_sub word_le_nat_alt)
qed

lemma tagged_payload_split: "\<exists>pre. tagged_payload tags t x = pre @ x \<and> length pre = 4 * length tags"
  by (induction tags t x rule: tagged_payload.induct) (auto simp: be16_def)

lemma skip_vlan_stack:
  "vlan_stack tags \<Longrightarrow> \<not> is_vlan_ethertype t \<Longrightarrow> 4 * length tags \<le> caplen h \<Longrightarrow>
     skip_vlan_tags h (tagged_payload tags t x) (tagged_type tags t) 0 = Some (Some (t, 4 * length tags))"
proof (induction tags t x arbitrary: h rule: tagged_payload.induct)
  case (1 t x)
  then show ?case by (subst skip_vlan_tags.simps) simp
next
  case (2 tpid tci tags t x)
  let ?pre = "be16 tci @ be16 (tagged_type tags t)"
  have h: "caplen h = length ?pre + caplen (rest_header h 4)" using 2(4) rest_header_caplen [of 4 h] by (simp add: be16_def)
  have r: "rd16 (tagged_payload ((tpid, tci) # tags) t x) 2 = Some (tagged_type tags t)"
    by (simp add: rd16_def rd8_def be16_def wire_simps)
  have "skip_vlan_tags (rest_header h 4) (tagged_payload tags t x) (tagged_type tags t) 0 = Some (Some (t, 4 * length tags))"
    using 2 h by (intro 2(1)) (simp_all add: vlan_stack_def be16_def)
  then have "skip_vlan_tags h (?pre @ tagged_payload tags t x) (tagged_type tags t) 4 = Some (Some (t, 4 + 4 * length tags))"
    using skip_vlan_shift [OF h, of "tagged_payload tags t x" "tagged_type tags t" 0] by simp
  then show ?case using 2(2,4) r [unfolded numeral_2_eq_2] by (subst skip_vlan_tags.simps) (simp add: vlan_stack_def)
qed

lemma ether_frame:
  assumes "length macs = 12" "vlan_stack tags" "\<not> is_vlan_ethertype t" "caplen h = 14 + 4 * length tags + caplen h'"
  shows "extract_ipport_from_ether_layer h (eth_frame macs tags t x) 0 fw =
    (if t = ETHERTYPE_IP then extract_ipport_from_ipv4_layer h' x 0 fw
     else if t = ETHERTYPE_IPV6 then extract_ipport_from_ipv6_layer h' x 0 fw
     else Some (0, fw))"
proof -
  let ?f = "eth_frame macs tags t x" and ?pre = "macs @ be16 (tagged_type tags t)"
  obtain tg where tg: "tagged_payload tags t x = tg @ x" "length tg = 4 * length tags" using tagged_payload_split by blast
  have l: "length ?pre = 14" using assms(1) by (simp add: be16_def)
  have f: "?f = ?pre @ tagged_payload tags t x" "?f = (?pre @ tg) @ x" by (simp_all add: eth_frame_def tg)
  have r: "rd16 ?f 12 = Some (tagged_type tags t)"
    using rd_shift(2) [of macs "be16 (tagged_type tags t) @ tagged_payload tags t x" 0] assms(1)
    by (simp add: eth_frame_def rd16_def rd8_def be16_def wire_simps)
  have c: "caplen h = length ?pre + caplen (rest_header h 14)" using l rest_header_caplen [of 14 h] assms(4) by simp
  have "skip_vlan_tags h ?f (tagged_type tags t) (length ?pre + 0) = Some (Some (t, 14 + 4 * length tags))"
    using skip_vlan_shift [OF c, of "tagged_payload tags t x" "tagged_type tags t" 0] skip_vlan_stack [OF assms(2,3), of "rest_header h 14" x] c assms(4)
    unfolding l f(1) by simp
  moreover have c': "caplen h = length (?pre @ tg) + caplen h'" using l assms(4) tg(2) by simp
  have "extract_ipport_from_ipv4_layer h ?f (14 + 4 * length tags) fw = extract_ipport_from_ipv4_layer h' x 0 fw"
    "extract_ipport_from_ipv6_layer h ?f (14 + 4 * length tags) fw = extract_ipport_from_ipv6_layer h' x 0 fw"
    using layers_shift(2,3) [OF c', of x 0 fw] l tg(2) unfolding f(2) by simp_all
  ultimately show ?thesis using r assms(4) l by (subst extract_ipport_from_ether_layer.simps) auto
qed

text \<open>With the address flag, the flow does not depend on what the caller passed in.\<close>

definition same_flow :: "(flow \<Rightarrow> (int \<times> flow) option) \<Rightarrow> bool" where
  "same_flow f \<longleftrightarrow> (\<forall>fw. f fw = Some (0, fw)) \<or> (\<exists>r. \<forall>fw. f fw = r)"

lemma flow_overwritten:
  "(fw :: flow)\<lparr>fl_sip := a, fl_dip := b, fl_sport := c, fl_dport := d\<rparr> = \<lparr>fl_sip = a, fl_sport = c, fl_dip = b, fl_dport = d\<rparr>"
  by simp

lemma ip_same_flow:
  "same_flow (extract_ipport_from_ipv4_layer h x n)" "same_flow (extract_ipport_from_ipv6_layer h x n)"
  unfolding same_flow_def extract_ipport_from_ipv4_layer.simps [of h x n] extract_ipport_from_ipv6_layer.simps [of h x n]
  by (cases "caplen h < n + 20"; simp add: Let_def flow_overwritten)
    (cases "caplen h < n + 40"; simp add: Let_def flow_overwritten)

lemma ether_same_flow: "same_flow (extract_ipport_from_ether_layer h x n)"
proof -
  consider (zero) "\<And>fw. extract_ipport_from_ether_layer h x n fw = Some (0, fw)"
    | (bad) "\<And>fw. extract_ipport_from_ether_layer h x n fw = None"
    | (ip) m where "\<And>fw. extract_ipport_from_ether_layer h x n fw = extract_ipport_from_ipv4_layer h x m fw"
    | (ip6) m where "\<And>fw. extract_ipport_from_ether_layer h x n fw = extract_ipport_from_ipv6_layer h x m fw"
  proof (cases "caplen h < n + 14")
    case True
    then show ?thesis using that(1) by (simp add: extract_ipport_from_ether_layer.simps)
  next
    case False
    show ?thesis
    proof (cases "do { t \<leftarrow> rd16 x (n + 12); skip_vlan_tags h x t (n + 14) }")
      case None
      then show ?thesis using that(2) False by (cases "rd16 x (n + 12)") (simp_all add: extract_ipport_from_ether_layer.simps)
    next
      case (Some sk)
      then obtain t where t: "rd16 x (n + 12) = Some t" "skip_vlan_tags h x t (n + 14) = Some sk" by (auto simp: bind_eq_Some_conv)
      have e: "extract_ipport_from_ether_layer h x n fw = (case sk of None \<Rightarrow> Some (0, fw) | Some (t, m) \<Rightarrow>
          if t = ETHERTYPE_IP then extract_ipport_from_ipv4_layer h x m fw
          else if t = ETHERTYPE_IPV6 then extract_ipport_from_ipv6_layer h x m fw else Some (0, fw))" for fw
        using False t by (subst extract_ipport_from_ether_layer.simps) (simp split: option.split)
      show ?thesis
      proof (cases sk)
        case None
        then show ?thesis using that(1) e by simp
      next
        case (Some p)
        obtain t m where p: "p = (t, m)" by (rule prod.exhaust)
        show ?thesis
          by (cases "t = ETHERTYPE_IP"; cases "t = ETHERTYPE_IPV6")
            (use that(1) that(3,4) [of m] e Some p in \<open>simp_all\<close>)
      qed
    qed
  qed
  then show ?thesis
  proof cases
    case (ip m)
    then show ?thesis using ip_same_flow(1) [of h x m] by (simp add: same_flow_def)
  next
    case (ip6 m)
    then show ?thesis using ip_same_flow(2) [of h x m] by (simp add: same_flow_def)
  qed (auto simp: same_flow_def)
qed

text \<open>A frame in which the extraction finds an IP header.\<close>

definition carries_ip :: "pcap_pkthdr \<Rightarrow> bytes \<Rightarrow> bool" where
  "carries_ip h x \<longleftrightarrow>
    (case extract_ipport_from_ether_layer h x 0 no_flow of Some (flags, _) \<Rightarrow> flags AND IPPORT_FLAGS_IP \<noteq> 0 | None \<Rightarrow> False)"

lemma carries_ip_flow: "carries_ip h x \<Longrightarrow> extract_ipport_from_ether_layer h x 0 fw = extract_ipport_from_ether_layer h x 0 no_flow"
  using ether_same_flow [of h x 0] by (auto simp: carries_ip_def same_flow_def)

text \<open>The outer headers of a VXLAN packet: an IPv4 header with options or an IPv6 header, both announcing UDP, and
  a UDP header with a destination port of the VXLAN range.\<close>

definition udp_ip_header :: "u16 \<Rightarrow> bytes \<Rightarrow> bool" where
  "udp_ip_header t ip \<longleftrightarrow>
     t = ETHERTYPE_IP \<and> 20 \<le> length ip \<and> length ip = unat (ip ! 0 AND 0x0F) * 4 \<and> ip ! 9 = IPPROTO_UDP \<or>
     t = ETHERTYPE_IPV6 \<and> length ip = 40 \<and> ip ! 6 = IPPROTO_UDP"

definition vxlan_udp_header :: "bytes \<Rightarrow> bool" where
  "vxlan_udp_header udp \<longleftrightarrow> length udp = 8 \<and> 4700 \<le> of_be16 (udp ! 2) (udp ! 3) \<and> of_be16 (udp ! 2) (udp ! 3) < 4800"

lemma vxlan_inner:
  assumes "vxlan_udp_header udp" "length vx = 8" "carries_ip h inner" "34 \<le> caplen h" "caplen h' = 16 + caplen h"
  shows "extract_ipport_from_udp_layer h' (udp @ vx @ inner) 0 fw =
    map_option (apfst (\<lambda>flags. IPPORT_FLAGS_PORT OR flags)) (extract_ipport_from_ether_layer h inner 0 no_flow)"
proof -
  have u: "length udp = 8" "4700 \<le> of_be16 (udp ! 2) (udp ! 3)" "of_be16 (udp ! 2) (udp ! 3) < 4800"
    using assms(1) by (simp_all add: vxlan_udp_header_def)
  let ?p = "udp @ vx @ inner"
  have r: "rd16 ?p 0 = Some (of_be16 (udp ! 0) (udp ! 1))" "rd16 ?p 2 = Some (of_be16 (udp ! 2) (udp ! 3))"
    using u(1) by (simp_all add: rd16_def rd8_def nth_append numeral_eq_Suc)
  have "extract_ipport_from_ether_layer h' ?p 16 fw' = extract_ipport_from_ether_layer h inner 0 fw'" for fw'
    using layers_shift(1) [of h' "udp @ vx" h inner 0 fw'] u(1) assms(2,5) by simp
  then have "extract_ipport_from_maybe_vxlan_layer h' ?p 8 fw' = extract_ipport_from_ether_layer h inner 0 no_flow" for fw'
    using assms(4,5) carries_ip_flow [OF assms(3)] by (subst extract_ipport_from_maybe_vxlan_layer.simps) simp
  then show ?thesis using r u(2,3) assms(5)
    by (subst extract_ipport_from_udp_layer.simps)
      (cases "extract_ipport_from_ether_layer h inner 0 no_flow"; simp add: numeral_2_eq_2 split_beta apfst_def map_prod_def)
qed

lemma udp_ip_layer:
  assumes "udp_ip_header t ip" "caplen h = length ip + caplen h'"
    and udp: "\<And>fw. extract_ipport_from_udp_layer h' x 0 fw = Some (flags, fw')"
  shows "(if t = ETHERTYPE_IP then extract_ipport_from_ipv4_layer h (ip @ x) 0 fw
     else if t = ETHERTYPE_IPV6 then extract_ipport_from_ipv6_layer h (ip @ x) 0 fw
     else Some (0, fw)) = Some (IPPORT_FLAGS_IP OR flags, fw')"
proof -
  have s: "extract_ipport_from_udp_layer h (ip @ x) (length ip) fw = Some (flags, fw')" for fw
    using layers_shift(4) [OF assms(2), of x 0 fw] udp by simp
  have c: "IPPROTO_UDP \<noteq> IPPROTO_TCP" "ETHERTYPE_IPV6 \<noteq> ETHERTYPE_IP" by (simp_all add: header_consts)
  show ?thesis
  proof (cases "t = ETHERTYPE_IP")
    case True
    then have ip: "20 \<le> length ip" "length ip = unat (ip ! 0 AND 0x0F) * 4" "ip ! 9 = IPPROTO_UDP"
      using assms(1) c by (auto simp: udp_ip_header_def)
    have "rd8 (ip @ x) 0 = Some (ip ! 0)" using ip(1) by (cases ip) (simp_all add: rd8_def)
    then show ?thesis using True ip(1,3) s c(1) assms(2)
      by (subst extract_ipport_from_ipv4_layer.simps) (simp add: mem_simps nth_append ip(2) [symmetric] Let_def)
  next
    case False
    then have ip: "t = ETHERTYPE_IPV6" "length ip = 40" "ip ! 6 = IPPROTO_UDP"
      using assms(1) by (auto simp: udp_ip_header_def)
    show ?thesis using ip s c assms(2)
      by (subst extract_ipport_from_ipv6_layer.simps) (simp add: mem_simps nth_append Let_def)
  qed
qed

section \<open>Properties\<close>

lemma custom_direction:
  "extract_ipport_from_ether_layer h x 0 no_flow = Some (flags, fw) \<Longrightarrow> flags AND IPPORT_FLAGS_IP \<noteq> 0 \<Longrightarrow>
   extract_ipport_from_ether_layer h' x' 0 no_flow = Some (flags', fw) \<Longrightarrow> flags' AND IPPORT_FLAGS_IP \<noteq> 0 \<Longrightarrow>
     req_pattern_judge_pkt_direction (REQ_PATTERN_TYPE_CUSTOM node) h x = req_pattern_judge_pkt_direction (REQ_PATTERN_TYPE_CUSTOM node) h' x'"
  by (simp add: req_pattern_judge_pkt_direction_def)

text \<open>(C14) Judging a packet's direction always ends, whatever the packet nests, and reads only captured bytes: when the
  packet has the \<open>caplen\<close> bytes its header announces, \<open>req_pattern_judge_pkt_direction\<close> returns one of the four
  directions, the addresses it compares are initialised, and it returns \<open>PKT_DIR_NONCHECK\<close> exactly for tasks without a
  request pattern.\<close>

theorem direction_safe:
  assumes "caplen header \<le> length pkt"
  shows "\<exists>d. req_pattern_judge_pkt_direction req_pattern header pkt = Some d \<and>
    d \<in> {PKT_DIR_UNKNOWN, PKT_DIR_NONCHECK, PKT_DIR_INCOMING, PKT_DIR_OUTGOING} \<and>
    (d = PKT_DIR_NONCHECK \<longleftrightarrow> req_pattern = REQ_PATTERN_TYPE_NONE)"
proof (cases req_pattern)
  case (REQ_PATTERN_TYPE_AUTO mac)
  then show ?thesis using assms
    by (simp add: req_pattern_judge_pkt_direction_def ETHER_ADDR_LEN_def mem_simps pkt_dir_defs)
next
  case (REQ_PATTERN_TYPE_CUSTOM node)
  obtain flags fw where "extract_ipport_from_ether_layer header pkt 0 no_flow = Some (flags, fw)"
    "flags AND IPPORT_FLAGS_IP \<noteq> 0 \<Longrightarrow> fl_sip fw \<noteq> None \<and> fl_dip fw \<noteq> None"
    using layers_extracted(1) [OF assms, of no_flow 0] by (auto simp: extracted_def split: option.splits if_splits)
  then show ?thesis using REQ_PATTERN_TYPE_CUSTOM
    by (auto simp: req_pattern_judge_pkt_direction_def req_pattern_custom_match_by_ipport_def pkt_dir_defs)
qed (simp add: req_pattern_judge_pkt_direction_def pkt_dir_defs)

definition sample_tcp :: bytes where
  "sample_tcp = [0x45, 0, 0, 40, 0, 0, 0, 0, 64, 6, 0, 0, 10, 0, 0, 1, 10, 0, 0, 2] @ [0x1F, 0x90, 0xC0, 0] @ replicate 16 0"

definition sample_header :: "u32 \<Rightarrow> pcap_pkthdr" where
  "sample_header n = \<lparr>ph_ts = \<lparr>tv_sec = 0, tv_usec = 0\<rparr>, ph_caplen = n, ph_len = n\<rparr>"

lemma sample_caplen: "caplen (sample_header n) = unat n"
  by (simp add: sample_header_def)

theorem direction_safe_witness:
  "caplen (sample_header 54) \<le> length (eth_frame (replicate 12 0) [] ETHERTYPE_IP sample_tcp) \<and>
   (\<exists>d. req_pattern_judge_pkt_direction (REQ_PATTERN_TYPE_CUSTOM (Cond_port 8080)) (sample_header 54)
      (eth_frame (replicate 12 0) [] ETHERTYPE_IP sample_tcp) = Some d \<and> d \<noteq> PKT_DIR_NONCHECK)"
proof -
  have l: "caplen (sample_header 54) \<le> length (eth_frame (replicate 12 0) [] ETHERTYPE_IP sample_tcp)"
    by (simp add: sample_caplen eth_frame_def sample_tcp_def)
  show ?thesis using direction_safe [OF l, of "REQ_PATTERN_TYPE_CUSTOM (Cond_port 8080)"] l by blast
qed



text \<open>(C24) A custom pattern does not see VLAN tags: a frame with any stack of 802.1Q, 802.1ad, 0x9100 or 0x9200 tags has the
  direction of the frame without them.\<close>

theorem direction_ignores_vlan:
  assumes "length macs = 12" "vlan_stack tags" "\<not> is_vlan_ethertype t" "14 \<le> caplen h" "caplen header = 4 * length tags + caplen h"
  shows "req_pattern_judge_pkt_direction (REQ_PATTERN_TYPE_CUSTOM node) header (eth_frame macs tags t x) =
    req_pattern_judge_pkt_direction (REQ_PATTERN_TYPE_CUSTOM node) h (eth_frame macs [] t x)"
proof -
  have c: "caplen h = 14 + 4 * length [] + caplen (rest_header h 14)" using rest_header_caplen [OF assms(4)] by simp
  then have c': "caplen header = 14 + 4 * length tags + caplen (rest_header h 14)" using assms(5) by simp
  have "extract_ipport_from_ether_layer header (eth_frame macs tags t x) 0 no_flow = extract_ipport_from_ether_layer h (eth_frame macs [] t x) 0 no_flow"
    using ether_frame [OF assms(1-3) c', of x no_flow] ether_frame [OF assms(1) _ assms(3) c, of x no_flow] by (simp add: vlan_stack_def)
  then show ?thesis by (simp add: req_pattern_judge_pkt_direction_def)
qed

theorem direction_ignores_vlan_witness:
  "req_pattern_judge_pkt_direction (REQ_PATTERN_TYPE_CUSTOM (Cond_port 8080)) (sample_header 62)
     (eth_frame (replicate 12 0) [(0x88a8, 7), (0x8100, 5)] ETHERTYPE_IP sample_tcp) =
   req_pattern_judge_pkt_direction (REQ_PATTERN_TYPE_CUSTOM (Cond_port 8080)) (sample_header 54)
     (eth_frame (replicate 12 0) [] ETHERTYPE_IP sample_tcp)"
proof (rule direction_ignores_vlan)
  show "vlan_stack [(0x88a8, 7), (0x8100, 5)]" by code_simp
  show "\<not> is_vlan_ethertype ETHERTYPE_IP" by code_simp
qed (simp_all add: sample_caplen)

definition tcp_ip_header :: "bytes \<Rightarrow> u32 \<Rightarrow> u32 \<Rightarrow> bool" where
  "tcp_ip_header ip src dst \<longleftrightarrow>
     20 \<le> length ip \<and> length ip = unat (ip ! 0 AND 0x0F) * 4 \<and> ip ! 9 = IPPROTO_TCP \<and>
     rd32 ip 12 = Some src \<and> rd32 ip 16 = Some dst"

lemma tcp_frame_flow:
  assumes "length macs = 12" "vlan_stack tags" "tcp_ip_header ip src dst" "length rest = 16"
    and "caplen header = 14 + 4 * length tags + length ip + 20 + n"
  shows "extract_ipport_from_ether_layer header (eth_frame macs tags ETHERTYPE_IP (ip @ be16 sport @ be16 dport @ rest @ body)) 0 no_flow =
    Some (IPPORT_FLAGS_IP OR IPPORT_FLAGS_PORT,
      \<lparr>fl_sip = Some (IP_TYPE_IPv4 src), fl_sport = sport, fl_dip = Some (IP_TYPE_IPv4 dst), fl_dport = dport\<rparr>)"
proof -
  define h1 where "h1 = rest_header header (14 + 4 * length tags)"
  have c1: "caplen header = 14 + 4 * length tags + caplen h1"
    using rest_header_caplen [of "14 + 4 * length tags" header] assms(5) by (simp add: h1_def)
  have nv: "\<not> is_vlan_ethertype ETHERTYPE_IP" by (simp add: is_vlan_ethertype_def header_consts)
  have ip: "20 \<le> length ip" "length ip = unat (ip ! 0 AND 0x0F) * 4" "ip ! 9 = IPPROTO_TCP" "rd32 ip 12 = Some src" "rd32 ip 16 = Some dst"
    using assms(3) by (simp_all add: tcp_ip_header_def)
  let ?x = "be16 sport @ be16 dport @ rest @ body"
  have r: "rd16 (ip @ ?x) (length ip) = Some sport" "rd16 (ip @ ?x) (length ip + 2) = Some dport"
    using rd_shift(2) [of ip ?x 0] rd_shift(2) [of ip ?x 2] by (simp_all add: rd16_def rd8_def be16_def wire_simps)
  have "rd8 (ip @ ?x) 0 = Some (ip ! 0)" "rd8 (ip @ ?x) 9 = Some IPPROTO_TCP" using ip(1,3) by (cases ip; simp add: rd8_def nth_append)+
  moreover have "rd32 (ip @ ?x) 12 = Some src" "rd32 (ip @ ?x) 16 = Some dst"
    using ip(1,4,5) by (simp_all add: mem_simps nth_append)
  moreover have "extract_ipport_from_tcp_layer h1 (ip @ ?x) (length ip) fw = Some (IPPORT_FLAGS_PORT, fw\<lparr>fl_sport := sport, fl_dport := dport\<rparr>)" for fw
    using c1 assms(5) r [unfolded add_2_eq_Suc'] by (simp add: extract_ipport_from_tcp_layer_def)
  ultimately show ?thesis using c1 assms(5) ip(1) unfolding ether_frame [OF assms(1,2) nv c1]
    by (subst extract_ipport_from_ipv4_layer.simps) (simp add: ip(2) [symmetric] Let_def)
qed

text \<open>(C16) A custom pattern compares the source first: a TCP segment over IPv4, with any VLAN tags and any IP options, is
  outgoing when its source address and port satisfy the pattern, otherwise incoming when its destination does, and
  unknown when neither does.\<close>

theorem direction_of_flow:
  assumes "length macs = 12" "vlan_stack tags" "tcp_ip_header ip src dst" "length rest = 16"
    and "caplen header = 14 + 4 * length tags + length ip + 20 + n"
  shows "req_pattern_judge_pkt_direction (REQ_PATTERN_TYPE_CUSTOM node) header
      (eth_frame macs tags ETHERTYPE_IP (ip @ be16 sport @ be16 dport @ rest @ body)) =
    Some (if evaluate node (IP_TYPE_IPv4 src) sport then PKT_DIR_OUTGOING
          else if evaluate node (IP_TYPE_IPv4 dst) dport then PKT_DIR_INCOMING
          else PKT_DIR_UNKNOWN)"
  using tcp_frame_flow [OF assms, of sport dport body] flags_or(1) [of IPPORT_FLAGS_PORT]
  by (simp add: req_pattern_judge_pkt_direction_def req_pattern_custom_match_by_ipport_def)

theorem direction_of_flow_witness:
  "req_pattern_judge_pkt_direction (REQ_PATTERN_TYPE_CUSTOM (Operator OP_AND (Cond_host (IP_TYPE_IPv4 0x0A000002)) (Cond_port 8080)))
      (sample_header 58)
      (eth_frame (replicate 12 0) [(0x8100, 5)] ETHERTYPE_IP
        ([0x45, 0, 0, 40, 0, 0, 0, 0, 64, 6, 0, 0, 10, 0, 0, 1, 10, 0, 0, 2] @ be16 40000 @ be16 8080 @ replicate 16 0 @ [])) =
    Some PKT_DIR_INCOMING"
proof -
  have "tcp_ip_header [0x45, 0, 0, 40, 0, 0, 0, 0, 64, 6, 0, 0, 10, 0, 0, 1, 10, 0, 0, 2] 0x0A000001 0x0A000002" by code_simp
  moreover have "vlan_stack [(0x8100, 5)]" by code_simp
  ultimately show ?thesis
    by (subst direction_of_flow [where n = 0 and src = "0x0A000001" and dst = "0x0A000002"]) (simp_all add: sample_caplen)
qed

end
