(* ===== verification/Task_Manager.thy ===== *)
theory Task_Manager
  imports Config
begin

text \<open>
  The task manager of \<open>task.c\<close> and the loop of \<open>main.c\<close>: three threads, the capture loop of the main
  thread, the reload thread and, in the pipeline model, the output thread, which exchange configurations and task
  lists through two mailboxes.

  Task lists, error lists, configurations and capture tasks live in a heap of checked addresses: using or freeing an
  address that is not allocated is the result \<^term>\<open>None\<close>, so a defined run has no use after free and no
  double free.  A step of a thread is one access to the state the threads share, together with the thread's own
  computation around it.  What the surroundings decide, that is the configuration document, allocations, whether a
  capture task can be created, the packets captured and the timer of the reload cycle, is the input of the step.
  The ring between the capture loop and the output thread is a queue of messages, each with the capture task whose
  outputs it is for; that the ring buffer implements one is shown with the ring buffer.
\<close>

section \<open>State\<close>

record task_t =
  t_index :: nat
  t_fingerprint :: "string option"
  t_task :: nat

record task_error_t =
  te_index :: nat
  te_fingerprint :: "string option"
  te_errbuf :: string

datatype reload_msg = RELOAD_REQ_PLAN nat | RELOAD_RPT_SURVIVORS nat | RELOAD_REQ_BUILD nat
  | RELOAD_RPT_NEW_TASKS nat nat nat | RELOAD_REQ_RECLAIM nat nat nat | RELOAD_RPT_RECLAIMED
  | RELOAD_RPT_ERROR "nat option"

datatype reload_phase_t = RELOAD_PHASE_IDLE | RELOAD_PHASE_AWAITING_SURVIVORS
  | RELOAD_PHASE_AWAITING_NEW_TASKS | RELOAD_PHASE_AWAITING_RECLAIM

text \<open>Where the reload thread is: at the head of its loop, about to empty its mailbox, waiting for the ring to be
  drained, about to reclaim, or gone.\<close>

datatype reload_pc = R_top | R_recv | R_wait reload_msg | R_free reload_msg | R_exit

text \<open>The heap, the task manager, the protocol and the context of the reload thread.\<close>

record reload_ctl =
  h_lists :: "nat \<rightharpoonup> task_t list"
  h_errors :: "nat \<rightharpoonup> task_error_t list"
  h_configs :: "nat \<rightharpoonup> Config"
  h_caps :: "nat \<rightharpoonup> TaskConfig"
  h_next :: nat
  mgr_model :: execution_model
  mgr_tasks :: nat
  mgr_errors :: nat
  mgr_config :: nat
  mgr_capacity :: u64
  reload_signal :: bool
  main_mbox :: "reload_msg option"
  reload_mbox :: "reload_msg option"
  reload_phase :: reload_phase_t
  ctx_new_config :: "nat option"
  ctx_current_tasks :: "nat option"
  ctx_old_tasks :: "nat option"
  reload_pc :: reload_pc

datatype main_pc = M_top | M_poll nat | M_cycle | M_join_reload | M_join_output | M_done

datatype output_pc = O_top | O_drain nat | O_drain_send nat nat | O_clear | O_respond | O_pop | O_send nat
  | O_final nat | O_final_send nat nat | O_exit

record system =
  ctl :: reload_ctl
  main_pc :: main_pc
  output_pc :: output_pc
  quit_signal :: bool
  reload_thread_running :: bool
  output_thread_running :: bool
  ring_msgs :: "nat list"
  drain_request :: bool
  drain_response :: bool

section \<open>Heap operations\<close>

definition alloc_list :: "task_t list \<Rightarrow> reload_ctl \<Rightarrow> nat \<times> reload_ctl" where
  "alloc_list l c = (h_next c, c\<lparr>h_lists := (h_lists c)(h_next c \<mapsto> l), h_next := h_next c + 1\<rparr>)"

definition alloc_errors :: "task_error_t list \<Rightarrow> reload_ctl \<Rightarrow> nat \<times> reload_ctl" where
  "alloc_errors l c = (h_next c, c\<lparr>h_errors := (h_errors c)(h_next c \<mapsto> l), h_next := h_next c + 1\<rparr>)"

definition alloc_config :: "Config \<Rightarrow> reload_ctl \<Rightarrow> nat \<times> reload_ctl" where
  "alloc_config cfg c = (h_next c, c\<lparr>h_configs := (h_configs c)(h_next c \<mapsto> cfg), h_next := h_next c + 1\<rparr>)"

definition alloc_cap :: "TaskConfig \<Rightarrow> reload_ctl \<Rightarrow> nat \<times> reload_ctl" where
  "alloc_cap t c = (h_next c, c\<lparr>h_caps := (h_caps c)(h_next c \<mapsto> t), h_next := h_next c + 1\<rparr>)"

definition free_task_list_wrappers :: "nat \<Rightarrow> reload_ctl \<Rightarrow> reload_ctl option" where
  "free_task_list_wrappers p c =
    (if h_lists c p = None then None else Some (c\<lparr>h_lists := (h_lists c)(p := None)\<rparr>))"

definition destroy_task_error_list :: "nat \<Rightarrow> reload_ctl \<Rightarrow> reload_ctl option" where
  "destroy_task_error_list p c =
    (if h_errors c p = None then None else Some (c\<lparr>h_errors := (h_errors c)(p := None)\<rparr>))"

definition free_config :: "nat \<Rightarrow> reload_ctl \<Rightarrow> reload_ctl option" where
  "free_config p c =
    (if h_configs c p = None then None else Some (c\<lparr>h_configs := (h_configs c)(p := None)\<rparr>))"

definition capture_task_destroy :: "nat \<Rightarrow> reload_ctl \<Rightarrow> reload_ctl option" where
  "capture_task_destroy p c =
    (if h_caps c p = None then None else Some (c\<lparr>h_caps := (h_caps c)(p := None)\<rparr>))"

section \<open>Task lists\<close>

fun find_task_by_fingerprint :: "string \<Rightarrow> task_t list \<Rightarrow> task_t option" where
  "find_task_by_fingerprint fp [] = None"
| "find_task_by_fingerprint fp (x # tasks) =
    (if t_fingerprint x = Some fp then Some x else find_task_by_fingerprint fp tasks)"

definition validate_fingerprints :: "Config \<Rightarrow> bool" where
  "validate_fingerprints cfg \<longleftrightarrow> list_all (\<lambda>t. tc_fingerprint t \<noteq> None) (cf_tasks cfg)"

text \<open>What the surroundings decide during a plan or a build: the configuration document (absent when the file cannot
  be read or is no JSON), the memory the configuration parser gets, the list headers, the wrapper and the error record of the
  task with each index, and the error of creating its capture task.\<close>

record reload_input =
  in_document :: "cJSON option"
  in_mem :: mem
  in_list :: bool
  in_errors :: bool
  in_wrapper :: "nat \<Rightarrow> bool"
  in_error_record :: "nat \<Rightarrow> bool"
  in_capture :: "nat \<Rightarrow> string option"

fun surviving_tasks :: "reload_input \<Rightarrow> nat \<Rightarrow> TaskConfig list \<Rightarrow> task_t list \<Rightarrow> task_t list option option" where
  "surviving_tasks env i [] current = Some (Some [])"
| "surviving_tasks env i (task_config # rest) current =
    (case tc_fingerprint task_config of
       None \<Rightarrow> None
     | Some fp \<Rightarrow>
         (case find_task_by_fingerprint fp current of
            None \<Rightarrow> surviving_tasks env (i + 1) rest current
          | Some existing \<Rightarrow>
              if \<not> in_wrapper env i then Some None
              else map_option (map_option (\<lambda>tasks.
                     \<lparr>t_index = t_index existing, t_fingerprint = t_fingerprint existing, t_task = t_task existing\<rparr> # tasks))
                   (surviving_tasks env (i + 1) rest current)))"

text \<open>\<^term>\<open>Some None\<close> is the failure with everything allocated so far freed again.\<close>

definition collect_surviving_tasks :: "reload_input \<Rightarrow> Config \<Rightarrow> nat \<Rightarrow> reload_ctl \<Rightarrow> (nat option \<times> reload_ctl) option" where
  "collect_surviving_tasks env cfg current_tasks c =
    (if \<not> in_list env then Some (None, c)
     else do {
       current \<leftarrow> h_lists c current_tasks;
       survivors \<leftarrow> surviving_tasks env 0 (cf_tasks cfg) current;
       Some (case survivors of
               None \<Rightarrow> (None, c)
             | Some tasks \<Rightarrow> (let (p, c) = alloc_list tasks c in (Some p, c)))
     })"

text \<open>The loop of \<open>build_full_task_set\<close>: the flag is whether it ran to its end.\<close>

fun build_tasks :: "reload_input \<Rightarrow> nat \<Rightarrow> TaskConfig list \<Rightarrow> task_t list \<Rightarrow> task_t list \<Rightarrow> task_error_t list \<Rightarrow> reload_ctl \<Rightarrow>
    (bool \<times> task_t list \<times> task_error_t list \<times> reload_ctl) option" where
  "build_tasks env i [] current tasks errors c = Some (True, tasks, errors, c)"
| "build_tasks env i (task_config # rest) current tasks errors c =
    (case tc_fingerprint task_config of
       None \<Rightarrow> None
     | Some fp \<Rightarrow>
         (case find_task_by_fingerprint fp current of
            Some existing \<Rightarrow>
              if \<not> in_wrapper env i then Some (False, tasks, errors, c)
              else build_tasks env (i + 1) rest current
                     (tasks @ [\<lparr>t_index = i, t_fingerprint = Some fp, t_task = t_task existing\<rparr>]) errors c
          | None \<Rightarrow>
              (case in_capture env i of
                 Some err \<Rightarrow>
                   if \<not> in_error_record env i then Some (False, tasks, errors, c)
                   else build_tasks env (i + 1) rest current tasks
                          (errors @ [\<lparr>te_index = i, te_fingerprint = Some fp, te_errbuf = err\<rparr>]) c
               | None \<Rightarrow>
                   (let (cap_task, c) = alloc_cap task_config c in
                    if \<not> in_wrapper env i
                    then do { c \<leftarrow> capture_task_destroy cap_task c; Some (False, tasks, errors, c) }
                    else build_tasks env (i + 1) rest current
                           (tasks @ [\<lparr>t_index = i, t_fingerprint = Some fp, t_task = cap_task\<rparr>]) errors c))))"

fun destroy_new_tasks :: "task_t list \<Rightarrow> task_t list \<Rightarrow> reload_ctl \<Rightarrow> reload_ctl option" where
  "destroy_new_tasks current [] c = Some c"
| "destroy_new_tasks current (x # tasks) c =
    do {
      fp \<leftarrow> t_fingerprint x;
      c \<leftarrow> (if find_task_by_fingerprint fp current = None then capture_task_destroy (t_task x) c else Some c);
      destroy_new_tasks current tasks c
    }"

definition build_full_task_set :: "reload_input \<Rightarrow> Config \<Rightarrow> nat \<Rightarrow> reload_ctl \<Rightarrow> ((nat \<times> nat) option \<times> reload_ctl) option" where
  "build_full_task_set env cfg current_tasks c =
    (if \<not> in_list env \<or> \<not> in_errors env then Some (None, c)
     else do {
       current \<leftarrow> h_lists c current_tasks;
       (ok, tasks, errors, c) \<leftarrow> build_tasks env 0 (cf_tasks cfg) current [] [] c;
       if ok
       then (let (p, c) = alloc_list tasks c; (q, c) = alloc_errors errors c in Some (Some (p, q), c))
       else do { c \<leftarrow> destroy_new_tasks current tasks c; Some (None, c) }
     })"

fun reclaim_tasks :: "task_t list \<Rightarrow> task_t list \<Rightarrow> reload_ctl \<Rightarrow> reload_ctl option" where
  "reclaim_tasks new [] c = Some c"
| "reclaim_tasks new (x # tasks) c =
    do {
      c \<leftarrow> (case t_fingerprint x of
              None \<Rightarrow> capture_task_destroy (t_task x) c
            | Some fp \<Rightarrow> if find_task_by_fingerprint fp new = None then capture_task_destroy (t_task x) c else Some c);
      reclaim_tasks new tasks c
    }"

definition reclaim_old_resources :: "nat \<Rightarrow> nat \<Rightarrow> nat option \<Rightarrow> nat \<Rightarrow> reload_ctl \<Rightarrow> reload_ctl option" where
  "reclaim_old_resources old_config old_errors old_tasks new_tasks c =
    do {
      p \<leftarrow> old_tasks;
      old \<leftarrow> h_lists c p;
      new \<leftarrow> h_lists c new_tasks;
      c \<leftarrow> reclaim_tasks new old c;
      c \<leftarrow> free_task_list_wrappers p c;
      c \<leftarrow> destroy_task_error_list old_errors c;
      free_config old_config c
    }"

section \<open>The main thread's handlers\<close>

definition restore_full_list_on_build_failure :: "nat option \<Rightarrow> reload_ctl \<Rightarrow> reload_ctl option" where
  "restore_full_list_on_build_failure restore_old_tasks c =
    (case restore_old_tasks of
       None \<Rightarrow> Some c
     | Some p \<Rightarrow> do { c \<leftarrow> free_task_list_wrappers (mgr_tasks c) c; Some (c\<lparr>mgr_tasks := p\<rparr>) })"

definition main_handle_survivors :: "reload_msg \<Rightarrow> reload_ctl \<Rightarrow> reload_ctl option" where
  "main_handle_survivors msg c =
    (case msg of
       RELOAD_RPT_SURVIVORS survivor_tasks \<Rightarrow>
         Some (c\<lparr>mgr_tasks := survivor_tasks, reload_mbox := Some (RELOAD_REQ_BUILD (mgr_tasks c)),
                 reload_phase := RELOAD_PHASE_AWAITING_NEW_TASKS\<rparr>)
     | _ \<Rightarrow> Some (c\<lparr>reload_phase := RELOAD_PHASE_IDLE\<rparr>))"

definition main_handle_new_tasks :: "reload_msg \<Rightarrow> reload_ctl \<Rightarrow> reload_ctl option" where
  "main_handle_new_tasks msg c =
    (case msg of
       RELOAD_RPT_ERROR restore_old_tasks \<Rightarrow>
         do { c \<leftarrow> restore_full_list_on_build_failure restore_old_tasks c; Some (c\<lparr>reload_phase := RELOAD_PHASE_IDLE\<rparr>) }
     | RELOAD_RPT_NEW_TASKS config tasks errors \<Rightarrow>
         do {
           let old_config = mgr_config c;
           let old_errors = mgr_errors c;
           c \<leftarrow> free_task_list_wrappers (mgr_tasks c) c;
           let c = c\<lparr>mgr_tasks := tasks, mgr_errors := errors, mgr_config := config\<rparr>;
           cfg \<leftarrow> h_configs c config;
           let c = (if mgr_model c = EXECUTION_MODEL_PIPELINE \<and> cf_execution_model cfg = EXECUTION_MODEL_PIPELINE
                    then c\<lparr>mgr_capacity := cf_buffer_size_mb cfg * 1024 * 1024\<rparr> else c);
           Some (c\<lparr>reload_mbox := Some (RELOAD_REQ_RECLAIM old_config old_errors tasks),
                   reload_phase := RELOAD_PHASE_AWAITING_RECLAIM\<rparr>)
         }
     | _ \<Rightarrow> Some (c\<lparr>reload_phase := RELOAD_PHASE_IDLE\<rparr>))"

definition main_handle_reclaimed :: "reload_msg \<Rightarrow> reload_ctl \<Rightarrow> reload_ctl option" where
  "main_handle_reclaimed msg c = Some (c\<lparr>reload_phase := RELOAD_PHASE_IDLE\<rparr>)"

definition try_start_reload :: "reload_ctl \<Rightarrow> reload_ctl" where
  "try_start_reload c =
    (if reload_phase c \<noteq> RELOAD_PHASE_IDLE then c
     else if \<not> reload_signal c then c
     else c\<lparr>reload_signal := False, reload_mbox := Some (RELOAD_REQ_PLAN (mgr_tasks c)),
            reload_phase := RELOAD_PHASE_AWAITING_SURVIVORS\<rparr>)"

definition task_manager_reload_cycle :: "reload_ctl \<Rightarrow> reload_ctl option" where
  "task_manager_reload_cycle c =
    do {
      c \<leftarrow> (case main_mbox c of
              None \<Rightarrow> Some c
            | Some msg \<Rightarrow>
                let c = c\<lparr>main_mbox := None\<rparr> in
                (case reload_phase c of
                   RELOAD_PHASE_AWAITING_SURVIVORS \<Rightarrow> main_handle_survivors msg c
                 | RELOAD_PHASE_AWAITING_NEW_TASKS \<Rightarrow> main_handle_new_tasks msg c
                 | RELOAD_PHASE_AWAITING_RECLAIM \<Rightarrow> main_handle_reclaimed msg c
                 | RELOAD_PHASE_IDLE \<Rightarrow> Some c));
      Some (try_start_reload c)
    }"

section \<open>The reload thread\<close>

definition reload_ctx_reset_cycle_state :: "reload_ctl \<Rightarrow> reload_ctl" where
  "reload_ctx_reset_cycle_state c = c\<lparr>ctx_old_tasks := None, ctx_current_tasks := None\<rparr>"

definition report :: "reload_msg \<Rightarrow> reload_ctl \<Rightarrow> reload_ctl" where
  "report msg c = c\<lparr>main_mbox := Some msg\<rparr>"

definition parse_config_file :: "reload_input \<Rightarrow> Config option" where
  "parse_config_file env =
    (case in_document env of
       None \<Rightarrow> None
     | Some json \<Rightarrow> (case parse_config_json (in_mem env) json of Inl err \<Rightarrow> None | Inr cfg \<Rightarrow> Some cfg))"

definition reload_do_plan :: "reload_input \<Rightarrow> nat \<Rightarrow> reload_ctl \<Rightarrow> reload_ctl option" where
  "reload_do_plan env current_tasks c =
    (let c = c\<lparr>ctx_current_tasks := Some current_tasks\<rparr>;
         failed = (\<lambda>c. reload_ctx_reset_cycle_state (report (RELOAD_RPT_ERROR None) c)) in
     (case parse_config_file env of
        None \<Rightarrow> Some (failed c)
      | Some cfg \<Rightarrow>
          (let (config, c) = alloc_config cfg c in
           if \<not> validate_fingerprints cfg then map_option failed (free_config config c)
           else do {
             (survivors, c) \<leftarrow> collect_surviving_tasks env cfg current_tasks c;
             case survivors of
               None \<Rightarrow> map_option failed (free_config config c)
             | Some p \<Rightarrow> Some (report (RELOAD_RPT_SURVIVORS p) (c\<lparr>ctx_new_config := Some config\<rparr>))
           })))"

definition reload_do_build :: "reload_input \<Rightarrow> nat \<Rightarrow> reload_ctl \<Rightarrow> reload_ctl option" where
  "reload_do_build env old_tasks c =
    do {
      let c = c\<lparr>ctx_old_tasks := Some old_tasks\<rparr>;
      config \<leftarrow> ctx_new_config c;
      cfg \<leftarrow> h_configs c config;
      current_tasks \<leftarrow> ctx_current_tasks c;
      (result, c) \<leftarrow> build_full_task_set env cfg current_tasks c;
      case result of
        None \<Rightarrow>
          do {
            c \<leftarrow> free_config config (report (RELOAD_RPT_ERROR (ctx_old_tasks c)) c);
            Some (reload_ctx_reset_cycle_state (c\<lparr>ctx_new_config := None\<rparr>))
          }
      | Some (tasks, errors) \<Rightarrow> Some (report (RELOAD_RPT_NEW_TASKS config tasks errors) (c\<lparr>ctx_new_config := None\<rparr>))
    }"

definition reload_handle_error_from_main :: "reload_ctl \<Rightarrow> reload_ctl option" where
  "reload_handle_error_from_main c =
    (case ctx_new_config c of
       None \<Rightarrow> Some (reload_ctx_reset_cycle_state c)
     | Some config \<Rightarrow> do { c \<leftarrow> free_config config c; Some (reload_ctx_reset_cycle_state (c\<lparr>ctx_new_config := None\<rparr>)) })"

definition reload_ctx_cleanup_on_exit :: "reload_ctl \<Rightarrow> reload_ctl option" where
  "reload_ctx_cleanup_on_exit c =
    (case ctx_new_config c of None \<Rightarrow> Some c | Some config \<Rightarrow> free_config config c)"

text \<open>One step of \<open>task_manager_reload_loop\<close>.  \<open>reload_do_reclaim\<close> is three of them: it asks for the ring to be
  drained, \<open>wait_output_drain_ring_response\<close> polls the answer, and the old resources are reclaimed.  In the
  run-to-completion model there is nothing to drain.\<close>

definition reload_step :: "reload_input \<Rightarrow> system \<Rightarrow> system option" where
  "reload_step env s =
    (let c = ctl s in
     (case reload_pc c of
        R_top \<Rightarrow>
          if reload_thread_running s then Some (s\<lparr>ctl := c\<lparr>reload_pc := R_recv\<rparr>\<rparr>)
          else map_option (\<lambda>c. s\<lparr>ctl := c\<lparr>reload_pc := R_exit\<rparr>\<rparr>) (reload_ctx_cleanup_on_exit c)
      | R_recv \<Rightarrow>
          (let msg = reload_mbox c; c = c\<lparr>reload_mbox := None, reload_pc := R_top\<rparr> in
           (case msg of
              None \<Rightarrow> Some (s\<lparr>ctl := c\<rparr>)
            | Some (RELOAD_REQ_PLAN p) \<Rightarrow> map_option (\<lambda>c. s\<lparr>ctl := c\<rparr>) (reload_do_plan env p c)
            | Some (RELOAD_REQ_BUILD p) \<Rightarrow> map_option (\<lambda>c. s\<lparr>ctl := c\<rparr>) (reload_do_build env p c)
            | Some (RELOAD_REQ_RECLAIM oc oe nt) \<Rightarrow>
                if mgr_model c = EXECUTION_MODEL_PIPELINE
                then Some (s\<lparr>ctl := c\<lparr>reload_pc := R_wait (RELOAD_REQ_RECLAIM oc oe nt)\<rparr>, drain_request := True\<rparr>)
                else Some (s\<lparr>ctl := c\<lparr>reload_pc := R_free (RELOAD_REQ_RECLAIM oc oe nt)\<rparr>\<rparr>)
            | Some (RELOAD_RPT_ERROR p) \<Rightarrow> map_option (\<lambda>c. s\<lparr>ctl := c\<rparr>) (reload_handle_error_from_main c)
            | Some _ \<Rightarrow> Some (s\<lparr>ctl := c\<rparr>)))
      | R_wait msg \<Rightarrow>
          if \<not> reload_thread_running s then Some (s\<lparr>ctl := c\<lparr>reload_pc := R_free msg\<rparr>\<rparr>)
          else if drain_response s then Some (s\<lparr>ctl := c\<lparr>reload_pc := R_free msg\<rparr>, drain_response := False\<rparr>)
          else Some s
      | R_free msg \<Rightarrow>
          (case msg of
             RELOAD_REQ_RECLAIM oc oe nt \<Rightarrow>
               map_option (\<lambda>c. s\<lparr>ctl := report RELOAD_RPT_RECLAIMED (reload_ctx_reset_cycle_state (c\<lparr>reload_pc := R_top\<rparr>))\<rparr>)
                 (reclaim_old_resources oc oe (ctx_old_tasks c) nt c)
           | _ \<Rightarrow> None)
      | R_exit \<Rightarrow> Some s))"

section \<open>The output thread\<close>

text \<open>Taking the oldest message, with the place to go on at when there is one and when there is none.\<close>

definition pop_msg :: "(nat \<Rightarrow> output_pc) \<Rightarrow> output_pc \<Rightarrow> system \<Rightarrow> system" where
  "pop_msg popped none s =
    (case ring_msgs s of
       [] \<Rightarrow> s\<lparr>output_pc := none\<rparr>
     | cap # msgs \<Rightarrow> s\<lparr>ring_msgs := msgs, output_pc := popped cap\<rparr>)"

text \<open>Sending a message uses its capture task.\<close>

definition output_send_pkt_msg :: "nat \<Rightarrow> output_pc \<Rightarrow> system \<Rightarrow> system option" where
  "output_send_pkt_msg cap sent s = (if h_caps (ctl s) cap = None then None else Some (s\<lparr>output_pc := sent\<rparr>))"

text \<open>One step of \<open>task_manager_output_loop\<close>; \<open>O_drain\<close> and \<open>O_final\<close> count what
  \<open>task_manager_output_drain_ring\<close> still has to send.  A message is popped in one step and sent in another, so other threads
  may step in between.\<close>

definition output_step :: "system \<Rightarrow> system option" where
  "output_step s =
    (case output_pc s of
       O_top \<Rightarrow>
         if \<not> output_thread_running s then Some (s\<lparr>output_pc := O_final (length (ring_msgs s))\<rparr>)
         else if drain_request s then Some (s\<lparr>output_pc := O_drain (length (ring_msgs s))\<rparr>)
         else Some (s\<lparr>output_pc := O_pop\<rparr>)
     | O_drain n \<Rightarrow>
         if n = 0 then Some (s\<lparr>output_pc := O_clear\<rparr>) else Some (pop_msg (O_drain_send (n - 1)) O_clear s)
     | O_drain_send n cap \<Rightarrow> output_send_pkt_msg cap (O_drain n) s
     | O_clear \<Rightarrow> Some (s\<lparr>drain_request := False, output_pc := O_respond\<rparr>)
     | O_respond \<Rightarrow> Some (s\<lparr>drain_response := True, output_pc := O_pop\<rparr>)
     | O_pop \<Rightarrow> Some (pop_msg O_send O_top s)
     | O_send cap \<Rightarrow> output_send_pkt_msg cap O_top s
     | O_final n \<Rightarrow>
         if n = 0 then Some (s\<lparr>output_pc := O_exit\<rparr>) else Some (pop_msg (O_final_send (n - 1)) O_exit s)
     | O_final_send n cap \<Rightarrow> output_send_pkt_msg cap (O_final n) s
     | O_exit \<Rightarrow> Some s)"

section \<open>The main thread\<close>

text \<open>One round of \<open>task_manager_poll_packets\<close>: the next task is polled for \<^term>\<open>n\<close> packets and heartbeats; in the
  pipeline model each becomes a message of the ring.\<close>

definition poll_task :: "nat \<Rightarrow> nat \<Rightarrow> system \<Rightarrow> system option" where
  "poll_task n i s =
    do {
      tasks \<leftarrow> h_lists (ctl s) (mgr_tasks (ctl s));
      if i < length tasks
      then
        let cap = t_task (tasks ! i) in
        if h_caps (ctl s) cap = None then None
        else Some (s\<lparr>main_pc := M_poll (i + 1),
                     ring_msgs := (if mgr_model (ctl s) = EXECUTION_MODEL_PIPELINE then ring_msgs s @ replicate n cap else ring_msgs s)\<rparr>)
      else Some (s\<lparr>main_pc := M_cycle\<rparr>)
    }"

fun destroy_tasks :: "task_t list \<Rightarrow> reload_ctl \<Rightarrow> reload_ctl option" where
  "destroy_tasks [] c = Some c"
| "destroy_tasks (x # tasks) c = do { c \<leftarrow> capture_task_destroy (t_task x) c; destroy_tasks tasks c }"

definition task_manager_destroy :: "reload_ctl \<Rightarrow> reload_ctl option" where
  "task_manager_destroy c =
    do {
      tasks \<leftarrow> h_lists c (mgr_tasks c);
      c \<leftarrow> destroy_tasks tasks c;
      c \<leftarrow> free_config (mgr_config c) c;
      c \<leftarrow> free_task_list_wrappers (mgr_tasks c) c;
      destroy_task_error_list (mgr_errors c) c
    }"

text \<open>One step of the loop of \<open>main\<close> and of what follows it; the flag is whether this round runs
  \<open>task_manager_reload_cycle\<close>, which it does when nothing was captured or a second has passed.\<close>

definition main_step :: "nat \<Rightarrow> bool \<Rightarrow> system \<Rightarrow> system option" where
  "main_step n cycle s =
    (case main_pc s of
       M_top \<Rightarrow>
         if quit_signal s then Some (s\<lparr>reload_thread_running := False, main_pc := M_join_reload\<rparr>)
         else Some (s\<lparr>main_pc := M_poll 0\<rparr>)
     | M_poll i \<Rightarrow> poll_task n i s
     | M_cycle \<Rightarrow>
         if cycle then map_option (\<lambda>c. s\<lparr>ctl := c, main_pc := M_top\<rparr>) (task_manager_reload_cycle (ctl s))
         else Some (s\<lparr>main_pc := M_top\<rparr>)
     | M_join_reload \<Rightarrow>
         if reload_pc (ctl s) \<noteq> R_exit then Some s
         else if mgr_model (ctl s) = EXECUTION_MODEL_PIPELINE then Some (s\<lparr>output_thread_running := False, main_pc := M_join_output\<rparr>)
         else map_option (\<lambda>c. s\<lparr>ctl := c, main_pc := M_done\<rparr>) (task_manager_destroy (ctl s))
     | M_join_output \<Rightarrow>
         if output_pc s \<noteq> O_exit then Some s
         else map_option (\<lambda>c. s\<lparr>ctl := c, main_pc := M_done\<rparr>) (task_manager_destroy (ctl s))
     | M_done \<Rightarrow> Some s)"

section \<open>Runs\<close>

text \<open>A scheduled step: of the main thread with the packets captured and the timer, of the reload thread with its input, of
  the output thread; a reload request by signal or command; a quit signal.\<close>

datatype event = Main nat bool | Reload_thread reload_input | Output_thread | Signal_reload | Signal_quit

definition task_manager_reload_signal :: "system \<Rightarrow> system" where
  "task_manager_reload_signal s = s\<lparr>ctl := (ctl s)\<lparr>reload_signal := True\<rparr>\<rparr>"

fun system_step :: "event \<Rightarrow> system \<Rightarrow> system option" where
  "system_step (Main n cycle) s = main_step n cycle s"
| "system_step (Reload_thread env) s = reload_step env s"
| "system_step Output_thread s = output_step s"
| "system_step Signal_reload s = Some (task_manager_reload_signal s)"
| "system_step Signal_quit s = Some (s\<lparr>quit_signal := True\<rparr>)"

fun system_run :: "event list \<Rightarrow> system \<Rightarrow> system option" where
  "system_run [] s = Some s"
| "system_run (e # es) s = do { s \<leftarrow> system_step e s; system_run es s }"

section \<open>Starting\<close>

text \<open>The loop of \<open>task_manager_new\<close>, in which a task may have no fingerprint.\<close>

fun init_tasks :: "reload_input \<Rightarrow> nat \<Rightarrow> TaskConfig list \<Rightarrow> task_t list \<Rightarrow> task_error_t list \<Rightarrow> reload_ctl \<Rightarrow>
    (bool \<times> task_t list \<times> task_error_t list \<times> reload_ctl) option" where
  "init_tasks env i [] tasks errors c = Some (True, tasks, errors, c)"
| "init_tasks env i (task_config # rest) tasks errors c =
    (case in_capture env i of
       Some err \<Rightarrow>
         if \<not> in_error_record env i then Some (False, tasks, errors, c)
         else init_tasks env (i + 1) rest tasks
                (errors @ [\<lparr>te_index = i, te_fingerprint = tc_fingerprint task_config, te_errbuf = err\<rparr>]) c
     | None \<Rightarrow>
         (let (cap_task, c) = alloc_cap task_config c in
          if \<not> in_wrapper env i
          then do { c \<leftarrow> capture_task_destroy cap_task c; Some (False, tasks, errors, c) }
          else init_tasks env (i + 1) rest
                 (tasks @ [\<lparr>t_index = i, t_fingerprint = tc_fingerprint task_config, t_task = cap_task\<rparr>]) errors c))"

definition empty_ctl :: "execution_model \<Rightarrow> reload_ctl" where
  "empty_ctl model = \<lparr>h_lists = Map.empty, h_errors = Map.empty, h_configs = Map.empty, h_caps = Map.empty, h_next = 0,
     mgr_model = model, mgr_tasks = 0, mgr_errors = 0, mgr_config = 0, mgr_capacity = 0, reload_signal = False,
     main_mbox = None, reload_mbox = None, reload_phase = RELOAD_PHASE_IDLE, ctx_new_config = None,
     ctx_current_tasks = None, ctx_old_tasks = None, reload_pc = R_top\<rparr>"

text \<open>The flag is the status; the first argument is whether the ring and the message allocator could be created.\<close>

definition task_manager_new :: "bool \<Rightarrow> reload_input \<Rightarrow> Config \<Rightarrow> (bool \<times> reload_ctl) option" where
  "task_manager_new pipeline_ok env cfg =
    (let c = empty_ctl (cf_execution_model cfg);
         (config, c) = alloc_config cfg c;
         c = c\<lparr>mgr_config := config, mgr_capacity := (if cf_execution_model cfg = EXECUTION_MODEL_PIPELINE then cf_buffer_size_mb cfg * 1024 * 1024 else 0)\<rparr> in
     if cf_execution_model cfg = EXECUTION_MODEL_PIPELINE \<and> \<not> pipeline_ok then Some (False, c)
     else if \<not> in_list env \<or> \<not> in_errors env then Some (False, c)
     else do {
       (ok, tasks, errors, c) \<leftarrow> init_tasks env 0 (cf_tasks cfg) [] [] c;
       let (p, c) = alloc_list tasks c;
       let (q, c) = alloc_errors errors c;
       let c = c\<lparr>mgr_tasks := p, mgr_errors := q\<rparr>;
       if ok then Some (True, c) else do { c \<leftarrow> task_manager_destroy c; Some (False, c) }
     })"

text \<open>After \<open>task_manager_start\<close> and \<open>task_manager_start_reload_thread\<close> all threads run.\<close>

definition started :: "reload_ctl \<Rightarrow> system" where
  "started c = \<lparr>ctl = c, main_pc = M_top, output_pc = (if mgr_model c = EXECUTION_MODEL_PIPELINE then O_top else O_exit),
     quit_signal = False, reload_thread_running = True, output_thread_running = mgr_model c = EXECUTION_MODEL_PIPELINE,
     ring_msgs = [], drain_request = False, drain_response = False\<rparr>"

end
