(* ===== verification/Reload_Tasks.thy ===== *)
theory Reload_Tasks
  imports Task_Manager "HOL-Library.Sublist"
begin

text \<open>
  What the loops over task lists do during a reload: the survivors, the capture tasks that are destroyed, and the task set
  that is built, with the relation between the old and the new list on which reclaiming rests.
\<close>

section \<open>Ownership\<close>

abbreviation caps_of :: "task_t list \<Rightarrow> nat set" where
  "caps_of l \<equiv> t_task ` set l"

definition fps_of :: "task_t list \<Rightarrow> string list" where
  "fps_of l = List.map_filter t_fingerprint l"

definition tasks_wf :: "task_t list \<Rightarrow> bool" where
  "tasks_wf l \<longleftrightarrow> distinct (map t_task l) \<and> distinct (fps_of l)"

definition owns :: "reload_ctl \<Rightarrow> nat set \<Rightarrow> nat set \<Rightarrow> nat set \<Rightarrow> nat set \<Rightarrow> bool" where
  "owns c ls es cs caps \<longleftrightarrow> dom (h_lists c) = ls \<and> dom (h_errors c) = es \<and> dom (h_configs c) = cs \<and> dom (h_caps c) = caps \<and>
     (\<forall>p \<in> ls \<union> es \<union> cs \<union> caps. p < h_next c)"

lemma fps_of_simps [simp]:
  "fps_of [] = []" "fps_of (x # l) = (case t_fingerprint x of None \<Rightarrow> [] | Some f \<Rightarrow> [f]) @ fps_of l"
  "fps_of (l @ l') = fps_of l @ fps_of l'"
  by (simp_all add: fps_of_def List.map_filter_def split: option.split)

lemma in_fps: "f \<in> set (fps_of l) \<longleftrightarrow> (\<exists>x \<in> set l. t_fingerprint x = Some f)"
  by (induction l) (auto split: option.splits)

lemma fps_of_all: "\<forall>x \<in> set l. t_fingerprint x \<noteq> None \<Longrightarrow> fps_of l = map (\<lambda>x. the (t_fingerprint x)) l"
  by (induction l) auto

lemma find_task_Some: "find_task_by_fingerprint f l = Some x \<Longrightarrow> x \<in> set l \<and> t_fingerprint x = Some f"
  by (induction l) (auto split: if_splits)

lemma find_task_None: "find_task_by_fingerprint f l = None \<longleftrightarrow> f \<notin> set (fps_of l)"
  by (induction l) (auto split: option.splits)

lemma find_task_unique:
  "tasks_wf l \<Longrightarrow> x \<in> set l \<Longrightarrow> t_fingerprint x = Some f \<Longrightarrow> find_task_by_fingerprint f l = Some x"
  by (induction l) (auto simp: tasks_wf_def in_fps split: option.splits)

text \<open>The survivors are the tasks of the old list that the new configuration names, in its order.\<close>

definition survivors :: "TaskConfig list \<Rightarrow> task_t list \<Rightarrow> task_t list" where
  "survivors ts cur = List.map_filter (\<lambda>t. tc_fingerprint t \<bind> (\<lambda>f. find_task_by_fingerprint f cur)) ts"

lemma surviving_tasks_total:
  "list_all (\<lambda>t. tc_fingerprint t \<noteq> None) ts \<Longrightarrow> \<exists>r. surviving_tasks env i ts cur = Some r"
  by (induction env i ts cur rule: surviving_tasks.induct) (auto split: option.splits)

lemma surviving_tasks_eq: "surviving_tasks env i ts cur = Some (Some l) \<Longrightarrow> l = survivors ts cur"
  by (induction env i ts cur arbitrary: l rule: surviving_tasks.induct)
    (auto simp: survivors_def List.map_filter_def split: option.splits if_splits)

lemma survivors_Cons:
  "survivors (t # ts) cur = (case tc_fingerprint t \<bind> (\<lambda>f. find_task_by_fingerprint f cur) of None \<Rightarrow> [] | Some x \<Rightarrow> [x]) @ survivors ts cur"
  by (simp add: survivors_def List.map_filter_def split: option.split)

lemma survivors_subset: "set (survivors ts cur) \<subseteq> set cur"
  by (auto simp: survivors_def List.map_filter_def bind_eq_Some_conv dest: find_task_Some)

lemma survivors_fps: "set (fps_of (survivors ts cur)) = set (fingerprints ts) \<inter> set (fps_of cur)"
proof (induction ts)
  case (Cons t ts)
  show ?case
  proof (cases "tc_fingerprint t")
    case None
    then show ?thesis using Cons by (simp add: survivors_Cons fingerprints_Cons)
  next
    case (Some f)
    show ?thesis
    proof (cases "find_task_by_fingerprint f cur")
      case None
      then have "f \<notin> set (fps_of cur)" by (simp add: find_task_None)
      then show ?thesis using Cons Some None by (auto simp: survivors_Cons fingerprints_Cons)
    next
      case (Some x)
      note x = find_task_Some [OF Some]
      then have "f \<in> set (fps_of cur)" unfolding in_fps by blast
      then show ?thesis using Cons Some x \<open>tc_fingerprint t = Some f\<close> by (auto simp: survivors_Cons fingerprints_Cons)
    qed
  qed
qed (simp add: survivors_def List.map_filter_def fingerprints_def)

lemma survivors_wf:
  assumes "tasks_wf cur" "distinct (fingerprints ts)"
  shows "tasks_wf (survivors ts cur)"
proof -
  have "distinct (fps_of (survivors ts cur))" using assms(2)
  proof (induction ts)
    case (Cons t ts)
    show ?case
    proof (cases "tc_fingerprint t \<bind> (\<lambda>f. find_task_by_fingerprint f cur)")
      case None
      then show ?thesis using Cons by (simp add: survivors_Cons fingerprints_Cons)
    next
      case (Some x)
      then obtain f where f: "tc_fingerprint t = Some f" "t_fingerprint x = Some f"
        using find_task_Some by (auto simp: bind_eq_Some_conv)
      have "f \<notin> set (fps_of (survivors ts cur))" using Cons.prems f(1) survivors_fps [of ts cur] by (simp add: fingerprints_Cons)
      then show ?thesis using Cons Some f by (simp add: survivors_Cons fingerprints_Cons)
    qed
  qed (simp add: survivors_def List.map_filter_def)
  moreover have "distinct (map t_task l)" if "distinct (fps_of l)" "set l \<subseteq> set cur" "\<forall>x \<in> set l. t_fingerprint x \<noteq> None" for l
    using that
  proof (induction l)
    case (Cons x l)
    have "t_task x \<notin> caps_of l"
    proof
      assume "t_task x \<in> caps_of l"
      then obtain y where y: "y \<in> set l" "t_task x = t_task y" by auto
      then have "x = y" using assms(1) Cons.prems(2) unfolding tasks_wf_def distinct_map by (auto dest: inj_onD)
      then show False using Cons.prems(1,3) y(1) by (auto simp: in_fps split: option.splits)
    qed
    then show ?case using Cons by simp
  qed simp
  moreover have "\<forall>x \<in> set (survivors ts cur). t_fingerprint x \<noteq> None"
    using find_task_Some by (fastforce simp: survivors_def List.map_filter_def bind_eq_Some_conv)
  ultimately show ?thesis using survivors_subset by (simp add: tasks_wf_def)
qed

section \<open>Destroying capture tasks\<close>

definition remove_caps :: "nat set \<Rightarrow> reload_ctl \<Rightarrow> reload_ctl" where
  "remove_caps ps c = c\<lparr>h_caps := h_caps c |` (- ps)\<rparr>"

lemma remove_caps_simps [simp]:
  "remove_caps {} c = c" "remove_caps qs (remove_caps ps c) = remove_caps (ps \<union> qs) c"
  "h_lists (remove_caps ps c) = h_lists c" "h_errors (remove_caps ps c) = h_errors c"
  "h_configs (remove_caps ps c) = h_configs c" "h_caps (remove_caps ps c) = h_caps c |` (- ps)" "h_next (remove_caps ps c) = h_next c"
  by (simp_all add: remove_caps_def Compl_Un) (simp add: restrict_map_def)

lemma capture_task_destroy_eq: "p \<in> dom (h_caps c) \<Longrightarrow> capture_task_destroy p c = Some (remove_caps {p} c)"
  by (auto simp: capture_task_destroy_def remove_caps_def restrict_map_def fun_eq_iff dom_def)

text \<open>The three loops that destroy the capture tasks of the members of a list that satisfy a condition.\<close>

definition caps_where :: "(task_t \<Rightarrow> bool) \<Rightarrow> task_t list \<Rightarrow> nat set" where
  "caps_where P l = t_task ` {x \<in> set l. P x}"

lemma caps_where_simps [simp]:
  "caps_where P [] = {}" "caps_where P (x # l) = (if P x then insert (t_task x) (caps_where P l) else caps_where P l)"
  by (auto simp: caps_where_def)

lemma caps_where_append [simp]: "caps_where P (l @ l') = caps_where P l \<union> caps_where P l'"
  by (auto simp: caps_where_def)

definition absent :: "task_t list \<Rightarrow> task_t \<Rightarrow> bool" where
  "absent l x \<longleftrightarrow> (case t_fingerprint x of None \<Rightarrow> True | Some f \<Rightarrow> f \<notin> set (fps_of l))"

lemma destroy_tasks_eq:
  "distinct (map t_task l) \<Longrightarrow> caps_of l \<subseteq> dom (h_caps c) \<Longrightarrow> destroy_tasks l c = Some (remove_caps (caps_of l) c)"
  by (induction l arbitrary: c) (auto simp: capture_task_destroy_eq)

lemma reclaim_tasks_eq:
  "distinct (map t_task l) \<Longrightarrow> caps_where (absent new) l \<subseteq> dom (h_caps c) \<Longrightarrow>
     reclaim_tasks new l c = Some (remove_caps (caps_where (absent new) l) c)"
proof (induction l arbitrary: c)
  case (Cons x l)
  have notin: "t_task x \<notin> caps_where (absent new) l" using Cons.prems(1) by (auto simp: caps_where_def)
  show ?case
  proof (cases "absent new x")
    case True
    then have "reclaim_tasks new (x # l) c = reclaim_tasks new l (remove_caps {t_task x} c)"
      using Cons.prems(2) by (simp add: absent_def capture_task_destroy_eq find_task_None split: option.splits)
    moreover have "reclaim_tasks new l (remove_caps {t_task x} c) = Some (remove_caps (caps_where (absent new) l) (remove_caps {t_task x} c))"
      using Cons.prems True notin by (intro Cons.IH) auto
    ultimately show ?thesis using True by simp
  next
    case False
    then show ?thesis using Cons by (auto simp: absent_def find_task_None split: option.splits)
  qed
qed simp

lemma destroy_new_tasks_eq:
  "distinct (map t_task (filter (absent cur) l)) \<Longrightarrow> caps_where (absent cur) l \<subseteq> dom (h_caps c) \<Longrightarrow>
   \<forall>x \<in> set l. t_fingerprint x \<noteq> None \<Longrightarrow> destroy_new_tasks cur l c = Some (remove_caps (caps_where (absent cur) l) c)"
proof (induction l arbitrary: c)
  case (Cons x l)
  obtain f where f: "t_fingerprint x = Some f" using Cons.prems(3) by auto
  show ?case
  proof (cases "absent cur x")
    case True
    have notin: "t_task x \<notin> caps_where (absent cur) l" using Cons.prems(1) True by (auto simp: caps_where_def)
    have "destroy_new_tasks cur (x # l) c = destroy_new_tasks cur l (remove_caps {t_task x} c)"
      using Cons.prems(2) True f by (simp add: absent_def capture_task_destroy_eq find_task_None)
    moreover have "destroy_new_tasks cur l (remove_caps {t_task x} c) = Some (remove_caps (caps_where (absent cur) l) (remove_caps {t_task x} c))"
      using Cons.prems True notin by (intro Cons.IH) auto
    ultimately show ?thesis using True by simp
  next
    case False
    then show ?thesis using Cons f by (simp add: absent_def find_task_None)
  qed
qed simp

section \<open>Building a task set\<close>

definition placed :: "task_t list \<Rightarrow> nat \<Rightarrow> nat \<Rightarrow> task_t \<Rightarrow> bool" where
  "placed cur lo hi x \<longleftrightarrow>
    (case t_fingerprint x of
       None \<Rightarrow> False
     | Some f \<Rightarrow>
         (case find_task_by_fingerprint f cur of
            Some e \<Rightarrow> t_task x = t_task e
          | None \<Rightarrow> lo \<le> t_task x \<and> t_task x < hi))"

definition built :: "task_t list \<Rightarrow> reload_ctl \<Rightarrow> task_t list \<Rightarrow> reload_ctl \<Rightarrow> bool" where
  "built cur c0 tasks c \<longleftrightarrow>
     c\<lparr>h_caps := h_caps c0, h_next := h_next c0\<rparr> = c0 \<and> h_next c0 \<le> h_next c \<and>
     h_caps c0 \<subseteq>\<^sub>m h_caps c \<and> dom (h_caps c) = dom (h_caps c0) \<union> caps_where (absent cur) tasks \<and>
     (\<forall>x \<in> set tasks. absent cur x \<longrightarrow> (\<exists>t. h_caps c (t_task x) = Some t \<and> tc_fingerprint t = t_fingerprint x)) \<and>
     distinct (map t_task (filter (absent cur) tasks)) \<and>
     (\<forall>x \<in> set tasks. placed cur (h_next c0) (h_next c) x)"

lemma placed_mono: "placed cur lo hi x \<Longrightarrow> hi \<le> hi' \<Longrightarrow> placed cur lo hi' x"
  by (auto simp: placed_def split: option.splits)

lemma placed_absent: "placed cur lo hi x \<Longrightarrow> absent cur x \<Longrightarrow> lo \<le> t_task x \<and> t_task x < hi"
  by (auto simp: placed_def absent_def find_task_None [symmetric] split: option.splits)

lemma built_start: "built cur c [] c"
  by (simp add: built_def)

lemma built_reuse:
  assumes "built cur c0 tasks c" "find_task_by_fingerprint f cur = Some e"
  shows "built cur c0 (tasks @ [\<lparr>t_index = i, t_fingerprint = Some f, t_task = t_task e\<rparr>]) c"
proof -
  have "f \<in> set (fps_of cur)" using assms(2) find_task_None [of f cur] by simp
  then have "\<not> absent cur \<lparr>t_index = i, t_fingerprint = Some f, t_task = t_task e\<rparr>" by (simp add: absent_def)
  then show ?thesis using assms by (auto simp: built_def caps_where_def placed_def)
qed

lemma built_grow: "built cur c0 tasks c \<Longrightarrow> built cur c0 tasks (c\<lparr>h_next := h_next c + 1\<rparr>)"
  by (auto simp: built_def intro: placed_mono)

lemma built_new:
  assumes "built cur c0 tasks c" "find_task_by_fingerprint f cur = None" "alloc_cap t c = (p, c')"
    "\<forall>q \<in> dom (h_caps c). q < h_next c" "tc_fingerprint t = Some f"
  shows "built cur c0 (tasks @ [\<lparr>t_index = i, t_fingerprint = Some f, t_task = p\<rparr>]) c'"
proof -
  let ?x = "\<lparr>t_index = i, t_fingerprint = Some f, t_task = p\<rparr>"
  have p: "p = h_next c" "c' = c\<lparr>h_caps := (h_caps c)(p \<mapsto> t), h_next := h_next c + 1\<rparr>" using assms(3) by (auto simp: alloc_cap_def)
  have a: "absent cur ?x" using assms(2) by (simp add: absent_def find_task_None)
  have lt: "\<forall>x \<in> set tasks. absent cur x \<longrightarrow> t_task x < p" using assms(1) p(1) placed_absent unfolding built_def by blast
  have "placed cur (h_next c0) (h_next c') x" if "x \<in> set (tasks @ [?x])" for x
  proof (cases "x = ?x")
    case True
    then show ?thesis using assms(1,2) p by (simp add: built_def placed_def)
  next
    case False
    then show ?thesis using that assms(1) p by (auto simp: built_def intro: placed_mono)
  qed
  moreover have "caps_where (absent cur) (tasks @ [?x]) = insert p (caps_where (absent cur) tasks)" using a by simp
  moreover have "distinct (map t_task (filter (absent cur) (tasks @ [?x])))" using a lt assms(1) by (auto simp: built_def)
  moreover have "h_caps c0 \<subseteq>\<^sub>m h_caps c'"
    using assms(1,4) p by (auto simp: built_def map_le_def)
  moreover have "\<exists>t. h_caps c' (t_task x) = Some t \<and> tc_fingerprint t = t_fingerprint x" if "x \<in> set (tasks @ [?x])" "absent cur x" for x
    using that assms(1,5) lt p by (auto simp: built_def)
  ultimately show ?thesis using assms(1) unfolding built_def p(2) by simp
qed

lemma built_destroy:
  assumes "built cur c0 tasks c" "\<forall>q \<in> dom (h_caps c). q < h_next c" "alloc_cap t c = (p, c')"
  shows "\<exists>c''. capture_task_destroy p c' = Some c'' \<and> built cur c0 tasks c''"
proof -
  have p: "p = h_next c" "c' = c\<lparr>h_caps := (h_caps c)(p \<mapsto> t), h_next := h_next c + 1\<rparr>" using assms(3) by (auto simp: alloc_cap_def)
  have "p \<notin> dom (h_caps c)" using assms(2) p(1) by auto
  then have "h_caps c = (h_caps c)(p := None)" by (auto simp: fun_eq_iff domIff)
  then have "capture_task_destroy p c' = Some (c\<lparr>h_next := h_next c + 1\<rparr>)" using p(2) by (simp add: capture_task_destroy_def)
  then show ?thesis using built_grow [OF assms(1)] by blast
qed

lemma built_dom:
  assumes "built cur c0 tasks c" "\<forall>q \<in> dom (h_caps c0). q < h_next c0"
  shows "\<forall>q \<in> dom (h_caps c). q < h_next c"
proof
  fix q assume "q \<in> dom (h_caps c)"
  then consider "q \<in> dom (h_caps c0)" | x where "x \<in> set tasks" "absent cur x" "q = t_task x"
    using assms(1) by (auto simp: built_def caps_where_def)
  then show "q < h_next c"
  proof cases
    case 1
    moreover have "h_next c0 \<le> h_next c" using assms(1) by (simp add: built_def)
    ultimately show ?thesis using assms(2) by (meson less_le_trans)
  next
    case 2
    then show ?thesis using assms(1) placed_absent by (auto simp: built_def)
  qed
qed

text \<open>What the loop of \<open>build_full_task_set\<close> returns, given what it started with.\<close>

definition build_result :: "task_t list \<Rightarrow> reload_ctl \<Rightarrow> task_t list \<Rightarrow> TaskConfig list \<Rightarrow>
    (bool \<times> task_t list \<times> task_error_t list \<times> reload_ctl) option \<Rightarrow> bool" where
  "build_result cur c0 tasks ts r \<longleftrightarrow>
    (\<exists>ok tasks' errors' c' fs. r = Some (ok, tasks', errors', c') \<and> built cur c0 tasks' c' \<and>
       fps_of tasks' = fps_of tasks @ fs \<and> subseq fs (fingerprints ts) \<and>
       (ok \<longrightarrow> set (fingerprints ts) \<inter> set (fps_of cur) \<subseteq> set fs))"

lemma build_result_stop: "built cur c0 tasks c \<Longrightarrow> build_result cur c0 tasks ts (Some (False, tasks, errors, c))"
  by (auto simp: build_result_def)

lemma build_result_skip:
  "build_result cur c0 tasks ts r \<Longrightarrow> tc_fingerprint t = Some f \<Longrightarrow> f \<notin> set (fps_of cur) \<Longrightarrow> build_result cur c0 tasks (t # ts) r"
  unfolding build_result_def fingerprints_Cons by fastforce

lemma build_result_add:
  assumes "build_result cur c0 (tasks @ [x]) ts r" "tc_fingerprint t = Some f" "t_fingerprint x = Some f"
  shows "build_result cur c0 tasks (t # ts) r"
proof -
  obtain ok tasks' errors' c' fs where r: "r = Some (ok, tasks', errors', c')" "built cur c0 tasks' c'"
    "fps_of tasks' = fps_of tasks @ f # fs" "subseq fs (fingerprints ts)" "ok \<longrightarrow> set (fingerprints ts) \<inter> set (fps_of cur) \<subseteq> set fs"
    using assms by (auto simp: build_result_def)
  have "fingerprints (t # ts) = f # fingerprints ts" using assms(2) by (simp add: fingerprints_Cons)
  then show ?thesis unfolding build_result_def using r
    by (intro exI [of _ ok] exI [of _ tasks'] exI [of _ errors'] exI [of _ c'] exI [of _ "f # fs"]) auto
qed

lemma build_tasks_built:
  assumes "list_all (\<lambda>t. tc_fingerprint t \<noteq> None) ts" "built cur c0 tasks c" "\<forall>q \<in> dom (h_caps c0). q < h_next c0"
  shows "build_result cur c0 tasks ts (build_tasks env i ts cur tasks errors c)"
  using assms(1,2)
proof (induction ts arbitrary: i tasks errors c)
  case Nil
  then show ?case by (auto simp: fingerprints_def build_result_def)
next
  case (Cons t ts)
  obtain f where f: "tc_fingerprint t = Some f" using Cons.prems(1) by auto
  have ts: "list_all (\<lambda>t. tc_fingerprint t \<noteq> None) ts" using Cons.prems(1) by simp
  note stop = build_result_stop [OF Cons.prems(2), of "t # ts"]
  show ?case
  proof (cases "find_task_by_fingerprint f cur")
    case (Some e)
    note IH = build_result_add [OF Cons.IH [OF ts built_reuse [OF Cons.prems(2) Some]] f]
    show ?thesis using f Some IH stop by simp
  next
    case None
    then have nf: "f \<notin> set (fps_of cur)" by (simp add: find_task_None)
    obtain p c' where p: "alloc_cap t c = (p, c')" by (rule prod.exhaust)
    note IH = build_result_add [OF Cons.IH [OF ts built_new [OF Cons.prems(2) None p built_dom [OF Cons.prems(2) assms(3)] f]] f]
    note err = build_result_skip [OF Cons.IH [OF ts Cons.prems(2)] f nf]
    obtain c'' where d: "capture_task_destroy p c' = Some c''" "built cur c0 tasks c''"
      using built_destroy [OF Cons.prems(2) built_dom [OF Cons.prems(2) assms(3)] p] by blast
    show ?thesis using f None p d(1) IH err stop build_result_stop [OF d(2)] by (simp split: option.split)
  qed
qed

lemma distinct_subseq: "subseq xs ys \<Longrightarrow> distinct ys \<Longrightarrow> distinct xs"
  by (induction rule: list_emb.induct) (auto dest: list_emb_set)

lemma built_caps_of:
  assumes "built L c0 N c" "caps_of L \<subseteq> dom (h_caps c0)"
  shows "dom (h_caps c) = dom (h_caps c0) \<union> caps_of N"
proof -
  have "t_task x \<in> dom (h_caps c0)" if x: "x \<in> set N" "\<not> absent L x" for x
  proof -
    have "placed L (h_next c0) (h_next c) x" using assms(1) x(1) by (simp add: built_def)
    then obtain e f where "find_task_by_fingerprint f L = Some e" "t_task x = t_task e"
      using x(2) find_task_None by (auto simp: placed_def absent_def split: option.splits)
    then have "e \<in> set L" "t_task x = t_task e" using find_task_Some by blast+
    then show ?thesis using assms(2) by auto
  qed
  then have "dom (h_caps c0) \<union> caps_of N = dom (h_caps c0) \<union> caps_where (absent L) N" by (auto simp: caps_where_def)
  then show ?thesis using assms(1) by (simp add: built_def)
qed

lemma built_undo:
  assumes "built L c0 N c" "\<forall>q \<in> dom (h_caps c0). q < h_next c0"
  shows "destroy_new_tasks L N c = Some (remove_caps (caps_where (absent L) N) c)"
    "h_caps c |` (- caps_where (absent L) N) = h_caps c0"
proof -
  have place: "placed L (h_next c0) (h_next c) x" if "x \<in> set N" for x using assms(1) that by (simp add: built_def)
  then have "\<forall>x \<in> set N. t_fingerprint x \<noteq> None" unfolding placed_def by (metis option.simps(4))
  then show "destroy_new_tasks L N c = Some (remove_caps (caps_where (absent L) N) c)"
    using assms(1) by (intro destroy_new_tasks_eq) (simp_all add: built_def)
  have "h_next c0 \<le> q" if "q \<in> caps_where (absent L) N" for q
    using that placed_absent [OF place] by (auto simp: caps_where_def)
  then have dis: "dom (h_caps c0) \<inter> caps_where (absent L) N = {}" using assms(2) by (meson disjoint_iff not_less)
  show "h_caps c |` (- caps_where (absent L) N) = h_caps c0"
  proof
    fix q
    show "(h_caps c |` (- caps_where (absent L) N)) q = h_caps c0 q"
    proof (cases "q \<in> dom (h_caps c0)")
      case True
      then show ?thesis using dis assms(1) by (auto simp: built_def map_le_def restrict_map_def)
    next
      case False
      then have "h_caps c0 q = None" "h_caps c q = None \<or> q \<in> caps_where (absent L) N" using assms(1) by (auto simp: built_def domIff)
      then show ?thesis by (auto simp: restrict_map_def)
    qed
  qed
qed

text \<open>How the new list relates to the old one: the old tasks that the new list names keep their capture task, and the
  others are not in it.\<close>

definition linked :: "task_t list \<Rightarrow> task_t list \<Rightarrow> bool" where
  "linked old new \<longleftrightarrow> (\<forall>x \<in> set old. t_task x \<in> caps_of new \<longleftrightarrow> \<not> absent new x)"

lemma built_linked:
  assumes "built old c0 new c" "tasks_wf old" "caps_of old \<subseteq> dom (h_caps c0)" "\<forall>q \<in> dom (h_caps c0). q < h_next c0"
    "distinct (fps_of new)"
  shows "linked old new" "tasks_wf new"
proof -
  have place: "placed old (h_next c0) (h_next c) y" if "y \<in> set new" for y using assms(1) that by (simp add: built_def)
  have some: "\<exists>f. t_fingerprint y = Some f" if "y \<in> set new" for y
    using place [OF that] by (cases "t_fingerprint y") (simp_all add: placed_def)
  have lt: "t_task x < h_next c0" if "x \<in> set old" for x using assms(3,4) that by auto
  have same: "t_fingerprint x = t_fingerprint y" if xy: "x \<in> set old" "y \<in> set new" "t_task x = t_task y" for x y
  proof -
    obtain f where f: "t_fingerprint y = Some f" using some xy(2) by blast
    obtain e where e: "find_task_by_fingerprint f old = Some e"
      using place [OF xy(2)] f lt [OF xy(1)] xy(3) by (auto simp: placed_def split: option.splits)
    then have "t_task e = t_task x" using place [OF xy(2)] f xy(3) by (simp add: placed_def)
    then have "e = x" using find_task_Some [OF e] xy(1) assms(2) unfolding tasks_wf_def distinct_map by (auto dest: inj_onD)
    then show ?thesis using find_task_Some [OF e] f by simp
  qed
  show "linked old new" unfolding linked_def
  proof (intro ballI iffI)
    fix x assume x: "x \<in> set old" "t_task x \<in> caps_of new"
    then obtain y where y: "y \<in> set new" "t_task x = t_task y" by auto
    then obtain f where "t_fingerprint y = Some f" using some by blast
    then show "\<not> absent new x" using same [OF x(1) y] y(1) by (auto simp: absent_def in_fps)
  next
    fix x assume x: "x \<in> set old" "\<not> absent new x"
    then obtain f y where f: "t_fingerprint x = Some f" "y \<in> set new" "t_fingerprint y = Some f"
      by (auto simp: absent_def in_fps split: option.splits)
    then have "t_task y = t_task x" using place [OF f(2)] find_task_unique [OF assms(2) x(1) f(1)] by (simp add: placed_def)
    then show "t_task x \<in> caps_of new" using f(2) by (metis imageI)
  qed
  have fps: "fps_of new = map (\<lambda>x. the (t_fingerprint x)) new" "\<forall>x \<in> set new. t_fingerprint x \<noteq> None"
    using some fps_of_all by fastforce+
  have inj: "y = z" if yz: "y \<in> set new" "z \<in> set new" "t_fingerprint y = t_fingerprint z" for y z
    using yz assms(5) unfolding fps(1) distinct_map by (simp add: inj_on_def)
  have "y = z" if yz: "y \<in> set new" "z \<in> set new" "t_task y = t_task z" for y z
  proof (cases "t_task y < h_next c0")
    case True
    have old: "\<exists>e \<in> set old. t_task e = t_task w" if w: "w \<in> set new" "t_task w < h_next c0" for w
      using place [OF w(1)] w(2) find_task_Some by (fastforce simp: placed_def split: option.splits)
    obtain e where "e \<in> set old" "t_task e = t_task y" using old yz(1) True by blast
    then show ?thesis using same [of e y] same [of e z] yz inj by simp
  next
    case False
    have fresh: "absent old w" if w: "w \<in> set new" "\<not> t_task w < h_next c0" for w
    proof (rule ccontr)
      assume "\<not> absent old w"
      then have "\<exists>e \<in> set old. t_task e = t_task w" using place [OF w(1)] find_task_None find_task_Some
        by (fastforce simp: placed_def absent_def split: option.splits)
      then show False using lt w(2) by metis
    qed
    have "distinct (map t_task (filter (absent old) new))" using assms(1) by (simp add: built_def)
    then show ?thesis using fresh yz False unfolding distinct_map by (auto dest: inj_onD)
  qed
  moreover have "distinct new" using assms(5) unfolding fps(1) by (simp add: distinct_map)
  ultimately show "tasks_wf new" using assms(5) by (auto simp: tasks_wf_def distinct_map intro: inj_onI)
qed

end
