(* ===== verification/Reload.thy ===== *)
theory Reload
  imports Reload_Tasks
begin

text \<open>
  Properties of the reload protocol of the task manager: memory safety under every interleaving of the threads, exact
  ownership when no reload is in progress, and progress.
\<close>

section \<open>The stages of a reload\<close>

text \<open>Where a reload is, with the addresses that are in transit: the old task list, the survivors, the new task list, the new
  error list and the new configuration.  Each stage says who owns what: the allocated addresses are exactly those the task
  manager, the messages and the context of the reload thread refer to.\<close>

datatype stage = Idle | Planning | Plan_failed | Survived nat nat | Building nat nat | Build_failed nat
  | Rebuilt nat nat nat nat | Reclaiming nat nat nat | Reclaimed

definition ctx_clear :: "reload_ctl \<Rightarrow> bool" where
  "ctx_clear c \<longleftrightarrow> ctx_new_config c = None \<and> ctx_current_tasks c = None \<and> ctx_old_tasks c = None"

definition waiting :: "reload_ctl \<Rightarrow> bool" where
  "waiting c \<longleftrightarrow> reload_pc c = R_top \<or> reload_pc c = R_recv"

definition settled :: "reload_ctl \<Rightarrow> bool" where
  "settled c \<longleftrightarrow> ctx_clear c \<and> waiting c \<and> (\<exists>L. h_lists c (mgr_tasks c) = Some L \<and> tasks_wf L \<and>
     owns c {mgr_tasks c} {mgr_errors c} {mgr_config c} (caps_of L))"

definition loadable :: "Config \<Rightarrow> bool" where
  "loadable cfg \<longleftrightarrow> validate_fingerprints cfg \<and> distinct (fingerprints (cf_tasks cfg))"

fun at_stage :: "stage \<Rightarrow> reload_ctl \<Rightarrow> bool" where
  "at_stage Idle c \<longleftrightarrow> reload_phase c = RELOAD_PHASE_IDLE \<and> main_mbox c = None \<and> reload_mbox c = None \<and> settled c"
| "at_stage Planning c \<longleftrightarrow> reload_phase c = RELOAD_PHASE_AWAITING_SURVIVORS \<and> main_mbox c = None \<and>
     reload_mbox c = Some (RELOAD_REQ_PLAN (mgr_tasks c)) \<and> settled c"
| "at_stage Plan_failed c \<longleftrightarrow> reload_phase c = RELOAD_PHASE_AWAITING_SURVIVORS \<and> main_mbox c = Some (RELOAD_RPT_ERROR None) \<and>
     reload_mbox c = None \<and> settled c"
| "at_stage (Survived sl nc) c \<longleftrightarrow> reload_phase c = RELOAD_PHASE_AWAITING_SURVIVORS \<and> main_mbox c = Some (RELOAD_RPT_SURVIVORS sl) \<and>
     reload_mbox c = None \<and> waiting c \<and> ctx_new_config c = Some nc \<and> ctx_current_tasks c = Some (mgr_tasks c) \<and> ctx_old_tasks c = None \<and>
     sl \<noteq> mgr_tasks c \<and> nc \<noteq> mgr_config c \<and>
     (\<exists>L cfg. h_lists c (mgr_tasks c) = Some L \<and> tasks_wf L \<and> h_configs c nc = Some cfg \<and> loadable cfg \<and>
        h_lists c sl = Some (survivors (cf_tasks cfg) L) \<and>
        owns c {mgr_tasks c, sl} {mgr_errors c} {mgr_config c, nc} (caps_of L))"
| "at_stage (Building old nc) c \<longleftrightarrow> reload_phase c = RELOAD_PHASE_AWAITING_NEW_TASKS \<and> main_mbox c = None \<and>
     reload_mbox c = Some (RELOAD_REQ_BUILD old) \<and> waiting c \<and> ctx_new_config c = Some nc \<and> ctx_current_tasks c = Some old \<and>
     ctx_old_tasks c = None \<and> old \<noteq> mgr_tasks c \<and> nc \<noteq> mgr_config c \<and>
     (\<exists>L cfg. h_lists c old = Some L \<and> tasks_wf L \<and> h_configs c nc = Some cfg \<and> loadable cfg \<and>
        h_lists c (mgr_tasks c) = Some (survivors (cf_tasks cfg) L) \<and>
        owns c {mgr_tasks c, old} {mgr_errors c} {mgr_config c, nc} (caps_of L))"
| "at_stage (Build_failed old) c \<longleftrightarrow> reload_phase c = RELOAD_PHASE_AWAITING_NEW_TASKS \<and> main_mbox c = Some (RELOAD_RPT_ERROR (Some old)) \<and>
     reload_mbox c = None \<and> waiting c \<and> ctx_clear c \<and> old \<noteq> mgr_tasks c \<and>
     (\<exists>L S. h_lists c old = Some L \<and> tasks_wf L \<and> h_lists c (mgr_tasks c) = Some S \<and> set S \<subseteq> set L \<and>
        owns c {mgr_tasks c, old} {mgr_errors c} {mgr_config c} (caps_of L))"
| "at_stage (Rebuilt old nt ne nc) c \<longleftrightarrow> reload_phase c = RELOAD_PHASE_AWAITING_NEW_TASKS \<and>
     main_mbox c = Some (RELOAD_RPT_NEW_TASKS nc nt ne) \<and> reload_mbox c = None \<and> waiting c \<and> ctx_new_config c = None \<and>
     ctx_old_tasks c = Some old \<and> distinct [mgr_tasks c, old, nt] \<and> nc \<noteq> mgr_config c \<and> ne \<noteq> mgr_errors c \<and>
     (\<exists>L N S. h_lists c old = Some L \<and> tasks_wf L \<and> h_lists c nt = Some N \<and> tasks_wf N \<and> linked L N \<and>
        h_lists c (mgr_tasks c) = Some S \<and> set S \<subseteq> set L \<and>
        owns c {mgr_tasks c, old, nt} {mgr_errors c, ne} {mgr_config c, nc} (caps_of L \<union> caps_of N))"
| "at_stage (Reclaiming old oc oe) c \<longleftrightarrow> reload_phase c = RELOAD_PHASE_AWAITING_RECLAIM \<and> main_mbox c = None \<and>
     (let msg = RELOAD_REQ_RECLAIM oc oe (mgr_tasks c) in
      reload_mbox c = Some msg \<and> waiting c \<or> reload_mbox c = None \<and> (reload_pc c = R_wait msg \<or> reload_pc c = R_free msg)) \<and>
     ctx_new_config c = None \<and> ctx_old_tasks c = Some old \<and> old \<noteq> mgr_tasks c \<and> oc \<noteq> mgr_config c \<and> oe \<noteq> mgr_errors c \<and>
     (\<exists>L N. h_lists c old = Some L \<and> tasks_wf L \<and> h_lists c (mgr_tasks c) = Some N \<and> tasks_wf N \<and> linked L N \<and>
        owns c {mgr_tasks c, old} {mgr_errors c, oe} {mgr_config c, oc} (caps_of L \<union> caps_of N))"
| "at_stage Reclaimed c \<longleftrightarrow> reload_phase c = RELOAD_PHASE_AWAITING_RECLAIM \<and> main_mbox c = Some RELOAD_RPT_RECLAIMED \<and>
     reload_mbox c = None \<and> settled c"

lemma stage_tasks:
  assumes "at_stage st c"
  shows "\<exists>S. h_lists c (mgr_tasks c) = Some S \<and> caps_of S \<subseteq> dom (h_caps c)"
  using assms survivors_subset by (cases st) (fastforce simp: settled_def owns_def)+

section \<open>The main thread's part\<close>

text \<open>Where a reload is after the main thread has looked into its mailbox.\<close>

fun main_next :: "reload_ctl \<Rightarrow> stage \<Rightarrow> stage" where
  "main_next c (Survived sl nc) = Building (mgr_tasks c) nc"
| "main_next c (Rebuilt old nt ne nc) = Reclaiming old (mgr_config c) (mgr_errors c)"
| "main_next c (Building old nc) = Building old nc"
| "main_next c (Reclaiming old oc oe) = Reclaiming old oc oe"
| "main_next c Planning = Planning"
| "main_next c _ = (if reload_signal c then Planning else Idle)"

lemma settled_simps [simp]:
  "settled (c\<lparr>main_mbox := a\<rparr>) = settled c" "settled (c\<lparr>reload_mbox := b\<rparr>) = settled c"
  "settled (c\<lparr>reload_phase := p\<rparr>) = settled c" "settled (c\<lparr>reload_signal := q\<rparr>) = settled c"
  by (simp_all add: settled_def ctx_clear_def waiting_def owns_def)

lemma start_stage:
  "reload_phase c = RELOAD_PHASE_IDLE \<Longrightarrow> main_mbox c = None \<Longrightarrow> reload_mbox c = None \<Longrightarrow> settled c \<Longrightarrow>
     at_stage (if reload_signal c then Planning else Idle) (try_start_reload c)"
  by (simp add: try_start_reload_def)

text \<open>What a cycle leaves alone.\<close>

definition same_caps :: "reload_ctl \<Rightarrow> reload_ctl \<Rightarrow> bool" where
  "same_caps c c' \<longleftrightarrow> h_caps c' = h_caps c \<and> reload_pc c' = reload_pc c \<and> mgr_model c' = mgr_model c \<and> (waiting c \<or> c' = c)"

lemma same_caps_start: "same_caps c c1 \<Longrightarrow> waiting c \<Longrightarrow> same_caps c (try_start_reload c1)"
  by (simp add: same_caps_def try_start_reload_def)

lemma cycle_idle:
  assumes "main_mbox c = None" "reload_phase c \<noteq> RELOAD_PHASE_IDLE"
  shows "task_manager_reload_cycle c = Some c"
  using assms by (simp add: task_manager_reload_cycle_def try_start_reload_def)

lemma cycle_survived:
  assumes "at_stage (Survived sl nc) c"
  shows "\<exists>c'. task_manager_reload_cycle c = Some c' \<and> at_stage (Building (mgr_tasks c) nc) c' \<and> same_caps c c'"
proof -
  let ?c = "c\<lparr>main_mbox := None, mgr_tasks := sl, reload_mbox := Some (RELOAD_REQ_BUILD (mgr_tasks c)),
    reload_phase := RELOAD_PHASE_AWAITING_NEW_TASKS\<rparr>"
  have "task_manager_reload_cycle c = Some ?c"
    using assms by (simp add: task_manager_reload_cycle_def main_handle_survivors_def try_start_reload_def)
  moreover have "at_stage (Building (mgr_tasks c) nc) ?c"
    using assms by (auto simp: waiting_def owns_def insert_commute)
  moreover have "same_caps c ?c" using assms by (simp add: same_caps_def)
  ultimately show ?thesis by blast
qed

lemma cycle_build_failed:
  assumes "at_stage (Build_failed old) c"
  shows "\<exists>c'. task_manager_reload_cycle c = Some c' \<and> at_stage (main_next c (Build_failed old)) c' \<and> same_caps c c'"
proof -
  obtain L S where h: "h_lists c old = Some L" "tasks_wf L" "h_lists c (mgr_tasks c) = Some S"
    "owns c {mgr_tasks c, old} {mgr_errors c} {mgr_config c} (caps_of L)" "old \<noteq> mgr_tasks c" using assms by auto
  define c1 where "c1 = c\<lparr>main_mbox := None, h_lists := (h_lists c)(mgr_tasks c := None), mgr_tasks := old, reload_phase := RELOAD_PHASE_IDLE\<rparr>"
  have "owns c1 {old} {mgr_errors c} {mgr_config c} (caps_of L)" using h(4,5) by (auto simp: owns_def c1_def)
  then have s: "settled c1" using assms h(1,2,5) unfolding c1_def by (simp add: settled_def ctx_clear_def waiting_def)
  have "task_manager_reload_cycle c = Some (try_start_reload c1)"
    using assms h(3)
    by (simp add: task_manager_reload_cycle_def main_handle_new_tasks_def restore_full_list_on_build_failure_def free_task_list_wrappers_def c1_def)
  moreover have "same_caps c (try_start_reload c1)" using assms by (intro same_caps_start) (simp_all add: same_caps_def c1_def)
  ultimately show ?thesis using start_stage [OF _ _ _ s] assms by (simp add: c1_def)
qed

lemma cycle_rebuilt:
  assumes "at_stage (Rebuilt old nt ne nc) c"
  shows "\<exists>c'. task_manager_reload_cycle c = Some c' \<and> at_stage (Reclaiming old (mgr_config c) (mgr_errors c)) c' \<and> same_caps c c'"
proof -
  obtain L N S where h: "h_lists c old = Some L" "tasks_wf L" "h_lists c nt = Some N" "tasks_wf N" "linked L N" "h_lists c (mgr_tasks c) = Some S"
    "owns c {mgr_tasks c, old, nt} {mgr_errors c, ne} {mgr_config c, nc} (caps_of L \<union> caps_of N)" "distinct [mgr_tasks c, old, nt]"
    using assms by auto
  have "nc \<in> dom (h_configs c)" using h(7) by (simp add: owns_def)
  then obtain cfg where cfg: "h_configs c nc = Some cfg" by blast
  define cap where "cap = (if mgr_model c = EXECUTION_MODEL_PIPELINE \<and> cf_execution_model cfg = EXECUTION_MODEL_PIPELINE
    then cf_buffer_size_mb cfg * 1024 * 1024 else mgr_capacity c)"
  define c1 where "c1 = c\<lparr>main_mbox := None, h_lists := (h_lists c)(mgr_tasks c := None), mgr_tasks := nt, mgr_errors := ne, mgr_config := nc,
    mgr_capacity := cap, reload_mbox := Some (RELOAD_REQ_RECLAIM (mgr_config c) (mgr_errors c) nt), reload_phase := RELOAD_PHASE_AWAITING_RECLAIM\<rparr>"
  have "task_manager_reload_cycle c = Some c1"
    using assms h(6) cfg by (simp add: task_manager_reload_cycle_def main_handle_new_tasks_def free_task_list_wrappers_def
        try_start_reload_def c1_def cap_def Let_def)
  moreover have "owns c1 {nt, old} {ne, mgr_errors c} {nc, mgr_config c} (caps_of L \<union> caps_of N)" using h(7,8) by (auto simp: owns_def c1_def)
  then have "at_stage (Reclaiming old (mgr_config c) (mgr_errors c)) c1" using assms h unfolding c1_def by (auto simp: waiting_def Let_def)
  moreover have "same_caps c c1" using assms by (simp add: same_caps_def c1_def)
  ultimately show ?thesis by blast
qed

lemma cycle_done:
  assumes "settled c" "reload_mbox c = None"
    "main_mbox c = None \<and> reload_phase c = RELOAD_PHASE_IDLE \<or>
     main_mbox c = Some (RELOAD_RPT_ERROR None) \<and> reload_phase c = RELOAD_PHASE_AWAITING_SURVIVORS \<or>
     main_mbox c = Some RELOAD_RPT_RECLAIMED \<and> reload_phase c = RELOAD_PHASE_AWAITING_RECLAIM"
  shows "\<exists>c'. task_manager_reload_cycle c = Some c' \<and> at_stage (if reload_signal c then Planning else Idle) c' \<and> same_caps c c'"
proof -
  let ?c = "c\<lparr>main_mbox := None, reload_phase := RELOAD_PHASE_IDLE\<rparr>"
  have e: "?c = c" if "main_mbox c = None" "reload_phase c = RELOAD_PHASE_IDLE" using that by (cases c) simp
  have "task_manager_reload_cycle c = Some (try_start_reload ?c)" using assms(3)
    by (elim disjE) (simp_all add: e task_manager_reload_cycle_def main_handle_survivors_def main_handle_reclaimed_def)
  moreover have "same_caps c (try_start_reload ?c)" using assms(1) by (intro same_caps_start) (simp_all add: same_caps_def settled_def)
  ultimately show ?thesis using start_stage [of ?c] assms(1,2) by simp
qed

lemma cycle_stage:
  assumes "at_stage st c"
  shows "\<exists>c'. task_manager_reload_cycle c = Some c' \<and> at_stage (main_next c st) c' \<and> same_caps c c'"
proof (cases st)
  case (Survived sl nc)
  then show ?thesis using cycle_survived assms unfolding Survived main_next.simps by blast
next
  case (Build_failed old)
  then show ?thesis using cycle_build_failed assms unfolding Build_failed by blast
next
  case (Rebuilt old nt ne nc)
  then show ?thesis using cycle_rebuilt assms unfolding Rebuilt main_next.simps by blast
next
  case Idle
  then show ?thesis using assms cycle_done [of c] unfolding Idle main_next.simps at_stage.simps(1) by blast
next
  case Plan_failed
  then show ?thesis using assms cycle_done [of c] unfolding Plan_failed main_next.simps at_stage.simps(3) by blast
next
  case Reclaimed
  then show ?thesis using assms cycle_done [of c] unfolding Reclaimed main_next.simps at_stage.simps(9) by blast
qed (use assms cycle_idle [of c] in \<open>simp_all add: same_caps_def\<close>)

section \<open>The reload thread's part\<close>

lemma parsed_fingerprints:
  assumes "parse_config_file env = Some cfg"
  shows "distinct (fingerprints (cf_tasks cfg))"
proof -
  obtain json where "parse_config_json (in_mem env) json = Inr cfg"
    using assms by (auto simp: parse_config_file_def split: option.splits sum.splits)
  then have "parse_tasks_json (in_mem env) json = Inr (cf_tasks cfg)"
    unfolding parse_config_json_def by (auto simp: bindE_Inr split: if_splits)
  then have "tasks_ok (cf_tasks cfg)"
    by (auto simp: parse_tasks_json_def tasks_ok_def fingerprints_def split: option.splits cJSON.splits if_splits dest: parse_tasks_ok [where ts = "[]"])
  then show ?thesis by (simp add: tasks_ok_def)
qed

text \<open>An address that is allocated and freed again leaves the next address as the only trace.\<close>

lemma settled_next: "settled c \<Longrightarrow> h_next c \<le> n \<Longrightarrow> settled (c\<lparr>h_next := n\<rparr>)"
  unfolding settled_def owns_def ctx_clear_def waiting_def by fastforce

lemma alloc_free_config:
  assumes "alloc_config cfg c = (p, c1)" "h_next c \<notin> dom (h_configs c)"
  shows "free_config p c1 = Some (c\<lparr>h_next := h_next c + 1\<rparr>)"
proof -
  have "h_configs c (h_next c) = None" using assms(2) by (simp add: domIff)
  then have "h_configs c = (h_configs c)(h_next c := None)" by (auto simp: fun_eq_iff)
  then show ?thesis using assms(1) by (auto simp: alloc_config_def free_config_def)
qed

text \<open>What a step of the reload thread leaves to the main thread while it plans or builds.\<close>

definition keeps_polling :: "reload_ctl \<Rightarrow> reload_ctl \<Rightarrow> bool" where
  "keeps_polling c c' \<longleftrightarrow> mgr_tasks c' = mgr_tasks c \<and> h_lists c' (mgr_tasks c) = h_lists c (mgr_tasks c) \<and>
     mgr_model c' = mgr_model c \<and> dom (h_caps c) \<subseteq> dom (h_caps c') \<and> waiting c'"

declare at_stage.simps [simp del]

lemma plan_failed_stage:
  assumes "at_stage Planning c" "h_next c \<le> n"
  shows "at_stage Plan_failed (reload_ctx_reset_cycle_state (report (RELOAD_RPT_ERROR None)
    (c\<lparr>reload_mbox := None, reload_pc := R_top, ctx_current_tasks := Some p, h_next := n\<rparr>)))"
proof -
  have "settled (c\<lparr>h_next := n\<rparr>)" using assms settled_next [of c n] by (simp add: at_stage.simps)
  then show ?thesis using assms(1)
    by (simp add: at_stage.simps reload_ctx_reset_cycle_state_def report_def settled_def ctx_clear_def waiting_def owns_def)
qed

lemma plan_survived_stage:
  assumes "at_stage Planning c" "h_lists c (mgr_tasks c) = Some L" "loadable cfg"
  shows "at_stage (Survived (h_next c + 1) (h_next c)) (c\<lparr>reload_mbox := None, reload_pc := R_top, ctx_current_tasks := Some (mgr_tasks c),
    h_configs := (h_configs c)(h_next c \<mapsto> cfg), h_lists := (h_lists c)(h_next c + 1 \<mapsto> survivors (cf_tasks cfg) L), h_next := h_next c + 2,
    ctx_new_config := Some (h_next c), main_mbox := Some (RELOAD_RPT_SURVIVORS (h_next c + 1))\<rparr>)"
proof -
  have h: "tasks_wf L" "owns c {mgr_tasks c} {mgr_errors c} {mgr_config c} (caps_of L)"
    using assms(1,2) by (auto simp: at_stage.simps settled_def)
  then have "mgr_tasks c < h_next c" "mgr_config c < h_next c" by (simp_all add: owns_def)
  then show ?thesis using assms h by (auto simp: at_stage.simps waiting_def settled_def ctx_clear_def owns_def)
qed

lemma plan_stage:
  assumes "at_stage Planning c"
  shows "\<exists>c' st. reload_do_plan env (mgr_tasks c) (c\<lparr>reload_mbox := None, reload_pc := R_top\<rparr>) = Some c' \<and>
    (st = Plan_failed \<or> (\<exists>sl nc. st = Survived sl nc)) \<and> at_stage st c' \<and> keeps_polling c c'"
proof -
  obtain L where h: "h_lists c (mgr_tasks c) = Some L" "owns c {mgr_tasks c} {mgr_errors c} {mgr_config c} (caps_of L)"
    using assms by (auto simp: at_stage.simps settled_def)
  let ?c = "c\<lparr>reload_mbox := None, reload_pc := R_top, ctx_current_tasks := Some (mgr_tasks c)\<rparr>"
  let ?failed = "\<lambda>c. reload_ctx_reset_cycle_state (report (RELOAD_RPT_ERROR None) c)"
  have failed: "at_stage Plan_failed (?failed (?c\<lparr>h_next := n\<rparr>)) \<and> keeps_polling c (?failed (?c\<lparr>h_next := n\<rparr>))" if "h_next c \<le> n" for n
    using plan_failed_stage [OF assms that] by (simp add: keeps_polling_def reload_ctx_reset_cycle_state_def report_def waiting_def)
  have fresh: "h_next c \<notin> dom (h_configs c)" "mgr_tasks c < h_next c" using h(2) unfolding owns_def by auto
  show ?thesis
  proof (cases "parse_config_file env")
    case None
    then have "reload_do_plan env (mgr_tasks c) (c\<lparr>reload_mbox := None, reload_pc := R_top\<rparr>) = Some (?failed (?c\<lparr>h_next := h_next c\<rparr>))"
      by (simp add: reload_do_plan_def)
    then show ?thesis using failed [of "h_next c"] by blast
  next
    case (Some cfg)
    obtain nc c1 where c1: "alloc_config cfg ?c = (nc, c1)" by (rule prod.exhaust)
    have free: "free_config nc c1 = Some (?c\<lparr>h_next := h_next c + 1\<rparr>)" using alloc_free_config [OF c1] fresh by simp
    have c1': "nc = h_next c" "c1 = ?c\<lparr>h_configs := (h_configs c)(nc \<mapsto> cfg), h_next := h_next c + 1\<rparr>" using c1 by (auto simp: alloc_config_def)
    define sv where "sv = surviving_tasks env 0 (cf_tasks cfg) L"
    show ?thesis
    proof (cases "validate_fingerprints cfg \<and> in_list env \<and> sv \<noteq> Some None")
      case False
      have tot: "validate_fingerprints cfg \<Longrightarrow> \<exists>r. sv = Some r" unfolding sv_def validate_fingerprints_def by (rule surviving_tasks_total)
      have col: "collect_surviving_tasks env cfg (mgr_tasks c) c1 = Some (None, c1)" if "validate_fingerprints cfg"
        using False h(1) tot that unfolding collect_surviving_tasks_def by (auto simp: c1'(2) sv_def [symmetric])
      have "reload_do_plan env (mgr_tasks c) (c\<lparr>reload_mbox := None, reload_pc := R_top\<rparr>) = Some (?failed (?c\<lparr>h_next := h_next c + 1\<rparr>))"
        by (cases "validate_fingerprints cfg") (simp_all add: reload_do_plan_def Some c1 free col Let_def)
      then show ?thesis using failed [OF le_add1, of 1] by blast
    next
      case True
      then obtain l where l: "sv = Some (Some l)" using surviving_tasks_total [of "cf_tasks cfg" env 0 L]
        by (auto simp: sv_def validate_fingerprints_def)
      have leq: "l = survivors (cf_tasks cfg) L" using l surviving_tasks_eq unfolding sv_def by blast
      let ?c' = "c\<lparr>reload_mbox := None, reload_pc := R_top, ctx_current_tasks := Some (mgr_tasks c),
        h_configs := (h_configs c)(h_next c \<mapsto> cfg), h_lists := (h_lists c)(h_next c + 1 \<mapsto> survivors (cf_tasks cfg) L), h_next := h_next c + 2,
        ctx_new_config := Some (h_next c), main_mbox := Some (RELOAD_RPT_SURVIVORS (h_next c + 1))\<rparr>"
      have "reload_do_plan env (mgr_tasks c) (c\<lparr>reload_mbox := None, reload_pc := R_top\<rparr>) = Some ?c'"
        using True Some c1 c1' h(1) l leq
        by (simp add: reload_do_plan_def collect_surviving_tasks_def sv_def [symmetric] alloc_list_def report_def Let_def)
      moreover have "at_stage (Survived (h_next c + 1) (h_next c)) ?c'"
        using plan_survived_stage [OF assms h(1)] parsed_fingerprints [OF Some] True by (simp add: loadable_def)
      moreover have "keeps_polling c ?c'" using fresh(2) by (simp add: keeps_polling_def waiting_def)
      ultimately show ?thesis by blast
    qed
  qed
qed

definition build_outcome :: "task_t list \<Rightarrow> reload_ctl \<Rightarrow> (nat \<times> nat) option \<Rightarrow> reload_ctl \<Rightarrow> bool" where
  "build_outcome L c res c' \<longleftrightarrow>
    (case res of
       None \<Rightarrow> \<exists>n \<ge> h_next c. c' = c\<lparr>h_next := n\<rparr>
     | Some (nt, ne) \<Rightarrow> \<exists>N E caps. linked L N \<and> tasks_wf N \<and> h_next c \<le> nt \<and> ne = nt + 1 \<and>
         c' = c\<lparr>h_caps := caps, h_lists := (h_lists c)(nt \<mapsto> N), h_errors := (h_errors c)(ne \<mapsto> E), h_next := nt + 2\<rparr> \<and>
         dom caps = dom (h_caps c) \<union> caps_of N \<and> (\<forall>q \<in> dom caps. q < nt))"

lemma build_total:
  assumes "h_lists c cur = Some L" "loadable cfg" "\<forall>q \<in> dom (h_caps c). q < h_next c" "caps_of L \<subseteq> dom (h_caps c)" "tasks_wf L"
  shows "\<exists>res c'. build_full_task_set env cfg cur c = Some (res, c') \<and> build_outcome L c res c'"
proof (cases "in_list env \<and> in_errors env")
  case False
  have "c = c\<lparr>h_next := h_next c\<rparr>" by simp
  then have "build_outcome L c None c" unfolding build_outcome_def by auto
  then show ?thesis using False by (auto simp: build_full_task_set_def)
next
  case env: True
  have ts: "list_all (\<lambda>t. tc_fingerprint t \<noteq> None) (cf_tasks cfg)" "distinct (fingerprints (cf_tasks cfg))"
    using assms(2) by (simp_all add: loadable_def validate_fingerprints_def)
  obtain ok N E c1 fs where b: "build_tasks env 0 (cf_tasks cfg) L [] [] c = Some (ok, N, E, c1)" "built L c N c1"
    "fps_of N = fs" "subseq fs (fingerprints (cf_tasks cfg))"
    using build_tasks_built [OF ts(1) built_start assms(3), of L env 0 "[]"] by (auto simp: build_result_def)
  have d: "distinct (fps_of N)" using b(3,4) ts(2) distinct_subseq by blast
  have eq: "c1\<lparr>h_caps := h_caps c, h_next := h_next c\<rparr> = c" "h_next c \<le> h_next c1" using b(2) by (simp_all add: built_def)
  have "c1 = c\<lparr>h_caps := h_caps c1, h_next := h_next c1\<rparr>" using eq(1) by (cases c1; cases c) simp
  then obtain caps n where c1: "c1 = c\<lparr>h_caps := caps, h_next := n\<rparr>" by blast
  show ?thesis
  proof (cases ok)
    case True
    let ?c' = "c\<lparr>h_caps := caps, h_lists := (h_lists c)(n \<mapsto> N), h_errors := (h_errors c)(n + 1 \<mapsto> E), h_next := n + 2\<rparr>"
    have "build_full_task_set env cfg cur c = Some (Some (n, n + 1), ?c')"
      using env True b(1) assms(1) by (simp add: build_full_task_set_def alloc_list_def alloc_errors_def c1)
    moreover have "dom caps = dom (h_caps c) \<union> caps_of N" "\<forall>q \<in> dom caps. q < n" "h_next c \<le> n"
      using built_caps_of [OF b(2) assms(4)] built_dom [OF b(2) assms(3)] eq(2) by (simp_all add: c1)
    then have "build_outcome L c (Some (n, n + 1)) ?c'" using built_linked [OF b(2) assms(5,4,3) d]
      unfolding build_outcome_def option.case prod.case by blast
    ultimately show ?thesis by blast
  next
    case False
    have "build_full_task_set env cfg cur c = Some (None, c\<lparr>h_next := n\<rparr>)"
      using env False b(1) assms(1) built_undo [OF b(2) assms(3)] by (simp add: build_full_task_set_def c1 remove_caps_def)
    then show ?thesis using eq(2) c1 by (auto simp: build_outcome_def)
  qed
qed

lemma build_stage:
  assumes "at_stage (Building old nc) c"
  shows "\<exists>c' st. reload_do_build env old (c\<lparr>reload_mbox := None, reload_pc := R_top\<rparr>) = Some c' \<and>
    (st = Build_failed old \<or> (\<exists>nt ne. st = Rebuilt old nt ne nc)) \<and> at_stage st c' \<and> keeps_polling c c'"
proof -
  let ?c = "c\<lparr>reload_mbox := None, reload_pc := R_top, ctx_old_tasks := Some old\<rparr>"
  obtain L cfg where h: "h_lists c old = Some L" "tasks_wf L" "h_configs c nc = Some cfg" "loadable cfg"
    "h_lists c (mgr_tasks c) = Some (survivors (cf_tasks cfg) L)" "old \<noteq> mgr_tasks c" "nc \<noteq> mgr_config c"
    "owns c {mgr_tasks c, old} {mgr_errors c} {mgr_config c, nc} (caps_of L)"
    using assms by (auto simp: at_stage.simps)
  have lt: "mgr_tasks c < h_next c" "old < h_next c" "mgr_errors c < h_next c" "mgr_config c < h_next c" "nc < h_next c"
    "\<forall>q \<in> caps_of L. q < h_next c" using h(8) by (simp_all add: owns_def)
  have doms: "dom (h_lists c) = {mgr_tasks c, old}" "dom (h_errors c) = {mgr_errors c}" "dom (h_configs c) = {mgr_config c, nc}" "dom (h_caps c) = caps_of L"
    using h(8) by (simp_all add: owns_def)
  obtain res c1 where b: "build_full_task_set env cfg old ?c = Some (res, c1)" "build_outcome L ?c res c1"
    using build_total [of ?c old L cfg env] h(1,2,4) lt(6) doms(4) by auto
  show ?thesis
  proof (cases res)
    case None
    then obtain n where n: "n \<ge> h_next c" "c1 = ?c\<lparr>h_next := n\<rparr>" using b(2) by (auto simp: build_outcome_def)
    let ?c' = "c\<lparr>reload_mbox := None, reload_pc := R_top, h_next := n, main_mbox := Some (RELOAD_RPT_ERROR (Some old)),
      h_configs := (h_configs c)(nc := None), ctx_new_config := None, ctx_old_tasks := None, ctx_current_tasks := None\<rparr>"
    have "reload_do_build env old (c\<lparr>reload_mbox := None, reload_pc := R_top\<rparr>) = Some ?c'"
      using b(1) h(3) assms None n
      by (simp add: reload_do_build_def at_stage.simps free_config_def report_def reload_ctx_reset_cycle_state_def)
    moreover have "owns ?c' {mgr_tasks c, old} {mgr_errors c} {mgr_config c} (caps_of L)" using doms lt n(1) h(7) by (auto simp: owns_def)
    then have "at_stage (Build_failed old) ?c'" using assms h(1,2,5) survivors_subset [of "cf_tasks cfg" L] by (simp add: at_stage.simps waiting_def ctx_clear_def)
    moreover have "keeps_polling c ?c'" by (simp add: keeps_polling_def waiting_def)
    ultimately show ?thesis by blast
  next
    case (Some r)
    obtain nt ne where "r = (nt, ne)" by (rule prod.exhaust)
    then obtain N E caps where n: "linked L N" "tasks_wf N" "h_next c \<le> nt" "ne = nt + 1" "dom caps = caps_of L \<union> caps_of N" "\<forall>q \<in> dom caps. q < nt"
      "c1 = ?c\<lparr>h_caps := caps, h_lists := (h_lists c)(nt \<mapsto> N), h_errors := (h_errors c)(ne \<mapsto> E), h_next := nt + 2\<rparr>" "res = Some (nt, ne)"
      using b(2) Some doms(4) by (auto simp: build_outcome_def)
    let ?c' = "c\<lparr>reload_mbox := None, reload_pc := R_top, ctx_old_tasks := Some old, h_caps := caps, h_lists := (h_lists c)(nt \<mapsto> N),
      h_errors := (h_errors c)(ne \<mapsto> E), h_next := nt + 2, ctx_new_config := None, main_mbox := Some (RELOAD_RPT_NEW_TASKS nc nt ne)\<rparr>"
    have "reload_do_build env old (c\<lparr>reload_mbox := None, reload_pc := R_top\<rparr>) = Some ?c'"
      using b(1) h(3) assms n by (simp add: reload_do_build_def at_stage.simps report_def)
    moreover have "q < nt + 2" if "q \<in> caps_of L \<union> caps_of N" for q
    proof -
      have "q < nt" using n(5,6) that by blast
      then show ?thesis by simp
    qed
    then have "owns ?c' {mgr_tasks c, old, nt} {mgr_errors c, ne} {mgr_config c, nc} (caps_of L \<union> caps_of N)"
      using doms lt n(3,4,5) by (auto simp: owns_def)
    then have "at_stage (Rebuilt old nt ne nc) ?c'" using assms h(1,2,5) n lt survivors_subset [of "cf_tasks cfg" L]
      by (simp add: at_stage.simps waiting_def)
    moreover have "keeps_polling c ?c'" using n(3,5) lt(1) doms(4) by (auto simp: keeps_polling_def waiting_def)
    ultimately show ?thesis by blast
  qed
qed

lemma reclaim_stage:
  assumes "at_stage (Reclaiming old oc oe) c" "h_lists c (mgr_tasks c) = Some N"
  shows "\<exists>c1. reclaim_old_resources oc oe (ctx_old_tasks c) (mgr_tasks c) c = Some c1 \<and>
    (reload_mbox c = None \<longrightarrow> at_stage Reclaimed (report RELOAD_RPT_RECLAIMED (reload_ctx_reset_cycle_state (c1\<lparr>reload_pc := R_top\<rparr>)))) \<and>
    dom (h_caps c1) = caps_of N \<and> mgr_tasks c1 = mgr_tasks c \<and> h_lists c1 (mgr_tasks c) = Some N \<and> mgr_model c1 = mgr_model c"
proof -
  obtain L where h: "h_lists c old = Some L" "tasks_wf L" "tasks_wf N" "linked L N" "old \<noteq> mgr_tasks c" "oc \<noteq> mgr_config c" "oe \<noteq> mgr_errors c"
    "owns c {mgr_tasks c, old} {mgr_errors c, oe} {mgr_config c, oc} (caps_of L \<union> caps_of N)" "ctx_old_tasks c = Some old"
    using assms by (auto simp: at_stage.simps)
  have doms: "dom (h_lists c) = {mgr_tasks c, old}" "dom (h_errors c) = {mgr_errors c, oe}" "dom (h_configs c) = {mgr_config c, oc}"
    "dom (h_caps c) = caps_of L \<union> caps_of N" using h(8) by (simp_all add: owns_def)
  have "h_errors c oe \<noteq> None" "h_configs c oc \<noteq> None" using doms(2,3) by auto
  moreover have "reclaim_tasks N L c = Some (remove_caps (caps_where (absent N) L) c)"
    using h(2) doms(4) by (intro reclaim_tasks_eq) (auto simp: tasks_wf_def caps_where_def)
  ultimately have r: "reclaim_old_resources oc oe (ctx_old_tasks c) (mgr_tasks c) c =
      Some ((remove_caps (caps_where (absent N) L) c)\<lparr>h_lists := (h_lists c)(old := None), h_errors := (h_errors c)(oe := None), h_configs := (h_configs c)(oc := None)\<rparr>)"
    using h(1,9) assms(2)
    by (simp add: reclaim_old_resources_def free_task_list_wrappers_def destroy_task_error_list_def free_config_def remove_caps_def)
  have caps: "(caps_of L \<union> caps_of N) \<inter> - caps_where (absent N) L = caps_of N"
    using h(4) unfolding linked_def caps_where_def by (auto, metis imageI)
  let ?c1 = "(remove_caps (caps_where (absent N) L) c)\<lparr>h_lists := (h_lists c)(old := None), h_errors := (h_errors c)(oe := None), h_configs := (h_configs c)(oc := None)\<rparr>"
  have dom: "dom (h_caps ?c1) = caps_of N" using doms(4) caps by simp
  have "owns ?c1 {mgr_tasks c} {mgr_errors c} {mgr_config c} (caps_of N)" using doms(1-3) dom h(5-8) by (auto simp: owns_def)
  then have "reload_mbox c = None \<longrightarrow> at_stage Reclaimed (report RELOAD_RPT_RECLAIMED (reload_ctx_reset_cycle_state (?c1\<lparr>reload_pc := R_top\<rparr>)))"
    using assms h(3,5) by (simp add: at_stage.simps report_def reload_ctx_reset_cycle_state_def settled_def ctx_clear_def waiting_def owns_def remove_caps_def)
  then show ?thesis using r dom h(5) assms(2) by (simp add: remove_caps_def)
qed

section \<open>All threads\<close>

text \<open>The capture tasks the main thread polls.\<close>

definition polled :: "reload_ctl \<Rightarrow> nat set" where
  "polled c = (case h_lists c (mgr_tasks c) of None \<Rightarrow> {} | Some l \<Rightarrow> caps_of l)"

text \<open>The message the output thread has popped and not yet sent, and the places where it is in no drain.\<close>

definition sending :: "output_pc \<Rightarrow> nat list" where
  "sending opc = (case opc of O_send cap \<Rightarrow> [cap] | O_drain_send n cap \<Rightarrow> [cap] | O_final_send n cap \<Rightarrow> [cap] | _ \<Rightarrow> [])"

lemma sending_simps [simp]:
  "sending O_top = []" "sending (O_drain n) = []" "sending (O_drain_send n cap) = [cap]" "sending O_clear = []" "sending O_respond = []"
  "sending O_pop = []" "sending (O_send cap) = [cap]" "sending O_exit = []"
  by (simp_all add: sending_def)

definition no_drain :: "output_pc \<Rightarrow> bool" where
  "no_drain opc \<longleftrightarrow> opc = O_top \<or> opc = O_pop \<or> (\<exists>cap. opc = O_send cap)"

text \<open>The drain handshake: while the reload thread waits, every message for a task that is no longer polled is among those the
  output thread still has to drain; once it has answered, there is none.\<close>

definition handshake :: "reload_pc \<Rightarrow> output_pc \<Rightarrow> bool \<Rightarrow> bool \<Rightarrow> nat list \<Rightarrow> nat set \<Rightarrow> bool" where
  "handshake rpc opc request response ring live \<longleftrightarrow>
    (case rpc of
       R_wait m \<Rightarrow>
         (case opc of
            O_top \<Rightarrow> request \<noteq> response \<and> (response \<longrightarrow> set ring \<subseteq> live)
          | O_pop \<Rightarrow> request \<noteq> response \<and> (response \<longrightarrow> set ring \<subseteq> live)
          | O_send cap \<Rightarrow> request \<noteq> response \<and> (response \<longrightarrow> set (cap # ring) \<subseteq> live)
          | O_drain n \<Rightarrow> request \<and> \<not> response \<and> set (drop n ring) \<subseteq> live
          | O_drain_send n cap \<Rightarrow> request \<and> \<not> response \<and> set (drop n ring) \<subseteq> live
          | O_clear \<Rightarrow> request \<and> \<not> response \<and> set ring \<subseteq> live
          | O_respond \<Rightarrow> \<not> request \<and> \<not> response \<and> set ring \<subseteq> live
          | _ \<Rightarrow> False)
     | R_free m \<Rightarrow> \<not> request \<and> \<not> response \<and> no_drain opc \<and> set (sending opc @ ring) \<subseteq> live
     | _ \<Rightarrow> \<not> request \<and> \<not> response \<and> no_drain opc)"

lemma handshake_drained: "handshake r (O_drain n) q p ring A \<Longrightarrow> n = 0 \<or> ring = [] \<Longrightarrow> handshake r O_clear q p ring A"
  by (cases r) (auto simp: handshake_def no_drain_def)

lemma handshake_drain:
  "handshake r (O_drain n) q p (cap # ring) A \<Longrightarrow> n \<noteq> 0 \<Longrightarrow> handshake r (O_drain_send (n - 1) cap) q p ring A"
  "handshake r (O_drain_send n cap) q p ring A \<Longrightarrow> handshake r (O_drain n) q p ring A"
  by (cases r; cases n; simp add: handshake_def no_drain_def)+

lemma handshake_popped:
  "handshake r O_pop q p [] A \<Longrightarrow> handshake r O_top q p [] A"
  "handshake r O_pop q p (cap # ring) A \<Longrightarrow> handshake r (O_send cap) q p ring A"
  "handshake r (O_send cap) q p ring A \<Longrightarrow> handshake r O_top q p ring A"
  by (cases r; simp add: handshake_def no_drain_def)+

lemma handshake_output:
  "handshake r O_top q p ring A \<Longrightarrow> q \<Longrightarrow> handshake r (O_drain (length ring)) q p ring A"
  "handshake r O_top q p ring A \<Longrightarrow> \<not> q \<Longrightarrow> handshake r O_pop q p ring A"
  "handshake r O_clear q p ring A \<Longrightarrow> handshake r O_respond False p ring A"
  "handshake r O_respond q p ring A \<Longrightarrow> handshake r O_pop q True ring A"
  "\<not> handshake r (O_final n) q p ring A" "\<not> handshake r (O_final_send n cap) q p ring A" "\<not> handshake r O_exit q p ring A"
  by (cases r; simp add: handshake_def no_drain_def)+

lemma handshake_poll:
  "handshake r opc q p ring A \<Longrightarrow> x \<in> A \<Longrightarrow> handshake r opc q p (ring @ replicate k x) A"
  by (cases r; cases opc) (auto simp: handshake_def)

definition drain_ok :: "system \<Rightarrow> bool" where
  "drain_ok s \<longleftrightarrow>
    (if mgr_model (ctl s) = EXECUTION_MODEL_RTC
     then ring_msgs s = [] \<and> (\<forall>m. reload_pc (ctl s) \<noteq> R_wait m) \<and> output_pc s = O_exit \<and> \<not> drain_response s
     else output_thread_running s \<and>
       handshake (reload_pc (ctl s)) (output_pc s) (drain_request s) (drain_response s) (ring_msgs s) (polled (ctl s)))"

definition running :: "system \<Rightarrow> bool" where
  "running s \<longleftrightarrow> reload_thread_running s \<and> \<not> quit_signal s \<and> (main_pc s = M_top \<or> main_pc s = M_cycle \<or> (\<exists>i. main_pc s = M_poll i))"

definition good :: "stage \<Rightarrow> system \<Rightarrow> bool" where
  "good st s \<longleftrightarrow> at_stage st (ctl s) \<and> running s \<and> set (sending (output_pc s) @ ring_msgs s) \<subseteq> dom (h_caps (ctl s)) \<and> drain_ok s"

text \<open>The output thread: each message it sends is for a live capture task.\<close>


lemma output_good:
  assumes "good st s"
  shows "\<exists>s'. output_step s = Some s' \<and> good st s' \<and> ctl s' = ctl s"
proof -
  have ring: "set (sending (output_pc s) @ ring_msgs s) \<subseteq> dom (h_caps (ctl s))" using assms by (simp add: good_def)
  have ok: "at_stage st (ctl s)" "running s" "drain_ok s" using assms by (simp_all add: good_def)
  show ?thesis
  proof (cases "mgr_model (ctl s) = EXECUTION_MODEL_RTC")
    case True
    then show ?thesis using assms by (simp add: output_step_def good_def drain_ok_def)
  next
    case False
    then have h: "output_thread_running s" "handshake (reload_pc (ctl s)) (output_pc s) (drain_request s) (drain_response s) (ring_msgs s) (polled (ctl s))"
      using ok(3) by (simp_all add: drain_ok_def)
    have good': "good st s'" if "ctl s' = ctl s" "running s'" "output_thread_running s'"
      "set (sending (output_pc s') @ ring_msgs s') \<subseteq> set (sending (output_pc s) @ ring_msgs s)"
      "handshake (reload_pc (ctl s)) (output_pc s') (drain_request s') (drain_response s') (ring_msgs s') (polled (ctl s))" for s'
      using that(1-3,5) ok(1) subset_trans [OF that(4) ring] False by (simp add: good_def drain_ok_def)
    show ?thesis
    proof (cases "output_pc s")
      case O_top
      then show ?thesis using h ok(2) handshake_output(1,2) by (auto simp: output_step_def running_def intro!: good')
    next
      case (O_drain n)
      then show ?thesis using h ok(2) handshake_drained [of _ n] handshake_drain(1) [of _ n]
        by (cases "ring_msgs s") (auto simp: output_step_def pop_msg_def running_def intro!: good')
    next
      case (O_drain_send n cap)
      then show ?thesis using h ok(2) ring handshake_drain(2) [of _ n cap]
        by (auto simp: output_step_def output_send_pkt_msg_def running_def intro!: good')
    next
      case O_clear
      then show ?thesis using h ok(2) handshake_output(3) by (auto simp: output_step_def running_def intro!: good')
    next
      case O_respond
      then show ?thesis using h ok(2) handshake_output(4) by (auto simp: output_step_def running_def intro!: good')
    next
      case O_pop
      then show ?thesis using h ok(2) handshake_popped(1,2)
        by (cases "ring_msgs s") (auto simp: output_step_def pop_msg_def running_def intro!: good')
    next
      case (O_send cap)
      then show ?thesis using h ok(2) ring handshake_popped(3) [of _ cap]
        by (auto simp: output_step_def output_send_pkt_msg_def running_def intro!: good')
    qed (use h handshake_output(5-7) in simp_all)
  qed
qed

lemma handshake_waiting: "r = R_top \<or> r = R_recv \<Longrightarrow> handshake r opc q p ring A \<longleftrightarrow> \<not> q \<and> \<not> p \<and> no_drain opc"
  by (auto simp: handshake_def)

lemma polled_stage: "at_stage st c \<Longrightarrow> polled c \<subseteq> dom (h_caps c)"
  using stage_tasks by (fastforce simp: polled_def)

lemma main_good:
  assumes "good st s"
  shows "\<exists>s'. main_step n cycle s = Some s' \<and> good (if main_pc s = M_cycle \<and> cycle then main_next (ctl s) st else st) s' \<and>
    output_pc s' = output_pc s \<and> reload_pc (ctl s') = reload_pc (ctl s)"
proof -
  have ring: "set (ring_msgs s) \<subseteq> dom (h_caps (ctl s))" and ok: "at_stage st (ctl s)" "running s" "drain_ok s"
    using assms by (simp_all add: good_def)
  consider (top) "main_pc s = M_top" | (poll) i where "main_pc s = M_poll i" | (cycle) "main_pc s = M_cycle"
    using ok(2) by (auto simp: running_def)
  then show ?thesis
  proof cases
    case top
    then show ?thesis using assms by (simp add: main_step_def good_def running_def drain_ok_def)
  next
    case (poll i)
    obtain S where S: "h_lists (ctl s) (mgr_tasks (ctl s)) = Some S" "caps_of S \<subseteq> dom (h_caps (ctl s))" using stage_tasks [OF ok(1)] by blast
    show ?thesis
    proof (cases "i < length S")
      case False
      then show ?thesis using poll assms S(1) by (simp add: main_step_def poll_task_def good_def running_def drain_ok_def)
    next
      case True
      let ?cap = "t_task (S ! i)"
      have "?cap \<in> caps_of S" using True by simp
      then have cap: "?cap \<in> dom (h_caps (ctl s))" "?cap \<in> polled (ctl s)" using S by (auto simp: polled_def)
      then have live: "h_caps (ctl s) ?cap \<noteq> None" by blast
      let ?ring = "if mgr_model (ctl s) = EXECUTION_MODEL_PIPELINE then ring_msgs s @ replicate n ?cap else ring_msgs s"
      let ?s = "s\<lparr>main_pc := M_poll (i + 1), ring_msgs := ?ring\<rparr>"
      have "main_step n cycle s = Some ?s" using poll S(1) True live by (auto simp: main_step_def poll_task_def Let_def)
      moreover have "set ?ring \<subseteq> dom (h_caps (ctl s))" using ring cap(1) by auto
      moreover have "drain_ok ?s" using ok(3) handshake_poll [OF _ cap(2)]
        by (cases "mgr_model (ctl s)") (simp_all add: drain_ok_def)
      ultimately show ?thesis using poll ok(1,2) assms by (simp add: good_def running_def)
    qed
  next
    case cyc: cycle
    obtain c' where c': "task_manager_reload_cycle (ctl s) = Some c'" "at_stage (main_next (ctl s) st) c'" "same_caps (ctl s) c'"
      using cycle_stage [OF ok(1)] by blast
    have "drain_ok (s\<lparr>ctl := c', main_pc := M_top\<rparr>)"
    proof (cases "waiting (ctl s)")
      case True
      then have "reload_pc c' = R_top \<or> reload_pc c' = R_recv" "reload_pc c' = reload_pc (ctl s)" "mgr_model c' = mgr_model (ctl s)"
        using c'(3) by (simp_all add: same_caps_def waiting_def)
      then show ?thesis using ok(3) handshake_waiting [of "reload_pc c'"] by (simp add: drain_ok_def split: if_splits)
    next
      case False
      then show ?thesis using c'(3) ok(3) by (simp add: drain_ok_def same_caps_def)
    qed
    then have "good (main_next (ctl s) st) (s\<lparr>ctl := c', main_pc := M_top\<rparr>)" using c' assms by (simp add: good_def running_def same_caps_def)
    moreover have "good st (s\<lparr>main_pc := M_top\<rparr>)" using assms by (simp add: good_def running_def drain_ok_def)
    ultimately show ?thesis using cyc c'(1,3) by (cases cycle) (simp_all add: main_step_def same_caps_def)
  qed
qed

lemma stage_recv:
  assumes "at_stage st c" "waiting c" "waiting c'" "c' = c\<lparr>reload_pc := r\<rparr>"
  shows "at_stage st c'"
  using assms(1-3) unfolding assms(4)
  by (cases st) (auto simp: at_stage.simps settled_def ctx_clear_def owns_def waiting_def Let_def)

lemma stage_signal: "at_stage st c \<Longrightarrow> at_stage st (c\<lparr>reload_signal := True\<rparr>)"
  by (cases st) (auto simp: at_stage.simps settled_def ctx_clear_def owns_def waiting_def Let_def)

text \<open>What a step of the reload thread does to the stage.\<close>

definition reload_moves :: "stage \<Rightarrow> system \<Rightarrow> stage \<Rightarrow> system \<Rightarrow> bool" where
  "reload_moves st s st' s' \<longleftrightarrow>
     (case reload_pc (ctl s) of
        R_top \<Rightarrow> st' = st \<and> s' = s\<lparr>ctl := (ctl s)\<lparr>reload_pc := R_recv\<rparr>\<rparr>
      | R_recv \<Rightarrow>
          (case st of
             Planning \<Rightarrow> st' = Plan_failed \<or> (\<exists>sl nc. st' = Survived sl nc)
           | Building old nc \<Rightarrow> st' = Build_failed old \<or> (\<exists>nt ne. st' = Rebuilt old nt ne nc)
           | Reclaiming old oc oe \<Rightarrow> st' = st \<and> reload_mbox (ctl s') = None \<and> \<not> drain_response s' \<and>
               (\<exists>m. reload_pc (ctl s') = R_wait m \<or> reload_pc (ctl s') = R_free m) \<and> output_pc s' = output_pc s
           | _ \<Rightarrow> st' = st \<and> s' = s\<lparr>ctl := (ctl s)\<lparr>reload_pc := R_top\<rparr>\<rparr>)
      | R_wait m \<Rightarrow> st' = st \<and> (if drain_response s then reload_pc (ctl s') = R_free m else s' = s)
      | R_free m \<Rightarrow> st' = Reclaimed
      | R_exit \<Rightarrow> False)"

lemma stage_mbox:
  assumes "at_stage st c" "waiting c"
  shows "case st of Planning \<Rightarrow> reload_mbox c = Some (RELOAD_REQ_PLAN (mgr_tasks c))
    | Building old nc \<Rightarrow> reload_mbox c = Some (RELOAD_REQ_BUILD old)
    | Reclaiming old oc oe \<Rightarrow> reload_mbox c = Some (RELOAD_REQ_RECLAIM oc oe (mgr_tasks c))
    | _ \<Rightarrow> reload_mbox c = None"
  using assms by (cases st) (auto simp: at_stage.simps waiting_def Let_def)

lemma stage_busy:
  assumes "at_stage st c" "\<not> waiting c"
  shows "\<exists>old oc oe. st = Reclaiming old oc oe \<and> reload_mbox c = None \<and>
    (reload_pc c = R_wait (RELOAD_REQ_RECLAIM oc oe (mgr_tasks c)) \<or> reload_pc c = R_free (RELOAD_REQ_RECLAIM oc oe (mgr_tasks c)))"
  using assms by (cases st) (auto simp: at_stage.simps settled_def Let_def)

lemma keeps_polling_good:
  assumes "good st s" "waiting (ctl s)" "keeps_polling (ctl s) c'" "at_stage st' c'"
  shows "good st' (s\<lparr>ctl := c'\<rparr>)"
proof -
  have w: "reload_pc c' = R_top \<or> reload_pc c' = R_recv" "reload_pc (ctl s) = R_top \<or> reload_pc (ctl s) = R_recv"
    using assms(2,3) by (auto simp: keeps_polling_def waiting_def)
  then have "drain_ok (s\<lparr>ctl := c'\<rparr>)" using assms(1,3) handshake_waiting [OF w(1)] handshake_waiting [OF w(2)]
    by (auto simp: good_def drain_ok_def keeps_polling_def split: if_splits)
  moreover have "set (sending (output_pc s) @ ring_msgs s) \<subseteq> dom (h_caps c')" using assms(1,3) unfolding good_def keeps_polling_def by blast
  ultimately show ?thesis using assms(1,4) by (simp add: good_def running_def)
qed

lemma reclaiming_recv:
  assumes "at_stage (Reclaiming old oc oe) c" "waiting c" "m = RELOAD_REQ_RECLAIM oc oe (mgr_tasks c)" "r = R_wait m \<or> r = R_free m"
  shows "at_stage (Reclaiming old oc oe) (c\<lparr>reload_mbox := None, reload_pc := r\<rparr>)"
  using assms by (auto simp: at_stage.simps owns_def Let_def)

lemma reload_good_recv:
  assumes "good st s" "reload_pc (ctl s) = R_recv"
  shows "\<exists>s' st'. reload_step env s = Some s' \<and> good st' s' \<and> reload_moves st s st' s'"
proof -
  have ok: "at_stage st (ctl s)" "running s" "drain_ok s" using assms by (simp_all add: good_def)
  have w: "waiting (ctl s)" using assms(2) by (simp add: waiting_def)
  note mbox = stage_mbox [OF ok(1) w]
  let ?top = "(ctl s)\<lparr>reload_pc := R_top\<rparr>"
  have "at_stage st ?top" using w by (intro stage_recv [OF ok(1)]) (simp_all add: waiting_def)
  then have "good st (s\<lparr>ctl := ?top\<rparr>)" by (intro keeps_polling_good [OF assms(1) w]) (simp_all add: keeps_polling_def waiting_def)
  moreover have "(ctl s)\<lparr>reload_mbox := None, reload_pc := R_top\<rparr> = ?top" if "reload_mbox (ctl s) = None" using that by (cases "ctl s") simp
  ultimately have idle: "reload_mbox (ctl s) = None \<Longrightarrow> reload_step env s = Some (s\<lparr>ctl := ?top\<rparr>) \<and> good st (s\<lparr>ctl := ?top\<rparr>)"
    using assms(2) by (simp add: reload_step_def Let_def)
  show ?thesis
  proof (cases st)
    case Planning
    then obtain c' st' where c': "reload_do_plan env (mgr_tasks (ctl s)) ((ctl s)\<lparr>reload_mbox := None, reload_pc := R_top\<rparr>) = Some c'"
      "st' = Plan_failed \<or> (\<exists>sl nc. st' = Survived sl nc)" "at_stage st' c'" "keeps_polling (ctl s) c'"
      using plan_stage [of "ctl s" env] ok(1) by blast
    then show ?thesis using keeps_polling_good [OF assms(1) w c'(4,3)] mbox Planning assms(2) by (auto simp: reload_step_def reload_moves_def)
  next
    case (Building old nc)
    then obtain c' st' where c': "reload_do_build env old ((ctl s)\<lparr>reload_mbox := None, reload_pc := R_top\<rparr>) = Some c'"
      "st' = Build_failed old \<or> (\<exists>nt ne. st' = Rebuilt old nt ne nc)" "at_stage st' c'" "keeps_polling (ctl s) c'"
      using build_stage [of old nc "ctl s" env] ok(1) by blast
    then show ?thesis using keeps_polling_good [OF assms(1) w c'(4,3)] mbox Building assms(2) by (auto simp: reload_step_def reload_moves_def)
  next
    case (Reclaiming old oc oe)
    let ?m = "RELOAD_REQ_RECLAIM oc oe (mgr_tasks (ctl s))"
    note recv = reclaiming_recv [OF ok(1) [unfolded Reclaiming] w refl]
    show ?thesis
    proof (cases "mgr_model (ctl s)")
      case EXECUTION_MODEL_PIPELINE
      let ?s = "s\<lparr>ctl := (ctl s)\<lparr>reload_mbox := None, reload_pc := R_wait ?m\<rparr>, drain_request := True\<rparr>"
      have "reload_step env s = Some ?s" using mbox Reclaiming assms(2) EXECUTION_MODEL_PIPELINE by (simp add: reload_step_def Let_def)
      moreover have "output_thread_running s" "\<not> drain_response s" "no_drain (output_pc s)"
        using ok(3) EXECUTION_MODEL_PIPELINE assms(2) handshake_waiting by (simp_all add: drain_ok_def)
      moreover from this have "good st ?s" using recv [of "R_wait ?m"] assms(1) Reclaiming EXECUTION_MODEL_PIPELINE
        by (auto simp: good_def running_def drain_ok_def handshake_def no_drain_def)
      ultimately show ?thesis using Reclaiming assms(2) by (auto simp: reload_moves_def)
    next
      case EXECUTION_MODEL_RTC
      let ?s = "s\<lparr>ctl := (ctl s)\<lparr>reload_mbox := None, reload_pc := R_free ?m\<rparr>\<rparr>"
      have "reload_step env s = Some ?s" using mbox Reclaiming assms(2) EXECUTION_MODEL_RTC by (simp add: reload_step_def Let_def)
      moreover have "good st ?s" using recv [of "R_free ?m"] assms(1) Reclaiming EXECUTION_MODEL_RTC
        by (simp add: good_def running_def drain_ok_def)
      moreover have "\<not> drain_response s" using ok(3) EXECUTION_MODEL_RTC by (simp add: drain_ok_def)
      ultimately show ?thesis using Reclaiming assms(2) by (auto simp: reload_moves_def)
    qed
  qed (use mbox assms(2) idle in \<open>auto simp: reload_moves_def\<close>)
qed

lemma reload_good:
  assumes "good st s"
  shows "\<exists>s' st'. reload_step env s = Some s' \<and> good st' s' \<and> reload_moves st s st' s'"
proof -
  have ring: "set (ring_msgs s) \<subseteq> dom (h_caps (ctl s))" and ok: "at_stage st (ctl s)" "running s" "drain_ok s"
    using assms by (simp_all add: good_def)
  have run: "reload_thread_running s" using ok(2) by (simp add: running_def)
  show ?thesis
  proof (cases "reload_pc (ctl s)")
    case R_top
    let ?s = "s\<lparr>ctl := (ctl s)\<lparr>reload_pc := R_recv\<rparr>\<rparr>"
    have "at_stage st (ctl ?s)" using R_top by (intro stage_recv [OF ok(1)]) (simp_all add: waiting_def)
    then have "good st ?s" using R_top by (intro keeps_polling_good [OF assms]) (simp_all add: waiting_def keeps_polling_def)
    then show ?thesis using R_top run by (auto simp: reload_step_def reload_moves_def)
  next
    case R_recv
    then have w: "waiting (ctl s)" by (simp add: waiting_def)
    show ?thesis using reload_good_recv [OF assms R_recv] .
  next
    case (R_wait m)
    then obtain old oc oe where st: "st = Reclaiming old oc oe" "m = RELOAD_REQ_RECLAIM oc oe (mgr_tasks (ctl s))" "reload_mbox (ctl s) = None"
      using stage_busy [OF ok(1)] by (auto simp: waiting_def)
    show ?thesis
    proof (cases "drain_response s")
      case False
      then show ?thesis using R_wait run assms by (auto simp: reload_step_def reload_moves_def)
    next
      case True
      let ?s = "s\<lparr>ctl := (ctl s)\<lparr>reload_pc := R_free m\<rparr>, drain_response := False\<rparr>"
      have "at_stage st (ctl ?s)" using ok(1) st R_wait by (auto simp: at_stage.simps owns_def Let_def)
      moreover have "drain_ok ?s" using ok(3) R_wait True
        by (auto simp: drain_ok_def handshake_def polled_def no_drain_def split: output_pc.splits if_splits)
      ultimately have "good st ?s" using assms by (simp add: good_def running_def)
      then show ?thesis using R_wait True run by (auto simp: reload_step_def reload_moves_def Let_def)
    qed
  next
    case (R_free m)
    then obtain old oc oe where st: "st = Reclaiming old oc oe" "m = RELOAD_REQ_RECLAIM oc oe (mgr_tasks (ctl s))" "reload_mbox (ctl s) = None"
      using stage_busy [OF ok(1)] by (auto simp: waiting_def)
    obtain N where N: "h_lists (ctl s) (mgr_tasks (ctl s)) = Some N" using stage_tasks [OF ok(1)] by blast
    obtain c1 where c1: "reclaim_old_resources oc oe (ctx_old_tasks (ctl s)) (mgr_tasks (ctl s)) (ctl s) = Some c1"
      "at_stage Reclaimed (report RELOAD_RPT_RECLAIMED (reload_ctx_reset_cycle_state (c1\<lparr>reload_pc := R_top\<rparr>)))"
      "dom (h_caps c1) = caps_of N" "mgr_tasks c1 = mgr_tasks (ctl s)" "h_lists c1 (mgr_tasks (ctl s)) = Some N" "mgr_model c1 = mgr_model (ctl s)"
      using reclaim_stage [OF _ N] ok(1) st by blast
    let ?c = "report RELOAD_RPT_RECLAIMED (reload_ctx_reset_cycle_state (c1\<lparr>reload_pc := R_top\<rparr>))"
    have "set (sending (output_pc s) @ ring_msgs s) \<subseteq> caps_of N" using ok(3) R_free N by (auto simp: drain_ok_def handshake_def polled_def split: if_splits)
    moreover have "drain_ok (s\<lparr>ctl := ?c\<rparr>)" using ok(3) R_free c1(6)
      by (auto simp: drain_ok_def handshake_def report_def reload_ctx_reset_cycle_state_def)
    ultimately have "good Reclaimed (s\<lparr>ctl := ?c\<rparr>)" using c1(2,3) ok(2)
      by (simp add: good_def running_def report_def reload_ctx_reset_cycle_state_def)
    then show ?thesis using R_free st(2) c1(1) by (auto simp: reload_step_def reload_moves_def Let_def)
  next
    case R_exit
    then show ?thesis using stage_busy [OF ok(1)] by (auto simp: waiting_def)
  qed
qed

section \<open>Every run\<close>

lemma signal_good: "good st s \<Longrightarrow> good st (task_manager_reload_signal s)"
  using stage_signal [of st "ctl s"]
  by (auto simp: good_def task_manager_reload_signal_def running_def drain_ok_def polled_def)

lemma step_good:
  assumes "good st s" "e \<noteq> Signal_quit"
  shows "\<exists>s' st'. system_step e s = Some s' \<and> good st' s'"
proof (cases e)
  case (Main n cycle)
  then show ?thesis using main_good [OF assms(1), of n cycle] by auto
next
  case (Reload_thread env)
  then show ?thesis using reload_good [OF assms(1), of env] by auto
next
  case Output_thread
  then show ?thesis using output_good [OF assms(1)] by auto
next
  case Signal_reload
  then show ?thesis using signal_good [OF assms(1)] by auto
qed (use assms(2) in simp)

lemma run_good:
  "good st s \<Longrightarrow> Signal_quit \<notin> set es \<Longrightarrow> \<exists>s' st'. system_run es s = Some s' \<and> good st' s'"
proof (induction es arbitrary: st s)
  case (Cons e es)
  then obtain s1 st1 where "system_step e s = Some s1" "good st1 s1" using step_good [of st s e] by auto
  then show ?case using Cons.IH [of st1 s1] Cons.prems(2) by simp
qed auto

text \<open>The state after \<open>task_manager_new\<close>.\<close>

definition init_ok :: "reload_ctl \<Rightarrow> task_t list \<Rightarrow> reload_ctl \<Rightarrow> bool" where
  "init_ok c0 tasks c \<longleftrightarrow> c\<lparr>h_caps := h_caps c0, h_next := h_next c0\<rparr> = c0 \<and> h_next c0 \<le> h_next c \<and>
     dom (h_caps c) = caps_of tasks \<and> (\<forall>q \<in> caps_of tasks. q < h_next c) \<and> distinct (map t_task tasks)"

lemma init_ok_new:
  assumes "init_ok c0 tasks c" "alloc_cap t c = (p, c')"
  shows "init_ok c0 (tasks @ [\<lparr>t_index = i, t_fingerprint = f, t_task = p\<rparr>]) c'"
    "capture_task_destroy p c' = Some (c\<lparr>h_next := h_next c + 1\<rparr>)" "init_ok c0 tasks (c\<lparr>h_next := h_next c + 1\<rparr>)"
proof -
  have p: "p = h_next c" "c' = c\<lparr>h_caps := (h_caps c)(p \<mapsto> t), h_next := h_next c + 1\<rparr>" using assms(2) by (auto simp: alloc_cap_def)
  have "p \<notin> caps_of tasks" using assms(1) p(1) by (auto simp: init_ok_def)
  then show "init_ok c0 (tasks @ [\<lparr>t_index = i, t_fingerprint = f, t_task = p\<rparr>]) c'" using assms(1) p by (auto simp: init_ok_def less_Suc_eq)
  have "h_caps c = (h_caps c)(p := None)" using \<open>p \<notin> caps_of tasks\<close> assms(1) by (auto simp: fun_eq_iff init_ok_def)
  then show "capture_task_destroy p c' = Some (c\<lparr>h_next := h_next c + 1\<rparr>)" using p(2) by (simp add: capture_task_destroy_def)
  show "init_ok c0 tasks (c\<lparr>h_next := h_next c + 1\<rparr>)" using assms(1) by (auto simp: init_ok_def less_Suc_eq)
qed

lemma init_tasks_ok:
  "init_ok c0 tasks c \<Longrightarrow> \<exists>ok tasks' errors' c' fs. init_tasks env i ts tasks errors c = Some (ok, tasks', errors', c') \<and>
     init_ok c0 tasks' c' \<and> fps_of tasks' = fps_of tasks @ fs \<and> subseq fs (fingerprints ts)"
proof (induction ts arbitrary: i tasks errors c)
  case (Cons t ts)
  obtain p c' where p: "alloc_cap t c = (p, c')" by (rule prod.exhaust)
  note new = init_ok_new [OF Cons.prems p]
  have sub: "subseq fs (fingerprints ts) \<Longrightarrow> subseq fs (fingerprints (t # ts))"
    "subseq fs (fingerprints ts) \<Longrightarrow> subseq ((case tc_fingerprint t of None \<Rightarrow> [] | Some f \<Rightarrow> [f]) @ fs) (fingerprints (t # ts))" for fs
    by (auto simp: fingerprints_Cons split: option.split)
  show ?case
  proof (cases "in_capture env i")
    case (Some err)
    then show ?thesis
      using Cons.IH [OF Cons.prems, of "i + 1" "errors @ [\<lparr>te_index = i, te_fingerprint = tc_fingerprint t, te_errbuf = err\<rparr>]"] Cons.prems sub(1)
      by (cases "in_error_record env i") auto
  next
    case None
    then show ?thesis using Cons.IH [OF new(1) [of i "tc_fingerprint t"], of "i + 1" errors] new(2,3) p sub(2)
      by (cases "in_wrapper env i") auto
  qed
qed (auto simp: fingerprints_def)

lemma started_good:
  assumes "task_manager_new pipeline_ok env cfg = Some (True, c)" "distinct (fingerprints (cf_tasks cfg))"
  shows "good Idle (started c)"
proof -
  define c0 where "c0 = (empty_ctl (cf_execution_model cfg))\<lparr>h_configs := [0 \<mapsto> cfg], h_next := 1, mgr_config := 0,
    mgr_capacity := (if cf_execution_model cfg = EXECUTION_MODEL_PIPELINE then cf_buffer_size_mb cfg * 1024 * 1024 else 0)\<rparr>"
  have "init_ok c0 [] c0" by (simp add: init_ok_def c0_def empty_ctl_def)
  then obtain ok N E c1 where i: "init_tasks env 0 (cf_tasks cfg) [] [] c0 = Some (ok, N, E, c1)" "init_ok c0 N c1" "subseq (fps_of N) (fingerprints (cf_tasks cfg))"
    using init_tasks_ok [of c0 "[]" c0 env 0 "cf_tasks cfg" "[]"] by auto
  have eq: "c1\<lparr>h_caps := h_caps c0, h_next := h_next c0\<rparr> = c0" using i(2) by (simp add: init_ok_def)
  have "c1 = c0\<lparr>h_caps := h_caps c1, h_next := h_next c1\<rparr>" using eq by (cases c1; cases c0) simp
  then obtain caps n where c1: "c1 = c0\<lparr>h_caps := caps, h_next := n\<rparr>" by blast
  have alloc: "alloc_config cfg (empty_ctl (cf_execution_model cfg)) = (0, (empty_ctl (cf_execution_model cfg))\<lparr>h_configs := [0 \<mapsto> cfg], h_next := 1\<rparr>)"
    by (simp add: alloc_config_def empty_ctl_def)
  have c: "ok" "c = c1\<lparr>h_lists := (h_lists c1)(n \<mapsto> N), h_errors := (h_errors c1)(n + 1 \<mapsto> E), h_next := n + 2, mgr_tasks := n, mgr_errors := n + 1\<rparr>"
    using assms(1) i(1) unfolding task_manager_new_def alloc Let_def prod.case c1 c0_def
    by (auto simp: alloc_list_def alloc_errors_def bind_eq_Some_conv split: if_splits)
  have wf: "tasks_wf N" using i(2,3) assms(2) distinct_subseq by (auto simp: tasks_wf_def init_ok_def)
  have dom: "dom caps = caps_of N" "\<forall>q \<in> caps_of N. q < n" "1 \<le> n" using i(2) by (simp_all add: init_ok_def c1 c0_def)
  then have "owns c {n} {n + 1} {0} (caps_of N)" by (auto simp: owns_def c c1 c0_def empty_ctl_def less_Suc_eq)
  then have "at_stage Idle c" using wf by (simp add: at_stage.simps settled_def ctx_clear_def waiting_def c c1 c0_def empty_ctl_def)
  then show ?thesis by (cases "mgr_model c") (simp_all add: good_def started_def running_def drain_ok_def handshake_def no_drain_def c c1 c0_def empty_ctl_def)
qed

section \<open>A worker with one task\<close>

text \<open>A pipeline worker with one task, and the events that reload it to a configuration without tasks while a captured packet is in the
  ring, up to the wait for the drain.\<close>

definition captured_task :: TaskConfig where
  "captured_task = \<lparr>tc_fingerprint = Some ''a'', tc_req_pattern = Pattern_none,
     tc_capturer = Dpdk_pdump \<lparr>dc_interface = ''p0'', dc_snaplen = 100, dc_bpf_filter = [], dc_ring_size = 2\<rparr>, tc_outputs = []\<rparr>"

definition running_config :: Config where
  "running_config = \<lparr>cf_log_level = LOG_INFO, cf_cpu_affinity = [], cf_execution_model = EXECUTION_MODEL_PIPELINE, cf_buffer_size_mb = 1,
     cf_control = None, cf_tasks = [captured_task]\<rparr>"

definition sample_input :: "Config \<Rightarrow> reload_input" where
  "sample_input cfg = \<lparr>in_document = Some (config_json cfg), in_mem = \<lambda>_. True, in_list = True, in_errors = True, in_wrapper = \<lambda>_. True,
     in_error_record = \<lambda>_. True, in_capture = \<lambda>_. None\<rparr>"

definition empty_config :: Config where
  "empty_config = running_config\<lparr>cf_tasks := []\<rparr>"

lemma running_config_parses: "parse_config_json (\<lambda>_. True) (config_json running_config) = Inr running_config"
  by code_simp

lemma empty_config_parses: "parse_config_json (\<lambda>_. True) (config_json empty_config) = Inr empty_config"
  by code_simp


definition running_ctl :: reload_ctl where
  "running_ctl = (empty_ctl EXECUTION_MODEL_PIPELINE)\<lparr>h_lists := [2 \<mapsto> [\<lparr>t_index = 0, t_fingerprint = Some ''a'', t_task = 1\<rparr>]],
     h_errors := [3 \<mapsto> []], h_configs := [0 \<mapsto> running_config], h_caps := [1 \<mapsto> captured_task], h_next := 4, mgr_tasks := 2,
     mgr_errors := 3, mgr_config := 0, mgr_capacity := 1048576\<rparr>"

lemma running_new: "task_manager_new True (sample_input running_config) running_config = Some (True, running_ctl)"
  by (simp add: task_manager_new_def running_config_def sample_input_def running_ctl_def empty_ctl_def alloc_config_def alloc_cap_def
      alloc_list_def alloc_errors_def captured_task_def numeral_2_eq_2 numeral_3_eq_3)

definition reload_events :: "event list" where
  "reload_events = [Main 0 True, Main 1 True, Signal_reload, Main 0 True, Main 0 True] @ replicate 2 (Reload_thread (sample_input empty_config)) @
     replicate 4 (Main 0 True) @ replicate 2 (Reload_thread (sample_input empty_config)) @
     replicate 3 (Main 0 True) @ replicate 2 (Reload_thread (sample_input empty_config))"

section \<open>Memory safety\<close>

text \<open>(C4) No interleaving of the capture loop, the reload thread and the output thread uses or frees anything twice: from a started
  worker, every sequence of their steps, of reload requests and of configurations, failures to read or build them and failed allocations is
  defined, so no task list, error list, configuration or capture task is used after it was freed, and none is freed twice.  Whenever no reload
  is in progress the task manager owns exactly what is allocated, so a reload neither leaks nor loses anything.  (The quit signal is left
  out: see the shutdown below.)\<close>

theorem reload_memory_safe:
  assumes "parse_config_json mem json = Inr cfg" "task_manager_new pipeline_ok env cfg = Some (True, c)" "Signal_quit \<notin> set es"
  shows "\<exists>s. system_run es (started c) = Some s \<and>
    (reload_phase (ctl s) = RELOAD_PHASE_IDLE \<longrightarrow>
      (\<exists>tasks. h_lists (ctl s) (mgr_tasks (ctl s)) = Some tasks \<and>
         owns (ctl s) {mgr_tasks (ctl s)} {mgr_errors (ctl s)} {mgr_config (ctl s)} (caps_of tasks)))"
proof -
  have "distinct (fingerprints (cf_tasks cfg))"
    using parsed_fingerprints [of "env\<lparr>in_document := Some json, in_mem := mem\<rparr>"] assms(1) by (simp add: parse_config_file_def)
  then obtain s st where s: "system_run es (started c) = Some s" "good st s" using run_good [OF started_good [OF assms(2)] assms(3)] by blast
  have "st = Idle" if "reload_phase (ctl s) = RELOAD_PHASE_IDLE" using s(2) that by (cases st) (simp_all add: good_def at_stage.simps)
  then show ?thesis using s by (auto simp: good_def at_stage.simps settled_def)
qed

theorem reload_memory_safe_witness:
  "\<exists>s. system_run reload_events (started running_ctl) = Some s \<and>
    (reload_phase (ctl s) = RELOAD_PHASE_IDLE \<longrightarrow>
      (\<exists>tasks. h_lists (ctl s) (mgr_tasks (ctl s)) = Some tasks \<and>
         owns (ctl s) {mgr_tasks (ctl s)} {mgr_errors (ctl s)} {mgr_config (ctl s)} (caps_of tasks)))"
  by (rule reload_memory_safe [OF running_config_parses running_new]) (simp add: reload_events_def)

section \<open>Shutdown during a reload\<close>

text \<open>The quit signal arrives while the reload thread waits for the drain: the main thread stops the reload thread, which
  reclaims the old tasks without the answer of the output thread.\<close>

definition shutdown_events :: "event list" where
  "shutdown_events = reload_events @ [Signal_quit, Main 0 True] @ replicate 2 (Reload_thread (sample_input empty_config)) @
     [Output_thread, Output_thread]"


end
