(* ===== verification/Reload_Progress.thy ===== *)
theory Reload_Progress
  imports Reload
begin

text \<open>
  Progress of the reload protocol: in every fair run of the three threads a requested reload is started, and every reload
  that was started ends.
\<close>

section \<open>How far a reload is from its end\<close>

text \<open>A reload has ended when the manager is idle or the report of its success or failure is in the main thread's mailbox.\<close>

definition ended :: "reload_ctl \<Rightarrow> bool" where
  "ended c \<longleftrightarrow> reload_phase c = RELOAD_PHASE_IDLE \<or> main_mbox c = Some RELOAD_RPT_RECLAIMED \<or> (\<exists>p. main_mbox c = Some (RELOAD_RPT_ERROR p))"

datatype thread = Main_thread | Reloader | Drainer

text \<open>How far a reload is from its end, and whose step brings it nearer.\<close>

definition drain_rank :: "output_pc \<Rightarrow> nat \<times> nat" where
  "drain_rank opc =
    (case opc of
       O_pop \<Rightarrow> (11, 1) | O_send cap \<Rightarrow> (11, 0) | O_top \<Rightarrow> (10, 0)
     | O_drain n \<Rightarrow> (9, 2 * n) | O_drain_send n cap \<Rightarrow> (9, 2 * n + 1) | O_clear \<Rightarrow> (8, 0) | _ \<Rightarrow> (7, 0))"

lemma drain_rank_bounds: "7 \<le> fst (drain_rank opc)" "fst (drain_rank opc) \<le> 11"
  by (cases opc; simp add: drain_rank_def)+

definition rank :: "system \<Rightarrow> nat \<times> nat" where
  "rank s =
    (let c = ctl s; recv = (if reload_pc c = R_recv then 0 else 1) in
     (case reload_mbox c of
        Some (RELOAD_REQ_PLAN p) \<Rightarrow> (20 + recv, 0)
      | Some (RELOAD_REQ_BUILD p) \<Rightarrow> (16 + recv, 0)
      | Some (RELOAD_REQ_RECLAIM oc oe nt) \<Rightarrow> (12 + recv, 0)
      | _ \<Rightarrow>
          (case main_mbox c of
             Some (RELOAD_RPT_SURVIVORS p) \<Rightarrow> (18, 0)
           | Some (RELOAD_RPT_NEW_TASKS nc nt ne) \<Rightarrow> (14, 0)
           | _ \<Rightarrow>
               (case reload_pc c of
                  R_wait m \<Rightarrow>
                    if drain_response s then (6, 0)
                    else drain_rank (output_pc s)
                | _ \<Rightarrow> (5, 0)))))"

definition helper :: "nat \<times> nat \<Rightarrow> thread" where
  "helper r = (if fst r = 18 \<or> fst r = 14 then Main_thread else if 7 \<le> fst r \<and> fst r \<le> 11 then Drainer else Reloader)"

definition nearer :: "((nat \<times> nat) \<times> (nat \<times> nat)) set" where
  "nearer = less_than <*lex*> less_than"

definition moved :: "system \<Rightarrow> system \<Rightarrow> bool" where
  "moved s s' \<longleftrightarrow> ended (ctl s') \<or> (rank s', rank s) \<in> nearer"

definition stayed :: "system \<Rightarrow> system \<Rightarrow> bool" where
  "stayed s s' \<longleftrightarrow> rank s' = rank s \<and> ended (ctl s') = ended (ctl s)"

lemma stage_rank:
  assumes "at_stage st (ctl s)"
  shows "case st of
      Planning \<Rightarrow> rank s = (20 + (if reload_pc (ctl s) = R_recv then 0 else 1), 0) \<and> \<not> ended (ctl s)
    | Survived sl nc \<Rightarrow> rank s = (18, 0) \<and> \<not> ended (ctl s)
    | Building old nc \<Rightarrow> rank s = (16 + (if reload_pc (ctl s) = R_recv then 0 else 1), 0) \<and> \<not> ended (ctl s)
    | Rebuilt old nt ne nc \<Rightarrow> rank s = (14, 0) \<and> \<not> ended (ctl s)
    | Reclaiming old oc oe \<Rightarrow> \<not> ended (ctl s) \<and> rank s =
        (case reload_pc (ctl s) of
           R_top \<Rightarrow> (13, 0) | R_recv \<Rightarrow> (12, 0)
         | R_wait m \<Rightarrow>
             if drain_response s then (6, 0)
             else drain_rank (output_pc s)
         | _ \<Rightarrow> (5, 0))
    | _ \<Rightarrow> ended (ctl s)"
  using assms by (cases st) (auto simp: at_stage.simps rank_def ended_def waiting_def Let_def split: reload_pc.splits)

text \<open>The step that brings a reload nearer to its end.\<close>

definition helps :: "event \<Rightarrow> system \<Rightarrow> bool" where
  "helps e s \<longleftrightarrow>
    (case helper (rank s) of
       Main_thread \<Rightarrow> main_pc s = M_cycle \<and> (\<exists>n. e = Main n True)
     | Reloader \<Rightarrow> (\<exists>env. e = Reload_thread env)
     | Drainer \<Rightarrow> e = Output_thread)"

lemmas rank_simps = helper_def nearer_def moved_def stayed_def

lemma main_step_response: "main_step n cycle s = Some s' \<Longrightarrow> drain_response s' = drain_response s"
  by (auto simp: main_step_def poll_task_def bind_eq_Some_conv Let_def split: main_pc.splits if_splits)

lemma main_progress:
  assumes "good st s" "\<not> ended (ctl s)" "main_step n cycle s = Some s'"
  shows "(stayed s s' \<or> moved s s') \<and> (main_pc s = M_cycle \<and> cycle \<and> helper (rank s) = Main_thread \<longrightarrow> moved s s')"
proof -
  let ?st' = "if main_pc s = M_cycle \<and> cycle then main_next (ctl s) st else st"
  have g: "good ?st' s'" and eq: "output_pc s' = output_pc s" "reload_pc (ctl s') = reload_pc (ctl s)" "drain_response s' = drain_response s"
    using main_good [OF assms(1), of n cycle] main_step_response [OF assms(3)] assms(3) by auto
  have r: "at_stage st (ctl s)" "at_stage ?st' (ctl s')" using assms(1) g by (simp_all add: good_def)
  show ?thesis using stage_rank [OF r(1)] stage_rank [OF r(2)] eq assms(2) drain_rank_bounds [of "output_pc s"]
    by (cases st; cases "drain_rank (output_pc s)") (auto simp: rank_simps split: if_splits reload_pc.splits)
qed

lemma output_rank:
  assumes "drain_ok s" "at_stage (Reclaiming old oc oe) (ctl s)" "reload_pc (ctl s) = R_wait m" "output_step s = Some s'" "ctl s' = ctl s"
  shows "drain_response s \<and> rank s' = rank s \<or> \<not> drain_response s \<and> helper (rank s) = Drainer \<and> (rank s', rank s) \<in> nearer"
proof -
  have s': "at_stage (Reclaiming old oc oe) (ctl s')" "reload_pc (ctl s') = R_wait m" using assms(2,3,5) by simp_all
  have h: "output_thread_running s" "handshake (R_wait m) (output_pc s) (drain_request s) (drain_response s) (ring_msgs s) (polled (ctl s))"
    using assms(1,3) by (auto simp: drain_ok_def split: if_splits)
  show ?thesis using stage_rank [OF assms(2)] stage_rank [OF s'(1)] assms(3,4) s'(2) h
    by (cases "output_pc s")
      (auto simp: output_step_def handshake_def rank_simps drain_rank_def pop_msg_def output_send_pkt_msg_def split: if_splits list.splits)
qed

lemma output_progress:
  assumes "good st s" "\<not> ended (ctl s)" "output_step s = Some s'"
  shows "(stayed s s' \<or> moved s s') \<and> (helper (rank s) = Drainer \<longrightarrow> moved s s')"
proof -
  have eq: "ctl s' = ctl s" using output_good [OF assms(1)] assms(3) by auto
  have ok: "at_stage st (ctl s)" "at_stage st (ctl s')" "drain_ok s" using assms(1) eq by (simp_all add: good_def)
  show ?thesis
  proof (cases "\<exists>old oc oe m. st = Reclaiming old oc oe \<and> reload_pc (ctl s) = R_wait m")
    case True
    then show ?thesis using output_rank [OF ok(3) _ _ assms(3) eq] ok(1) eq assms(2) stage_rank [OF ok(1)]
      by (auto simp: moved_def stayed_def helper_def)
  next
    case False
    then show ?thesis using stage_rank [OF ok(1)] stage_rank [OF ok(2)] eq assms(2)
      by (cases st) (auto simp: rank_simps split: reload_pc.splits)
  qed
qed

lemma reload_progress:
  assumes "good st s" "\<not> ended (ctl s)" "reload_step env s = Some s'"
  shows "(stayed s s' \<or> moved s s') \<and> (helper (rank s) = Reloader \<longrightarrow> moved s s')"
proof -
  obtain st' where g: "good st' s'" and m: "reload_moves st s st' s'" using reload_good [OF assms(1), of env] assms(3) by auto
  have r: "at_stage st (ctl s)" "at_stage st' (ctl s')" using assms(1) g by (simp_all add: good_def)
  note q = stage_rank [OF r(1)] stage_rank [OF r(2)]
  show ?thesis
  proof (cases "reload_pc (ctl s)")
    case R_top
    then have "st' = st" "reload_pc (ctl s') = R_recv" using m by (simp_all add: reload_moves_def)
    then show ?thesis using q R_top assms(2) by (cases st) (simp_all add: rank_simps)
  next
    case R_recv
    note m' = m [unfolded reload_moves_def R_recv reload_pc.case]
    show ?thesis
    proof (cases st)
      case (Reclaiming old oc oe)
      then have "fst (rank s') < 12" "rank s = (12, 0)" using q m' R_recv drain_rank_bounds(2) [of "output_pc s"]
        by (auto simp: less_Suc_eq_le numeral_eq_Suc)
      then show ?thesis by (cases "rank s'") (simp add: rank_simps)
    qed (use q m' R_recv assms(2) in \<open>auto simp: rank_simps\<close>)
  next
    case (R_wait w)
    then obtain old oc oe where st: "st = Reclaiming old oc oe" using stage_busy [OF r(1)] by (auto simp: waiting_def)
    note m' = m [unfolded reload_moves_def R_wait reload_pc.case]
    show ?thesis
    proof (cases "drain_response s")
      case True
      then have "rank s' = (5, 0)" "rank s = (6, 0)" using q m' R_wait st by simp_all
      then show ?thesis by (simp add: rank_simps)
    next
      case False
      then have "7 \<le> fst (rank s)" "fst (rank s) \<le> 11" "s' = s" using q(1) m' R_wait st drain_rank_bounds [of "output_pc s"] by auto
      then show ?thesis by (simp add: rank_simps)
    qed
  next
    case (R_free w)
    then have "st' = Reclaimed" using m by (simp add: reload_moves_def)
    then show ?thesis using q(2) by (simp add: moved_def)
  next
    case R_exit
    then show ?thesis using m by (simp add: reload_moves_def)
  qed
qed

lemma step_progress:
  assumes "good st s" "\<not> ended (ctl s)" "system_step e s = Some s'" "e \<noteq> Signal_quit"
  shows "(stayed s s' \<or> moved s s') \<and> (helps e s \<longrightarrow> moved s s')"
proof (cases e)
  case (Main n cycle)
  then show ?thesis using main_progress [OF assms(1,2), of n cycle s'] assms(3) by (cases "helper (rank s)") (auto simp: helps_def)
next
  case (Reload_thread env)
  then show ?thesis using reload_progress [OF assms(1,2), of env s'] assms(3) by (cases "helper (rank s)") (auto simp: helps_def)
next
  case Output_thread
  then show ?thesis using output_progress [OF assms(1,2), of s'] assms(3) by (cases "helper (rank s)") (auto simp: helps_def)
next
  case Signal_reload
  then have "s' = task_manager_reload_signal s" using assms(3) by simp
  then have eq: "reload_mbox (ctl s') = reload_mbox (ctl s)" "main_mbox (ctl s') = main_mbox (ctl s)" "reload_pc (ctl s') = reload_pc (ctl s)"
    "reload_phase (ctl s') = reload_phase (ctl s)" "drain_response s' = drain_response s" "output_pc s' = output_pc s"
    by (simp_all add: task_manager_reload_signal_def)
  have "stayed s s'" unfolding stayed_def ended_def rank_def Let_def eq by simp
  then show ?thesis using Signal_reload by (auto simp: helps_def split: thread.splits)
qed (use assms(4) in simp)

section \<open>Fair runs\<close>

text \<open>An infinite run in which no thread stops: the reload thread and the output thread step again and again, and the main thread
  reaches \<open>task_manager_reload_cycle\<close> again and again.\<close>

definition fair_run :: "reload_ctl \<Rightarrow> (nat \<Rightarrow> system) \<Rightarrow> (nat \<Rightarrow> event) \<Rightarrow> bool" where
  "fair_run c s ev \<longleftrightarrow> s 0 = started c \<and> (\<forall>i. system_step (ev i) (s i) = Some (s (Suc i)) \<and> ev i \<noteq> Signal_quit) \<and>
    (\<forall>i. \<exists>j\<ge>i. \<exists>env. ev j = Reload_thread env) \<and> (\<forall>i. \<exists>j\<ge>i. ev j = Output_thread) \<and>
    (\<forall>i. \<exists>j\<ge>i. main_pc (s j) = M_cycle \<and> (\<exists>n. ev j = Main n True))"

lemma leads_to:
  fixes i :: nat
  assumes start: "P i" and safe: "\<And>k. P k \<Longrightarrow> P (Suc k) \<or> Q (Suc k)" and useful: "\<And>k. P k \<Longrightarrow> H k \<Longrightarrow> Q (Suc k)"
    and fair: "\<exists>k\<ge>i. H k"
  shows "\<exists>j>i. Q j"
proof (rule ccontr)
  assume "\<not> (\<exists>j>i. Q j)"
  then have never: "\<not> Q j" if "j > i" for j using that by blast
  have "P k" if "k \<ge> i" for k using that
  proof (induction rule: dec_induct)
    case (step k)
    then show ?case using safe [of k] never [of "Suc k"] by simp
  qed (rule start)
  moreover obtain k where "k \<ge> i" "H k" using fair by blast
  ultimately show False using useful never [of "Suc k"] by simp
qed

lemma fair_good:
  assumes "fair_run c s ev" "good Idle (started c)"
  shows "\<exists>st. good st (s i)"
proof (induction i)
  case 0
  then show ?case using assms by (auto simp: fair_run_def)
next
  case (Suc i)
  then obtain st where "good st (s i)" by blast
  then show ?case using step_good [of st "s i" "ev i"] assms(1) by (auto simp: fair_run_def)
qed

lemma fair_helps:
  assumes "fair_run c s ev"
  shows "\<exists>k\<ge>i. rank (s k) = r \<longrightarrow> helps (ev k) (s k)"
proof (cases "helper r")
  case Main_thread
  obtain k where "k \<ge> i" "main_pc (s k) = M_cycle \<and> (\<exists>n. ev k = Main n True)" using assms unfolding fair_run_def by blast
  then show ?thesis using Main_thread by (auto simp: helps_def)
next
  case Reloader
  obtain k where "k \<ge> i" "\<exists>env. ev k = Reload_thread env" using assms unfolding fair_run_def by blast
  then show ?thesis using Reloader by (auto simp: helps_def)
next
  case Drainer
  obtain k where "k \<ge> i" "ev k = Output_thread" using assms unfolding fair_run_def by blast
  then show ?thesis using Drainer by (auto simp: helps_def)
qed

lemma fair_moves:
  assumes "fair_run c s ev" "good Idle (started c)" "\<not> ended (ctl (s i))"
  shows "\<exists>j>i. ended (ctl (s j)) \<or> (rank (s j), rank (s i)) \<in> nearer"
proof (rule leads_to [where P = "\<lambda>k. \<not> ended (ctl (s k)) \<and> rank (s k) = rank (s i)" and H = "\<lambda>k. rank (s k) = rank (s i) \<longrightarrow> helps (ev k) (s k)"])
  have step: "(stayed (s k) (s (Suc k)) \<or> moved (s k) (s (Suc k))) \<and> (helps (ev k) (s k) \<longrightarrow> moved (s k) (s (Suc k)))" if "\<not> ended (ctl (s k))" for k
  proof -
    obtain st where "good st (s k)" using fair_good [OF assms(1,2)] by blast
    then show ?thesis using step_progress [of st "s k" "ev k" "s (Suc k)"] that assms(1) by (simp add: fair_run_def)
  qed
  show "\<not> ended (ctl (s i)) \<and> rank (s i) = rank (s i)" using assms(3) by simp
  show "(\<not> ended (ctl (s (Suc k))) \<and> rank (s (Suc k)) = rank (s i)) \<or> (ended (ctl (s (Suc k))) \<or> (rank (s (Suc k)), rank (s i)) \<in> nearer)"
    if "\<not> ended (ctl (s k)) \<and> rank (s k) = rank (s i)" for k using step [of k] that by (auto simp: stayed_def moved_def)
  show "ended (ctl (s (Suc k))) \<or> (rank (s (Suc k)), rank (s i)) \<in> nearer"
    if "\<not> ended (ctl (s k)) \<and> rank (s k) = rank (s i)" "rank (s k) = rank (s i) \<longrightarrow> helps (ev k) (s k)" for k
    using step [of k] that by (auto simp: moved_def)
  show "\<exists>k\<ge>i. rank (s k) = rank (s i) \<longrightarrow> helps (ev k) (s k)" by (rule fair_helps [OF assms(1)])
qed

lemma wf_nearer: "wf nearer"
  by (simp add: nearer_def wf_lex_prod)

lemma fair_ends:
  assumes "fair_run c s ev" "good Idle (started c)"
  shows "\<exists>j\<ge>i. ended (ctl (s j))"
proof (induction "rank (s i)" arbitrary: i rule: wf_induct_rule [OF wf_nearer])
  case 1
  show ?case
  proof (cases "ended (ctl (s i))")
    case False
    then obtain j where "j > i" "ended (ctl (s j)) \<or> (rank (s j), rank (s i)) \<in> nearer" using fair_moves [OF assms] by blast
    then show ?thesis using 1 [of j] by (meson less_imp_le order_trans)
  qed blast
qed

text \<open>A request stays pending until the main thread turns it into a plan.\<close>

lemma destroy_tasks_signal: "reclaim_tasks new old c = Some c' \<Longrightarrow> reload_signal c' = reload_signal c"
  by (induction old arbitrary: c) (auto simp: capture_task_destroy_def bind_eq_Some_conv split: option.splits if_splits)

lemma build_tasks_signal:
  "build_tasks env i ts current tasks errors c = Some (ok, tasks', errors', c') \<Longrightarrow> reload_signal c' = reload_signal c"
  by (induction ts arbitrary: i tasks errors c)
    (fastforce simp: alloc_cap_def capture_task_destroy_def bind_eq_Some_conv split: option.splits if_splits)+

lemma destroy_new_tasks_signal: "destroy_new_tasks current tasks c = Some c' \<Longrightarrow> reload_signal c' = reload_signal c"
  by (induction tasks arbitrary: c) (fastforce simp: capture_task_destroy_def bind_eq_Some_conv split: option.splits if_splits)+

lemma build_full_task_set_signal: "build_full_task_set env cfg p c = Some (r, c') \<Longrightarrow> reload_signal c' = reload_signal c"
  by (auto simp: build_full_task_set_def bind_eq_Some_conv alloc_list_def alloc_errors_def Let_def
      dest!: build_tasks_signal destroy_new_tasks_signal split: if_splits)

lemmas heap_defs = free_config_def free_task_list_wrappers_def destroy_task_error_list_def alloc_config_def alloc_list_def
  report_def reload_ctx_reset_cycle_state_def

lemma plan_signal: "reload_do_plan env p c = Some c' \<Longrightarrow> reload_signal c' = reload_signal c"
  by (auto simp: reload_do_plan_def collect_surviving_tasks_def bind_eq_Some_conv heap_defs Let_def split: option.splits if_splits)

lemma build_signal: "reload_do_build env p c = Some c' \<Longrightarrow> reload_signal c' = reload_signal c"
  by (auto simp: reload_do_build_def bind_eq_Some_conv heap_defs Let_def dest!: build_full_task_set_signal split: option.splits if_splits)

lemma reclaim_signal: "reclaim_old_resources oc oe ot nt c = Some c' \<Longrightarrow> reload_signal c' = reload_signal c"
  by (auto simp: reclaim_old_resources_def bind_eq_Some_conv heap_defs dest!: destroy_tasks_signal split: if_splits)

lemma reload_step_signal:
  assumes "reload_step env s = Some s'"
  shows "reload_signal (ctl s') = reload_signal (ctl s)"
  using assms
  by (auto simp: reload_step_def Let_def reload_ctx_cleanup_on_exit_def reload_handle_error_from_main_def heap_defs bind_eq_Some_conv
      dest!: plan_signal build_signal reclaim_signal split: reload_pc.splits if_splits option.splits reload_msg.splits)

lemma output_step_ctl: "output_step s = Some s' \<Longrightarrow> ctl s' = ctl s"
  by (auto simp: output_step_def pop_msg_def output_send_pkt_msg_def split: output_pc.splits if_splits list.splits)

definition planned :: "reload_ctl \<Rightarrow> bool" where
  "planned c \<longleftrightarrow> reload_mbox c = Some (RELOAD_REQ_PLAN (mgr_tasks c))"

definition asked :: "system \<Rightarrow> bool" where
  "asked s \<longleftrightarrow> ended (ctl s) \<and> reload_signal (ctl s)"

lemma ended_stage:
  assumes "good st s" "ended (ctl s)"
  shows "main_next (ctl s) st = (if reload_signal (ctl s) then Planning else Idle)" "st \<noteq> Planning"
    "\<And>old nc. st \<noteq> Building old nc" "\<And>old oc oe. st \<noteq> Reclaiming old oc oe"
  using assms by (cases st; auto simp: good_def at_stage.simps ended_def)+

lemma main_asked:
  assumes "good st s" "asked s" "main_step n cycle s = Some s'"
  shows "asked s' \<or> planned (ctl s')" "main_pc s = M_cycle \<Longrightarrow> cycle \<Longrightarrow> planned (ctl s')"
proof -
  have next_stage: "main_next (ctl s) st = Planning" using ended_stage(1) [OF assms(1)] assms(2) by (simp add: asked_def)
  have g: "good (if main_pc s = M_cycle \<and> cycle then Planning else st) s'"
    using main_good [OF assms(1), of n cycle] assms(3) next_stage by auto
  show planned: "planned (ctl s')" if "main_pc s = M_cycle" "cycle" using g that by (simp add: good_def at_stage.simps planned_def)
  have "ctl s' = ctl s" if "\<not> (main_pc s = M_cycle \<and> cycle)" using that assms(1,3)
    by (auto simp: main_step_def poll_task_def good_def running_def bind_eq_Some_conv Let_def split: if_splits)
  then show "asked s' \<or> planned (ctl s')" using planned assms(2) by (cases "main_pc s = M_cycle \<and> cycle") (simp_all add: asked_def)
qed

lemma reload_asked:
  assumes "good st s" "asked s" "reload_step env s = Some s'"
  shows "asked s'"
proof -
  obtain st' where m: "reload_moves st s st' s'" using reload_good [OF assms(1), of env] assms(3) by auto
  have e: "ended (ctl s)" using assms(2) by (simp add: asked_def)
  have "waiting (ctl s)" using assms(1) ended_stage(4) [OF assms(1) e] stage_busy [of st "ctl s"] by (auto simp: good_def)
  then have "ended (ctl s')" using m e ended_stage(2-4) [OF assms(1) e]
    by (cases st) (auto simp: reload_moves_def waiting_def ended_def)
  then show ?thesis using reload_step_signal [OF assms(3)] assms(2) by (simp add: asked_def)
qed

lemma step_asked:
  assumes "good st s" "asked s" "system_step e s = Some s'" "e \<noteq> Signal_quit"
  shows "asked s' \<or> planned (ctl s')" "main_pc s = M_cycle \<Longrightarrow> e = Main n True \<Longrightarrow> planned (ctl s')"
proof -
  show "asked s' \<or> planned (ctl s')"
  proof (cases e)
    case (Main n cycle)
    then show ?thesis using main_asked(1) [OF assms(1,2)] assms(3) by simp
  next
    case (Reload_thread env)
    then show ?thesis using reload_asked [OF assms(1,2)] assms(3) by simp
  next
    case Output_thread
    then show ?thesis using output_step_ctl [of s s'] assms(2,3) by (simp add: asked_def)
  next
    case Signal_reload
    then show ?thesis using assms(2,3) by (auto simp: asked_def ended_def task_manager_reload_signal_def)
  qed (use assms(4) in simp)
  show "main_pc s = M_cycle \<Longrightarrow> e = Main n True \<Longrightarrow> planned (ctl s')" using main_asked(2) [OF assms(1,2)] assms(3) by simp
qed

lemma handlers_signal:
  "main_handle_survivors msg c = Some c' \<Longrightarrow> reload_signal c' = reload_signal c"
  "main_handle_new_tasks msg c = Some c' \<Longrightarrow> reload_signal c' = reload_signal c"
  "main_handle_reclaimed msg c = Some c' \<Longrightarrow> reload_signal c' = reload_signal c"
  by (auto simp: main_handle_survivors_def main_handle_new_tasks_def main_handle_reclaimed_def restore_full_list_on_build_failure_def
      free_task_list_wrappers_def bind_eq_Some_conv Let_def split: option.splits reload_msg.splits if_splits)

lemma cycle_signal:
  assumes "task_manager_reload_cycle c = Some c'" "reload_signal c"
  shows "reload_signal c' \<or> planned c'"
proof -
  obtain c1 where c1: "c' = try_start_reload c1" "reload_signal c1"
    using assms handlers_signal [of _ "c\<lparr>main_mbox := None\<rparr>"]
    by (cases "main_mbox c"; cases "reload_phase c") (auto simp: task_manager_reload_cycle_def bind_eq_Some_conv)
  then show ?thesis by (simp add: try_start_reload_def planned_def)
qed

lemma main_step_signal:
  assumes "good st s" "reload_signal (ctl s)" "main_step n cycle s = Some s'"
  shows "reload_signal (ctl s') \<or> planned (ctl s')"
proof (cases "main_pc s = M_cycle \<and> cycle")
  case True
  then show ?thesis using assms(2,3) cycle_signal [of "ctl s"] by (auto simp: main_step_def)
next
  case False
  then show ?thesis using assms
    by (auto simp: main_step_def poll_task_def good_def running_def bind_eq_Some_conv Let_def split: if_splits)
qed

lemma step_signal:
  assumes "good st s" "reload_signal (ctl s)" "system_step e s = Some s'" "e \<noteq> Signal_quit"
  shows "reload_signal (ctl s') \<or> planned (ctl s')"
proof (cases e)
  case (Main n cycle)
  then show ?thesis using main_step_signal [OF assms(1,2)] assms(3) by simp
next
  case (Reload_thread env)
  then show ?thesis using reload_step_signal [of env s s'] assms(2,3) by simp
next
  case Output_thread
  then show ?thesis using output_step_ctl [of s s'] assms(2,3) by simp
next
  case Signal_reload
  then show ?thesis using assms(2,3) by (auto simp: task_manager_reload_signal_def)
qed (use assms(4) in simp)

lemma fair_signal:
  assumes "fair_run c s ev" "good Idle (started c)" "reload_signal (ctl (s i))" "i \<le> j"
  shows "(\<exists>k>i. k \<le> j \<and> planned (ctl (s k))) \<or> reload_signal (ctl (s j))"
  using assms(4)
proof (induction rule: dec_induct)
  case (step k)
  obtain st where "good st (s k)" using fair_good [OF assms(1,2)] by blast
  moreover have "system_step (ev k) (s k) = Some (s (Suc k))" "ev k \<noteq> Signal_quit" using assms(1) by (simp_all add: fair_run_def)
  ultimately have "reload_signal (ctl (s k)) \<longrightarrow> reload_signal (ctl (s (Suc k))) \<or> planned (ctl (s (Suc k)))" using step_signal by blast
  then show ?case using step.IH \<open>i \<le> k\<close> by (meson le_Suc_eq le_imp_less_Suc)
qed (use assms(3) in simp)

lemma fair_planned:
  assumes "fair_run c s ev" "good Idle (started c)" "asked (s i)"
  shows "\<exists>j>i. planned (ctl (s j))"
proof (rule leads_to [where P = "\<lambda>k. asked (s k)" and H = "\<lambda>k. main_pc (s k) = M_cycle \<and> (\<exists>n. ev k = Main n True)"])
  have step: "system_step (ev k) (s k) = Some (s (Suc k))" "ev k \<noteq> Signal_quit" for k using assms(1) by (simp_all add: fair_run_def)
  show "asked (s (Suc k)) \<or> planned (ctl (s (Suc k)))" if "asked (s k)" for k
    using fair_good [OF assms(1,2), of k] step_asked(1) [OF _ that step] by blast
  show "planned (ctl (s (Suc k)))" if "asked (s k)" "main_pc (s k) = M_cycle \<and> (\<exists>n. ev k = Main n True)" for k
    using fair_good [OF assms(1,2), of k] step_asked(2) [OF _ that(1) step] that(2) by blast
  show "\<exists>k\<ge>i. main_pc (s k) = M_cycle \<and> (\<exists>n. ev k = Main n True)" using assms(1) unfolding fair_run_def by blast
qed (rule assms(3))

text \<open>(C5) A requested reload happens and ends: in every run in which the reload thread and the output thread keep stepping and the main
  thread keeps reaching its reload cycle, and whatever configurations, capture errors and failed allocations the run has, a reload
  request is turned into a plan, and the reload with this plan ends: no thread waits for another for ever, in particular
  not the reload thread for the drain of a ring into which packets keep coming.\<close>

theorem reload_request_served:
  assumes "parse_config_json mem json = Inr cfg" "task_manager_new pipeline_ok env cfg = Some (True, c)" "fair_run c s ev"
    "reload_signal (ctl (s i))"
  shows "\<exists>j>i. \<exists>k>j. reload_mbox (ctl (s j)) = Some (RELOAD_REQ_PLAN (mgr_tasks (ctl (s j)))) \<and> ended (ctl (s k))"
proof -
  have "distinct (fingerprints (cf_tasks cfg))"
    using parsed_fingerprints [of "env\<lparr>in_document := Some json, in_mem := mem\<rparr>"] assms(1) by (simp add: parse_config_file_def)
  then have g: "good Idle (started c)" by (rule started_good [OF assms(2)])
  obtain e where e: "e \<ge> i" "ended (ctl (s e))" using fair_ends [OF assms(3) g] by blast
  have "\<exists>j>i. planned (ctl (s j))"
  proof (cases "reload_signal (ctl (s e))")
    case True
    then show ?thesis using fair_planned [OF assms(3) g, of e] e by (auto simp: asked_def intro: le_less_trans)
  next
    case False
    then show ?thesis using fair_signal [OF assms(3) g assms(4) e(1)] by blast
  qed
  then obtain j where j: "j > i" "planned (ctl (s j))" by blast
  obtain k where "k \<ge> Suc j" "ended (ctl (s k))" using fair_ends [OF assms(3) g] by blast
  then show ?thesis using j by (auto simp: planned_def Suc_le_eq)
qed

section \<open>A fair run\<close>

text \<open>A run that repeats a finite sequence of events which leads back to where it began.\<close>

definition lasso :: "event list \<Rightarrow> system \<Rightarrow> nat \<Rightarrow> system" where
  "lasso es s i = the (system_run (take (i mod length es) es) s)"

lemma system_run_append: "system_run (es @ fs) s = Option.bind (system_run es s) (system_run fs)"
  by (induction es arbitrary: s) (auto split: bind_split)

lemma lasso_step:
  assumes "system_run es s = Some s" "es \<noteq> []"
  shows "system_step (es ! (i mod length es)) (lasso es s i) = Some (lasso es s (Suc i))"
proof -
  let ?k = "i mod length es"
  have k: "?k < length es" using assms(2) by simp
  have "system_run (take (Suc ?k) es @ drop (Suc ?k) es) s = Some s" using assms(1) by simp
  then obtain s2 where s2: "system_run (take (Suc ?k) es) s = Some s2" "system_run (drop (Suc ?k) es) s2 = Some s"
    unfolding system_run_append bind_eq_Some_conv by blast
  then obtain s1 where s1: "system_run (take ?k es) s = Some s1" "system_step (es ! ?k) s1 = Some s2"
    unfolding take_Suc_conv_app_nth [OF k] system_run_append by (auto simp: bind_eq_Some_conv)
  have "lasso es s (Suc i) = s2"
  proof (cases "Suc ?k = length es")
    case True
    then have "Suc i mod length es = 0" by (simp add: mod_Suc)
    then show ?thesis using s2 True assms(1) by (simp add: lasso_def)
  next
    case False
    then have "Suc i mod length es = Suc ?k" by (simp add: mod_Suc)
    then show ?thesis using s2 by (simp add: lasso_def)
  qed
  then show ?thesis using s1 by (simp add: lasso_def)
qed

lemma lasso_recurs:
  assumes "k < length es"
  shows "\<exists>j\<ge>i. es ! (j mod length es) = es ! k \<and> lasso es s j = lasso es s k"
proof -
  have "k + i * length es \<ge> i" using assms by (cases es) auto
  moreover have "(k + i * length es) mod length es = k" using assms by simp
  ultimately show ?thesis using assms by (metis lasso_def mod_less)
qed

text \<open>Reload requests for a configuration file that cannot be read, again and again.\<close>

definition failing_events :: "event list" where
  "failing_events = [Signal_reload] @ replicate 4 (Main 0 True) @ replicate 2 (Reload_thread (sample_input running_config\<lparr>in_document := None\<rparr>)) @
     replicate 4 (Main 0 True) @ [Output_thread, Output_thread]"

lemma failing_returns: "system_run failing_events (started running_ctl) = Some (started running_ctl)"
  by (simp add: failing_events_def numeral_eq_Suc started_def running_ctl_def empty_ctl_def main_step_def poll_task_def output_step_def reload_step_def
      pop_msg_def task_manager_reload_signal_def task_manager_reload_cycle_def try_start_reload_def main_handle_survivors_def
      reload_do_plan_def parse_config_file_def reload_ctx_reset_cycle_state_def report_def)

lemma failing_fair: "fair_run running_ctl (lasso failing_events (started running_ctl)) (\<lambda>i. failing_events ! (i mod length failing_events))"
proof -
  let ?s = "lasso failing_events (started running_ctl)"
  have len: "length failing_events = 13" by (simp add: failing_events_def)
  have nth: "failing_events ! 5 = Reload_thread (sample_input running_config\<lparr>in_document := None\<rparr>)" "failing_events ! 11 = Output_thread"
    "failing_events ! 4 = Main 0 True" by (simp_all add: failing_events_def numeral_eq_Suc)
  have "main_pc (?s 4) = M_cycle" by code_simp
  then have "\<exists>j\<ge>i. main_pc (?s j) = M_cycle \<and> failing_events ! (j mod length failing_events) = Main 0 True" for i
    using lasso_recurs [of 4 failing_events i "started running_ctl"] nth(3) len by auto
  moreover have "\<exists>j\<ge>i. failing_events ! (j mod length failing_events) = Reload_thread (sample_input running_config\<lparr>in_document := None\<rparr>)"
    "\<exists>j\<ge>i. failing_events ! (j mod length failing_events) = Output_thread" for i
    using lasso_recurs [of 5 failing_events i "started running_ctl"] lasso_recurs [of 11 failing_events i "started running_ctl"] nth(1,2) len by auto
  moreover have "Signal_quit \<notin> set failing_events" by (simp add: failing_events_def)
  then have "failing_events ! (i mod length failing_events) \<noteq> Signal_quit" for i using len by (metis mod_less_divisor nth_mem zero_less_numeral)
  moreover have "?s 0 = started running_ctl" by (simp add: lasso_def)
  ultimately show ?thesis unfolding fair_run_def using lasso_step [OF failing_returns] len by fastforce
qed

theorem reload_request_served_witness:
  "\<exists>j>1. \<exists>k>j. reload_mbox (ctl (lasso failing_events (started running_ctl) j)) =
     Some (RELOAD_REQ_PLAN (mgr_tasks (ctl (lasso failing_events (started running_ctl) j)))) \<and> ended (ctl (lasso failing_events (started running_ctl) k))"
  by (rule reload_request_served [OF running_config_parses running_new failing_fair]) code_simp

end
