(* ===== verification/Cjson_Parse.thy ===== *)
theory Cjson_Parse
  imports Cjson_Utils Ratelimit
begin

text \<open>
  The parser of \<open>cJSON/cJSON.c\<close> and \<open>cjson_parse\<close>, which the configuration files and the control commands go
  through.  A result is an option, whose \<^term>\<open>None\<close> is an access outside the text or outside the allocated string, or a recursion
  that has run out of fuel; inside it is what the C function returns, with the buffer, whose offset the error position is
  computed from.
\<close>

section \<open>Parse buffers\<close>

text \<open>Whether the n-th allocation succeeds is part of the buffer.\<close>

record parse_buffer =
  pb_content :: string
  pb_offset :: nat
  pb_depth :: nat
  pb_allocate :: "nat \<Rightarrow> bool"
  pb_allocations :: nat

definition CJSON_NESTING_LIMIT :: nat where "CJSON_NESTING_LIMIT = 1000"

abbreviation (input) quote :: char where "quote \<equiv> CHR 0x22"
abbreviation (input) backslash :: char where "backslash \<equiv> CHR 0x5C"

definition can_read :: "parse_buffer \<Rightarrow> nat \<Rightarrow> bool" where
  "can_read b n \<longleftrightarrow> pb_offset b + n \<le> length (pb_content b)"

definition can_access_at_index :: "parse_buffer \<Rightarrow> nat \<Rightarrow> bool" where
  "can_access_at_index b i \<longleftrightarrow> pb_offset b + i < length (pb_content b)"

definition char_at :: "string \<Rightarrow> nat \<Rightarrow> char option" where
  "char_at s i = (if i < length s then Some (s ! i) else None)"

definition at_offset :: "parse_buffer \<Rightarrow> nat \<Rightarrow> char option" where
  "at_offset b i = char_at (pb_content b) (pb_offset b + i)"

text \<open>\<open>can_access_at_index\<close> and then a comparison of the character.\<close>

definition looking_at :: "parse_buffer \<Rightarrow> char \<Rightarrow> bool" where
  "looking_at b c \<longleftrightarrow> can_access_at_index b 0 \<and> at_offset b 0 = Some c"

definition starts_with :: "parse_buffer \<Rightarrow> string \<Rightarrow> bool" where
  "starts_with b s \<longleftrightarrow> can_read b (length s) \<and> take (length s) (drop (pb_offset b) (pb_content b)) = s"

definition move :: "(nat \<Rightarrow> nat) \<Rightarrow> parse_buffer \<Rightarrow> parse_buffer" where
  "move f b = b\<lparr>pb_offset := f (pb_offset b)\<rparr>"

definition allocate_one :: "parse_buffer \<Rightarrow> bool \<times> parse_buffer" where
  "allocate_one b = (pb_allocate b (pb_allocations b), b\<lparr>pb_allocations := pb_allocations b + 1\<rparr>)"

definition buffer_skip_whitespace :: "parse_buffer \<Rightarrow> parse_buffer" where
  "buffer_skip_whitespace b =
    (if \<not> can_access_at_index b 0 then b
     else let off = pb_offset b + length (takeWhile (\<lambda>c. of_char c \<le> (32 :: nat)) (drop (pb_offset b) (pb_content b))) in
       if off = length (pb_content b) then b\<lparr>pb_offset := off - 1\<rparr> else b\<lparr>pb_offset := off\<rparr>)"

definition skip_utf8_bom :: "parse_buffer \<Rightarrow> parse_buffer" where
  "skip_utf8_bom b = (if can_access_at_index b 4 \<and> starts_with b [CHR 0xEF, CHR 0xBB, CHR 0xBF] then move (\<lambda>n. n + 3) b else b)"

section \<open>Numbers\<close>

text \<open>Rounding of a rational to the nearest \<open>double\<close>, with its subnormal numbers and infinities.\<close>

definition round_double :: "rat \<Rightarrow> double" where
  "round_double q =
    (if q = 0 then Finite 0
     else let u = pow2 (max (ilog2 \<bar>q\<bar> - 52) (-1074)); m = rne (\<bar>q\<bar> / u) in
       if of_int m * u \<ge> 2 ^ 1024 then (if q < 0 then Neg_infinity else Pos_infinity)
       else Finite (sgn q * of_int m * u))"

text \<open>\<open>strtod\<close> on a string of digits, signs, points and \<open>e\<close>: the value and the number of characters used.\<close>

definition pow10 :: "int \<Rightarrow> rat" where
  "pow10 e = (if 0 \<le> e then 10 ^ nat e else 1 / 10 ^ nat (- e))"

definition strtod_exponent :: "string \<Rightarrow> int \<times> nat" where
  "strtod_exponent s =
    (case s of
       c # t \<Rightarrow>
         if c = CHR ''e'' \<or> c = CHR ''E''
         then let neg = (t \<noteq> [] \<and> hd t = CHR ''-''); signed = (t \<noteq> [] \<and> (hd t = CHR ''-'' \<or> hd t = CHR ''+''));
                  ds = takeWhile is_digit (if signed then tl t else t)
              in if ds = [] then (0, 0)
                 else ((if neg then - int (digits_val ds) else int (digits_val ds)), 1 + (if signed then 1 else 0) + length ds)
         else (0, 0)
     | [] \<Rightarrow> (0, 0))"

definition strtod :: "string \<Rightarrow> double \<times> nat" where
  "strtod s =
    (let neg = (s \<noteq> [] \<and> hd s = CHR ''-''); signed = (s \<noteq> [] \<and> (hd s = CHR ''-'' \<or> hd s = CHR ''+''));
         t = (if signed then tl s else s);
         whole = takeWhile is_digit t;
         t1 = drop (length whole) t;
         point = (t1 \<noteq> [] \<and> hd t1 = CHR ''.'');
         frac = (if point then takeWhile is_digit (tl t1) else []);
         t2 = (if point then drop (length frac) (tl t1) else t1)
     in if whole @ frac = [] then (Finite 0, 0)
        else let (e, n) = strtod_exponent t2;
                 q = of_nat (digits_val (whole @ frac)) * pow10 (e - int (length frac))
             in (round_double (if neg then - q else q),
                 (if signed then 1 else 0) + length whole + (if point then 1 else 0) + length frac + n))"

definition number_char :: "char \<Rightarrow> bool" where
  "number_char c \<longleftrightarrow> is_digit c \<or> c \<in> set ''+-eE.''"

definition parse_number :: "parse_buffer \<Rightarrow> cJSON option \<times> parse_buffer" where
  "parse_number b =
    (let number_c_string = takeWhile number_char (take 63 (drop (pb_offset b) (pb_content b)));
         (number, used) = strtod number_c_string
     in if used = 0 then (None, b) else (Some (cJSON_Number number), move (\<lambda>n. n + used) b))"

section \<open>Strings\<close>

definition parse_hex4 :: "string \<Rightarrow> nat" where
  "parse_hex4 s =
    (case map hex_val (take 4 s) of
       [Some a, Some b, Some c, Some d] \<Rightarrow> ((a * 16 + b) * 16 + c) * 16 + d
     | _ \<Rightarrow> 0)"

fun utf8_tail :: "nat \<Rightarrow> nat \<Rightarrow> nat \<times> string" where
  "utf8_tail 0 codepoint = (codepoint, [])"
| "utf8_tail (Suc n) codepoint =
    (let (cp, s) = utf8_tail n (drop_bit 6 codepoint) in (cp, s @ [char_of ((codepoint OR 0x80) AND 0xBF)]))"

definition utf8_encode :: "nat \<Rightarrow> string option" where
  "utf8_encode codepoint =
    (if codepoint < 0x80 then Some [char_of (codepoint AND 0x7F)]
     else
       let mark = (\<lambda>n first_byte_mark. let (cp, s) = utf8_tail n codepoint in Some (char_of ((cp OR first_byte_mark) AND 0xFF) # s)) in
       if codepoint < 0x800 then mark 1 (0xC0 :: nat)
       else if codepoint < 0x10000 then mark 2 0xE0
       else if codepoint \<le> 0x10FFFF then mark 3 0xF0
       else None)"

text \<open>The argument is the text from the backslash to the end of the string literal; the result the length of the literal, 0 for a
  failure, and the characters written.\<close>

definition utf16_literal_to_utf8 :: "string \<Rightarrow> nat \<times> string" where
  "utf16_literal_to_utf8 s =
    (let encode = (\<lambda>n codepoint. case utf8_encode codepoint of None \<Rightarrow> (0, []) | Some cs \<Rightarrow> (n, cs)) in
     if length s < 6 then (0, [])
     else let first_code = parse_hex4 (drop 2 s) in
       if 0xDC00 \<le> first_code \<and> first_code \<le> 0xDFFF then (0, [])
       else if 0xD800 \<le> first_code \<and> first_code \<le> 0xDBFF
       then
         if length s - 6 < 6 then (0, [])
         else if s ! 6 \<noteq> backslash \<or> s ! 7 \<noteq> CHR ''u'' then (0, [])
         else let second_code = parse_hex4 (drop 8 s) in
           if second_code < 0xDC00 \<or> second_code > 0xDFFF then (0, [])
           else encode 12 (0x10000 + (push_bit 10 (first_code AND 0x3FF) OR (second_code AND 0x3FF)))
       else encode 6 first_code)"

text \<open>The scan for the closing quote: its distance and the number of backslashes skipped, or nothing when the text ends.\<close>

fun scan_string :: "string \<Rightarrow> (nat \<times> nat) option" where
  "scan_string [] = None"
| "scan_string (c # cs) =
    (if c = quote then Some (0, 0)
     else if c = backslash
     then (case cs of [] \<Rightarrow> None | _ # ds \<Rightarrow> map_option (\<lambda>(n, k). (n + 2, k + 1)) (scan_string ds))
     else map_option (\<lambda>(n, k). (n + 1, k)) (scan_string cs))"

text \<open>Writing characters to the allocated string.\<close>

definition emit :: "nat \<Rightarrow> string \<Rightarrow> string \<Rightarrow> string option" where
  "emit cap out cs = (if length out + length cs \<le> cap then Some (out @ cs) else None)"

definition simple_escape :: "char \<Rightarrow> char option" where
  "simple_escape c =
    (if c = CHR ''b'' then Some (CHR 0x08) else if c = CHR ''f'' then Some (CHR 0x0C) else if c = CHR ''n'' then Some (CHR 0x0A)
     else if c = CHR ''r'' then Some (CHR 0x0D) else if c = CHR ''t'' then Some (CHR 0x09)
     else if c = quote \<or> c = backslash \<or> c = CHR ''/'' then Some c else None)"

text \<open>The loop through the literal: the string written so far or a failure, and where the input pointer stands.\<close>

function unescape :: "string \<Rightarrow> nat \<Rightarrow> nat \<Rightarrow> nat \<Rightarrow> string \<Rightarrow> (string option \<times> nat) option" where
  "unescape content input_end cap p out =
    (if input_end \<le> p then Some (Some out, p)
     else do {
       c \<leftarrow> char_at content p;
       if c \<noteq> backslash then do { out \<leftarrow> emit cap out [c]; unescape content input_end cap (p + 1) out }
       else if input_end - p < 1 then Some (None, p)
       else do {
         c1 \<leftarrow> char_at content (p + 1);
         case simple_escape c1 of
           Some d \<Rightarrow> do { out \<leftarrow> emit cap out [d]; unescape content input_end cap (p + 2) out }
         | None \<Rightarrow>
             if c1 = CHR ''u''
             then
               let (sequence_length, cs) = utf16_literal_to_utf8 (take (input_end - p) (drop p content)) in
               if sequence_length = 0 then Some (None, p)
               else do { out \<leftarrow> emit cap out cs; unescape content input_end cap (p + sequence_length) out }
             else Some (None, p)
       }
     })"
  by pat_completeness auto
termination by (relation "measure (\<lambda>(content, input_end, cap, p, out). input_end - p)") auto

declare unescape.simps [simp del]

text \<open>\<open>valuestring\<close> is read as a C string, up to its first zero.\<close>

definition c_string :: "string \<Rightarrow> string" where
  "c_string s = takeWhile (\<lambda>c. c \<noteq> CHR 0x00) s"

definition parse_string :: "parse_buffer \<Rightarrow> (string option \<times> parse_buffer) option" where
  "parse_string b =
    do {
      c \<leftarrow> at_offset b 0;
      let start = pb_offset b + 1;
      if c \<noteq> quote then Some (None, b\<lparr>pb_offset := start\<rparr>)
      else
        case scan_string (drop start (pb_content b)) of
          None \<Rightarrow> Some (None, b\<lparr>pb_offset := start\<rparr>)
        | Some (n, skipped_bytes) \<Rightarrow>
            let input_end = start + n;
                allocation_length = input_end - pb_offset b - skipped_bytes;
                (ok, b) = allocate_one b in
            if \<not> ok then Some (None, b\<lparr>pb_offset := start\<rparr>)
            else do {
              (r, p) \<leftarrow> unescape (pb_content b) input_end (allocation_length + 1) start [];
              case r of
                None \<Rightarrow> Some (None, b\<lparr>pb_offset := p\<rparr>)
              | Some out \<Rightarrow> do {
                  out \<leftarrow> emit (allocation_length + 1) out [CHR 0x00];
                  Some (Some (c_string out), b\<lparr>pb_offset := input_end + 1\<rparr>)
                }
            }
    }"

section \<open>Values\<close>

text \<open>The recursion has fuel; \<open>parse_fuel\<close> below is enough for every text.  The two loops take the children parsed so far.\<close>

definition deeper :: "parse_buffer \<Rightarrow> parse_buffer" where
  "deeper b = b\<lparr>pb_depth := pb_depth b + 1\<rparr>"

definition close_bracket :: "parse_buffer \<Rightarrow> parse_buffer" where
  "close_bracket b = b\<lparr>pb_depth := pb_depth b - 1, pb_offset := pb_offset b + 1\<rparr>"

fun parse_value :: "nat \<Rightarrow> parse_buffer \<Rightarrow> (cJSON option \<times> parse_buffer) option"
and parse_array :: "nat \<Rightarrow> parse_buffer \<Rightarrow> (cJSON option \<times> parse_buffer) option"
and parse_elements :: "nat \<Rightarrow> cJSON list \<Rightarrow> parse_buffer \<Rightarrow> (cJSON option \<times> parse_buffer) option"
and parse_object :: "nat \<Rightarrow> parse_buffer \<Rightarrow> (cJSON option \<times> parse_buffer) option"
and parse_members :: "nat \<Rightarrow> (string \<times> cJSON) list \<Rightarrow> parse_buffer \<Rightarrow> (cJSON option \<times> parse_buffer) option" where
  "parse_value 0 b = None"
| "parse_value (Suc n) b =
    (if starts_with b ''null'' then Some (Some cJSON_NULL, move (\<lambda>k. k + 4) b)
     else if starts_with b ''false'' then Some (Some (cJSON_Bool False), move (\<lambda>k. k + 5) b)
     else if starts_with b ''true'' then Some (Some (cJSON_Bool True), move (\<lambda>k. k + 4) b)
     else if looking_at b quote then map_option (map_prod (map_option cJSON_String) id) (parse_string b)
     else if can_access_at_index b 0 \<and> (case at_offset b 0 of None \<Rightarrow> False | Some c \<Rightarrow> c = CHR ''-'' \<or> is_digit c) then Some (parse_number b)
     else if looking_at b (CHR ''['') then parse_array n b
     else if looking_at b (CHR ''{'') then parse_object n b
     else Some (None, b))"
| "parse_array 0 b = None"
| "parse_array (Suc n) b =
    (if pb_depth b \<ge> CJSON_NESTING_LIMIT then Some (None, b)
     else do {
       let b = deeper b;
       c \<leftarrow> at_offset b 0;
       if c \<noteq> CHR ''['' then Some (None, b)
       else
         let b = buffer_skip_whitespace (move (\<lambda>k. k + 1) b) in
         if looking_at b (CHR '']'') then Some (Some (cJSON_Array []), close_bracket b)
         else if \<not> can_access_at_index b 0 then Some (None, move (\<lambda>k. k - 1) b)
         else parse_elements n [] (move (\<lambda>k. k - 1) b)
     })"
| "parse_elements 0 items b = None"
| "parse_elements (Suc n) items b =
    (let (ok, b) = allocate_one b in
     if \<not> ok then Some (None, b)
     else do {
       (r, b) \<leftarrow> parse_value n (buffer_skip_whitespace (move (\<lambda>k. k + 1) b));
       case r of
         None \<Rightarrow> Some (None, b)
       | Some item \<Rightarrow>
           let b = buffer_skip_whitespace b; items = items @ [item] in
           if looking_at b (CHR '','') then parse_elements n items b
           else if \<not> looking_at b (CHR '']'') then Some (None, b)
           else Some (Some (cJSON_Array items), close_bracket b)
     })"
| "parse_object 0 b = None"
| "parse_object (Suc n) b =
    (if pb_depth b \<ge> CJSON_NESTING_LIMIT then Some (None, b)
     else
       let b = deeper b in
       if \<not> looking_at b (CHR ''{'') then Some (None, b)
       else
         let b = buffer_skip_whitespace (move (\<lambda>k. k + 1) b) in
         if looking_at b (CHR ''}'') then Some (Some (cJSON_Object []), close_bracket b)
         else if \<not> can_access_at_index b 0 then Some (None, move (\<lambda>k. k - 1) b)
         else parse_members n [] (move (\<lambda>k. k - 1) b))"
| "parse_members 0 items b = None"
| "parse_members (Suc n) items b =
    (let (ok, b) = allocate_one b in
     if \<not> ok then Some (None, b)
     else if \<not> can_access_at_index b 1 then Some (None, b)
     else do {
       (name, b) \<leftarrow> parse_string (buffer_skip_whitespace (move (\<lambda>k. k + 1) b));
       case name of
         None \<Rightarrow> Some (None, b)
       | Some name \<Rightarrow>
           let b = buffer_skip_whitespace b in
           if \<not> looking_at b (CHR '':'') then Some (None, b)
           else do {
             (r, b) \<leftarrow> parse_value n (buffer_skip_whitespace (move (\<lambda>k. k + 1) b));
             case r of
               None \<Rightarrow> Some (None, b)
             | Some item \<Rightarrow>
                 let b = buffer_skip_whitespace b; items = items @ [(name, item)] in
                 if looking_at b (CHR '','') then parse_members n items b
                 else if \<not> looking_at b (CHR ''}'') then Some (None, b)
                 else Some (Some (cJSON_Object items), close_bracket b)
           }
     })"

section \<open>Texts\<close>

definition parse_fuel :: "string \<Rightarrow> nat" where
  "parse_fuel s = 3 * length s + 4"

definition new_buffer :: "(nat \<Rightarrow> bool) \<Rightarrow> string \<Rightarrow> parse_buffer" where
  "new_buffer allocate s = \<lparr>pb_content = s, pb_offset = 0, pb_depth = 0, pb_allocate = allocate, pb_allocations = 0\<rparr>"

text \<open>The item and the end of the parse, or the position of the error.\<close>

definition cJSON_ParseWithLengthOpts :: "(nat \<Rightarrow> bool) \<Rightarrow> string \<Rightarrow> bool \<Rightarrow> (cJSON option \<times> nat) option" where
  "cJSON_ParseWithLengthOpts allocate value require_null_terminated =
    (let failed = (\<lambda>b. Some (None, if pb_offset b < length value then pb_offset b else if length value > 0 then length value - 1 else 0)) in
     if value = [] then failed (new_buffer allocate value)
     else
       let (ok, b) = allocate_one (new_buffer allocate value) in
       if \<not> ok then failed b
       else do {
         (r, b) \<leftarrow> parse_value (parse_fuel value) (buffer_skip_whitespace (skip_utf8_bom b));
         case r of
           None \<Rightarrow> failed b
         | Some item \<Rightarrow>
             if require_null_terminated
             then
               let b = buffer_skip_whitespace b in
               if \<not> looking_at b (CHR 0x00) then failed b else Some (Some item, pb_offset b)
             else Some (Some item, pb_offset b)
       })"

definition cJSON_ParseWithOpts :: "(nat \<Rightarrow> bool) \<Rightarrow> string \<Rightarrow> bool \<Rightarrow> (cJSON option \<times> nat) option" where
  "cJSON_ParseWithOpts allocate value require_null_terminated =
    cJSON_ParseWithLengthOpts allocate (value @ [CHR 0x00]) require_null_terminated"

fun line_column :: "string \<Rightarrow> nat \<Rightarrow> nat \<Rightarrow> nat \<times> nat" where
  "line_column [] line column = (line, column)"
| "line_column (c # cs) line column = (if c = CHR 0x0A then line_column cs (line + 1) 1 else line_column cs line (column + 1))"

definition CJSON_ERROR_SNIPPET_LEN :: nat where "CJSON_ERROR_SNIPPET_LEN = 32"

definition cjson_parse :: "(nat \<Rightarrow> bool) \<Rightarrow> string \<Rightarrow> cJSON parsed option" where
  "cjson_parse allocate json =
    do {
      (item, end) \<leftarrow> cJSON_ParseWithOpts allocate json True;
      case item of
        Some item \<Rightarrow> Some (Inr item)
      | None \<Rightarrow>
          let (line, column) = line_column (take end json) 1 1;
              snippet = takeWhile (\<lambda>c. c \<noteq> CHR 0x00 \<and> c \<noteq> CHR 0x0A \<and> c \<noteq> CHR 0x0D) (take CJSON_ERROR_SNIPPET_LEN (drop end (json @ [CHR 0x00])))
          in Some (fail (''JSON parse error at line %d, column %d near '' @ [CHR 0x27] @ ''%.*s'' @ [CHR 0x27])
                     [A_int (int line), A_int (int column), A_int (int (length snippet)), A_str snippet])
    }"

section \<open>The parser is safe\<close>

lemmas buffer_defs = can_read_def can_access_at_index_def at_offset_def char_at_def looking_at_def starts_with_def move_def

text \<open>Whitespace: at the end of the text the offset stays on the last character.\<close>

definition same_text :: "parse_buffer \<Rightarrow> parse_buffer \<Rightarrow> bool" where
  "same_text b b' \<longleftrightarrow> pb_content b' = pb_content b \<and> pb_allocate b' = pb_allocate b"

lemma same_text_trans: "same_text a b \<Longrightarrow> same_text b c \<Longrightarrow> same_text a c"
  by (simp add: same_text_def)

lemma skip_whitespace:
  "same_text b (buffer_skip_whitespace b)" "pb_depth (buffer_skip_whitespace b) = pb_depth b"
  "pb_offset b \<le> pb_offset (buffer_skip_whitespace b)"
  "pb_offset b < length (pb_content b) \<Longrightarrow> pb_offset (buffer_skip_whitespace b) < length (pb_content b)"
  "length (pb_content b) \<le> pb_offset b \<Longrightarrow> buffer_skip_whitespace b = b"
proof -
  let ?w = "takeWhile (\<lambda>c. of_char c \<le> (32 :: nat)) (drop (pb_offset b) (pb_content b))"
  have "length ?w \<le> length (pb_content b) - pb_offset b" using length_takeWhile_le [of _ "drop (pb_offset b) (pb_content b)"] by simp
  then show "pb_offset b \<le> pb_offset (buffer_skip_whitespace b)"
    "pb_offset b < length (pb_content b) \<Longrightarrow> pb_offset (buffer_skip_whitespace b) < length (pb_content b)"
    by (auto simp: buffer_skip_whitespace_def buffer_defs Let_def)
qed (auto simp: buffer_skip_whitespace_def buffer_defs same_text_def Let_def)

text \<open>Where the scan for the closing quote has skipped a backslash: never at two places in a row, and always at a backslash.\<close>

definition sparse :: "nat set \<Rightarrow> nat \<Rightarrow> bool" where
  "sparse S n \<longleftrightarrow> S \<subseteq> {..<n} \<and> (\<forall>i \<in> S. Suc i \<notin> S)"

lemma sparse_finite: "sparse S n \<Longrightarrow> finite S"
  by (auto simp: sparse_def intro: finite_subset)

lemma sparse_window:
  assumes "sparse S n"
  shows "card (S \<inter> {q..<q + k}) \<le> (k + 1) div 2"
proof (induction k arbitrary: q rule: nat_induct2)
  case 1
  have "S \<inter> {q..<q + 1} \<subseteq> {q}" by auto
  then have "card (S \<inter> {q..<q + 1}) \<le> card {q}" by (intro card_mono) auto
  then show ?case by simp
next
  case (step k)
  have "S \<inter> {q, Suc q} \<subseteq> {q} \<or> S \<inter> {q, Suc q} \<subseteq> {Suc q}" using assms by (auto simp: sparse_def)
  then have "card (S \<inter> {q, Suc q}) \<le> 1" by (metis card_mono card_1_singleton_iff finite.emptyI finite.insertI One_nat_def is_singletonI is_singleton_altdef)
  moreover have "S \<inter> {q..<q + (k + 2)} = (S \<inter> {q, Suc q}) \<union> (S \<inter> {q + 2..<q + 2 + k})" by auto
  then have "card (S \<inter> {q..<q + (k + 2)}) \<le> card (S \<inter> {q, Suc q}) + card (S \<inter> {q + 2..<q + 2 + k})" by (simp add: card_Un_le)
  ultimately show ?case using step [of "q + 2"] by simp
qed simp

lemma sparse_below:
  assumes "sparse S n"
  shows "card (S \<inter> {..<q + k}) \<le> card (S \<inter> {..<q}) + (k + 1) div 2"
proof -
  have "S \<inter> {..<q + k} = (S \<inter> {..<q}) \<union> (S \<inter> {q..<q + k})" by auto
  then have "card (S \<inter> {..<q + k}) \<le> card (S \<inter> {..<q}) + card (S \<inter> {q..<q + k})" by (simp add: card_Un_le)
  then show ?thesis using sparse_window [OF assms, of q k] by simp
qed

lemma sparse_above:
  assumes "sparse S n" "q \<le> n + 1"
  shows "card S + q \<le> card (S \<inter> {..<q}) + n + 1"
proof -
  have f: "finite S" by (rule sparse_finite [OF assms(1)])
  have "S = (S \<inter> {..<q}) \<union> (S \<inter> {q..<n})" using assms(1) by (auto simp: sparse_def)
  then have "card S \<le> card (S \<inter> {..<q}) + card (S \<inter> {q..<n})" by (metis card_Un_le)
  moreover have "card (S \<inter> {q..<n}) \<le> card {q..<n}" by (intro card_mono) auto
  ultimately show ?thesis using assms(2) by simp
qed

lemma scan_string_escapes:
  "scan_string s = Some (n, k) \<Longrightarrow>
     n < length s \<and> s ! n = quote \<and> (\<exists>S. sparse S n \<and> card S = k \<and> (\<forall>i \<in> S. s ! i = backslash))"
proof (induction s arbitrary: n k rule: length_induct)
  case (1 s)
  obtain c cs where s: "s = c # cs" using 1(2) by (cases s) auto
  have shift: "sparse ((\<lambda>i. i + m) ` S) (n' + m)" "card ((\<lambda>i. i + m) ` S) = card S" if "sparse S n'" for S n' m
    using that by (auto simp: sparse_def card_image)
  consider (q) "c = quote" "n = 0" "k = 0" | (e) d ds n' k' where "c = backslash" "cs = d # ds" "scan_string ds = Some (n', k')" "n = n' + 2" "k = k' + 1"
    | (p) n' where "c \<noteq> quote" "c \<noteq> backslash" "scan_string cs = Some (n', k)" "n = n' + 1"
    using 1(2) s by (auto split: if_splits list.splits)
  then show ?case
  proof cases
    case q
    then show ?thesis using s by (auto simp: sparse_def intro!: exI [of _ "{}"])
  next
    case e
    then have "length ds < length s" using s by simp
    from 1(1) [rule_format, OF this e(3)] obtain S
      where S: "n' < length ds" "ds ! n' = quote" "sparse S n'" "card S = k'" "\<forall>i \<in> S. ds ! i = backslash" by blast
    let ?S = "insert 0 ((\<lambda>i. i + 2) ` S)"
    have "sparse ?S n" using shift(1) [OF S(3), of 2] e(4) by (auto simp: sparse_def)
    moreover have "card ?S = k" using shift(2) [OF S(3), of 2] sparse_finite [OF S(3)] S(4) e(5) by (subst card_insert_disjoint) auto
    moreover have "\<forall>i \<in> ?S. s ! i = backslash" using S(5) s e(1,2) by auto
    ultimately show ?thesis using S(1,2) s e by auto
  next
    case p
    then have "length cs < length s" using s by simp
    from 1(1) [rule_format, OF this p(3)] obtain S
      where S: "n' < length cs" "cs ! n' = quote" "sparse S n'" "card S = k" "\<forall>i \<in> S. cs ! i = backslash" by blast
    let ?S = "(\<lambda>i. i + 1) ` S"
    have "sparse ?S n" "card ?S = k" using shift [OF S(3), of 1] S(4) p(4) by simp_all
    moreover have "\<forall>i \<in> ?S. s ! i = backslash" using S(5) s by auto
    ultimately show ?thesis using S(1,2) s p by auto
  qed
qed

text \<open>A literal of six characters writes at most three, one of twelve at most four.\<close>

lemma hex_val_bound: "hex_val c = Some v \<Longrightarrow> v < 16"
  by (auto simp: hex_val_def Let_def split: if_splits)

lemma parse_hex4_bound: "parse_hex4 s < 0x10000"
proof (cases "\<exists>a b c d. map hex_val (take 4 s) = [Some a, Some b, Some c, Some d]")
  case True
  then obtain a b c d where m: "map hex_val (take 4 s) = [Some a, Some b, Some c, Some d]" by auto
  then have "{Some a, Some b, Some c, Some d} = hex_val ` set (take 4 s)" by (metis list.set_map list.simps(15) empty_set)
  then have "a < 16" "b < 16" "c < 16" "d < 16" using hex_val_bound by (metis imageE insertCI)+
  then show ?thesis using m by (simp add: parse_hex4_def)
next
  case False
  then have "parse_hex4 s = 0" unfolding parse_hex4_def by (auto split: list.splits option.splits)
  then show ?thesis by simp
qed

lemma utf8_tail_length: "utf8_tail n cp = (r, s) \<Longrightarrow> length s = n"
  by (induction n arbitrary: cp r s) (auto split: prod.splits)

lemma utf8_encode_length: "utf8_encode cp = Some s \<Longrightarrow> length s \<le> (if cp < 0x10000 then 3 else 4)"
  by (auto simp: utf8_encode_def Let_def dest: utf8_tail_length split: if_splits prod.splits)

lemma utf16_literal_length:
  assumes "utf16_literal_to_utf8 s = (n, cs)" "n \<noteq> 0"
  shows "n \<le> length s \<and> (n = 6 \<and> length cs \<le> 3 \<or> n = 12 \<and> length cs \<le> 4)"
  using assms parse_hex4_bound [of "drop 2 s"]
  by (auto simp: utf16_literal_to_utf8_def Let_def split: if_splits option.splits dest!: utf8_encode_length)

text \<open>Writing stays inside the string that was allocated: of the characters read, those skipped by the scan are not written, also
  where a literal of the form \<open>\u\<close> has moved the reader out of step with the scan.\<close>

lemma written_fits:
  assumes "sparse S n" "q \<le> n + 1" "w + card (S \<inter> {..<q}) \<le> q"
  shows "w + 1 \<le> n + 2 - card S"
  using sparse_above [OF assms(1,2)] assms(3) by linarith

lemma written_step:
  assumes "sparse S n" "w + card (S \<inter> {..<q}) \<le> q" "m + (k + 1) div 2 \<le> k"
  shows "w + m + card (S \<inter> {..<q + k}) \<le> q + k"
  using sparse_below [OF assms(1), of q k] assms(2,3) by linarith

lemma emit_Some: "w = length out \<Longrightarrow> w + length cs \<le> cap \<Longrightarrow> emit cap out cs = Some (out @ cs)"
  by (simp add: emit_def)

lemma unescape_safe:
  assumes S: "sparse S n" "\<forall>i \<in> S. content ! (start + i) = backslash" and n: "start + n < length content" and cap: "cap = n + 2 - card S"
  shows "q \<le> n + 1 \<Longrightarrow> length out + card (S \<inter> {..<q}) \<le> q \<Longrightarrow>
    \<exists>r p'. unescape content (start + n) cap (start + q) out = Some (r, p') \<and> start \<le> p' \<and> (\<forall>out'. r = Some out' \<longrightarrow> length out' + 1 \<le> cap)"
proof (induction "n + 1 - q" arbitrary: q out rule: less_induct)
  case less
  note fits = written_fits [OF S(1), folded cap]
  show ?case
  proof (cases "q < n")
    case False
    then show ?thesis using fits [OF less.prems] by (subst unescape.simps) simp
  next
    case True
    have go: "\<exists>r p'. do { out \<leftarrow> emit cap out cs; unescape content (start + n) cap (start + q + k) out } = Some (r, p') \<and> start \<le> p' \<and>
      (\<forall>out'. r = Some out' \<longrightarrow> length out' + 1 \<le> cap)"
      if "0 < k" "q + k \<le> n + 1" "length out + length cs + card (S \<inter> {..<q + k}) \<le> q + k" for cs k
    proof -
      have "emit cap out cs = Some (out @ cs)" using fits [OF that(2,3)] by (simp add: emit_def)
      then show ?thesis using less.hyps [of "q + k" "out @ cs"] that True by (simp add: add.assoc)
    qed
    have at: "char_at content (start + q) = Some (content ! (start + q))" "char_at content (start + q + 1) = Some (content ! (start + q + 1))"
      using True n by (simp_all add: char_at_def)
    show ?thesis
    proof (cases "content ! (start + q) = backslash")
      case False
      then have "q \<notin> S" using S(2) by auto
      then have "S \<inter> {..<q + 1} = S \<inter> {..<q}" by (auto simp: less_Suc_eq)
      then show ?thesis using go [of 1 "[content ! (start + q)]"] less.prems(2) True False at(1) by (subst unescape.simps) simp
    next
      case esc: True
      let ?c = "content ! (start + q + 1)"
      show ?thesis
      proof (cases "simple_escape ?c")
        case (Some d)
        then show ?thesis using go [of 2 "[d]"] written_step [OF S(1) less.prems(2), of 1 2] True esc at by (subst unescape.simps) simp
      next
        case None
        obtain k cs where u: "utf16_literal_to_utf8 (take (n - q) (drop (start + q) content)) = (k, cs)" by (rule prod.exhaust)
        have k: "k \<noteq> 0 \<Longrightarrow> k \<le> n - q \<and> length cs + (k + 1) div 2 \<le> k" using utf16_literal_length [OF u] by auto
        show ?thesis using go [of k cs] written_step [OF S(1) less.prems(2), of "length cs" k] k True esc at None u
          by (subst unescape.simps) (auto simp: Let_def)
      qed
    qed
  qed
qed

text \<open>The string that is parsed has no zero, and a parse that succeeds moves on inside the text.\<close>

lemma parse_string_safe:
  assumes "pb_offset b < length (pb_content b)"
  shows "\<exists>r b'. parse_string b = Some (r, b') \<and> same_text b b' \<and> pb_depth b' = pb_depth b \<and>
    (\<forall>s. r = Some s \<longrightarrow> pb_offset b < pb_offset b' \<and> pb_offset b' \<le> length (pb_content b) \<and> CHR 0x00 \<notin> set s)"
proof -
  let ?start = "pb_offset b + 1" and ?b = "b\<lparr>pb_allocations := pb_allocations b + 1\<rparr>"
  have at: "at_offset b 0 = Some (pb_content b ! pb_offset b)" using assms by (simp add: at_offset_def char_at_def)
  show ?thesis
  proof (cases "pb_content b ! pb_offset b = quote \<and> pb_allocate b (pb_allocations b) \<and> scan_string (drop ?start (pb_content b)) \<noteq> None")
    case False
    then show ?thesis using at by (auto simp: parse_string_def allocate_one_def same_text_def Let_def split: option.splits)
  next
    case True
    then obtain n k where sc: "scan_string (drop ?start (pb_content b)) = Some (n, k)" by auto
    then obtain S where S: "?start + n < length (pb_content b)" "sparse S n" "card S = k" "\<forall>i \<in> S. pb_content b ! (?start + i) = backslash"
      using scan_string_escapes [OF sc] assms by (auto simp: less_diff_conv add.commute add.left_commute)
    have cap: "?start + n - pb_offset b - k + 1 = n + 2 - card S" using S(3) sparse_above [OF S(2), of "n + 1"] card_mono [of "{..<n}" S] S(2)
      by (simp add: sparse_def)
    have "\<exists>r p. unescape (pb_content b) (?start + n) (?start + n - pb_offset b - k + 1) ?start [] = Some (r, p) \<and> ?start \<le> p \<and>
      (\<forall>out. r = Some out \<longrightarrow> length out + 1 \<le> ?start + n - pb_offset b - k + 1)"
      using unescape_safe [OF S(2,4,1) cap, of 0 "[]"] by simp
    then obtain r p where u: "unescape (pb_content b) (?start + n) (?start + n - pb_offset b - k + 1) ?start [] = Some (r, p)"
      "\<forall>out. r = Some out \<longrightarrow> length out + 1 \<le> ?start + n - pb_offset b - k + 1" by blast
    have e: "parse_string b = (case r of None \<Rightarrow> Some (None, ?b\<lparr>pb_offset := p\<rparr>)
      | Some out \<Rightarrow> Some (Some (c_string (out @ [CHR 0x00])), ?b\<lparr>pb_offset := ?start + n + 1\<rparr>))"
      using at True sc u by (auto simp: parse_string_def allocate_one_def emit_def Let_def split: option.split)
    have "CHR 0x00 \<notin> set (c_string s)" for s by (auto simp: c_string_def dest: set_takeWhileD)
    then show ?thesis using S(1) unfolding e by (cases r) (auto simp: same_text_def)
  qed
qed

text \<open>A well-formed tree: nesting within a limit, and no zero inside a string or a name.\<close>

fun json_ok :: "nat \<Rightarrow> cJSON \<Rightarrow> bool" where
  "json_ok d cJSON_NULL = True"
| "json_ok d (cJSON_Bool b) = True"
| "json_ok d (cJSON_Number x) = True"
| "json_ok d (cJSON_String s) = (CHR 0x00 \<notin> set s)"
| "json_ok d (cJSON_Array items) = (0 < d \<and> (\<forall>item \<in> set items. json_ok (d - 1) item))"
| "json_ok d (cJSON_Object items) = (0 < d \<and> (\<forall>(name, item) \<in> set items. CHR 0x00 \<notin> set name \<and> json_ok (d - 1) item))"

definition parsed_ok :: "nat \<Rightarrow> parse_buffer \<Rightarrow> (cJSON option \<times> parse_buffer) option \<Rightarrow> bool" where
  "parsed_ok D b R \<longleftrightarrow> (\<exists>r b'. R = Some (r, b') \<and> same_text b b' \<and>
     (\<forall>item. r = Some item \<longrightarrow> pb_offset b < pb_offset b' \<and> pb_offset b' \<le> length (pb_content b) \<and> pb_depth b' = D \<and>
        json_ok (CJSON_NESTING_LIMIT - D) item))"

lemma parsed_ok_failed: "same_text b b' \<Longrightarrow> parsed_ok D b (Some (None, b'))"
  by (simp add: parsed_ok_def)

lemma parsed_ok_from: "same_text b0 b \<Longrightarrow> pb_offset b0 \<le> pb_offset b \<Longrightarrow> parsed_ok D b R \<Longrightarrow> parsed_ok D b0 R"
  unfolding parsed_ok_def same_text_def by fastforce

lemma strtod_exponent_length: "strtod_exponent s = (e, n) \<Longrightarrow> n \<le> length s"
proof (cases s)
  case (Cons c t)
  have "length (takeWhile is_digit t) \<le> length t" "t \<noteq> [] \<Longrightarrow> Suc (length (takeWhile is_digit (tl t))) \<le> length t"
    using length_takeWhile_le [of is_digit t] length_takeWhile_le [of is_digit "tl t"] by (simp, cases t) simp_all
  then show "strtod_exponent s = (e, n) \<Longrightarrow> n \<le> length s" unfolding Cons
    by (simp add: strtod_exponent_def Let_def split: if_splits)
qed (simp add: strtod_exponent_def)

lemma strtod_length: "snd (strtod s) \<le> length s"
proof -
  define t where "t = (if s \<noteq> [] \<and> (hd s = CHR ''-'' \<or> hd s = CHR ''+'') then tl s else s)"
  define k where "k = (if s \<noteq> [] \<and> (hd s = CHR ''-'' \<or> hd s = CHR ''+'') then 1 else 0 :: nat)"
  define w where "w = takeWhile is_digit t"
  define t1 where "t1 = drop (length w) t"
  define point where "point \<longleftrightarrow> t1 \<noteq> [] \<and> hd t1 = CHR ''.''"
  define f where "f = (if point then takeWhile is_digit (tl t1) else [])"
  define t2 where "t2 = (if point then drop (length f) (tl t1) else t1)"
  obtain e n where en: "strtod_exponent t2 = (e, n)" by (rule prod.exhaust)
  have "length s = k + length t" by (auto simp: t_def k_def)
  moreover have "length t = length w + length t1" using length_takeWhile_le [of is_digit t] by (simp add: t1_def w_def)
  moreover have "length t1 = (if point then 1 else 0) + length f + length t2"
    using length_takeWhile_le [of is_digit "tl t1"] by (cases t1) (auto simp: t2_def f_def point_def)
  moreover have "snd (strtod s) = (if w @ f = [] then 0 else k + length w + (if point then 1 else 0) + length f + n)"
    unfolding strtod_def Let_def t_def [symmetric] w_def [symmetric] t1_def [symmetric] point_def [symmetric] f_def [symmetric] t2_def [symmetric]
      en k_def [symmetric] by simp
  ultimately show ?thesis using strtod_exponent_length [OF en] by auto
qed

lemma parse_number_safe: "parsed_ok (pb_depth b) b (Some (parse_number b))"
proof -
  let ?s = "takeWhile number_char (take 63 (drop (pb_offset b) (pb_content b)))"
  have "length ?s \<le> length (pb_content b) - pb_offset b"
    using length_takeWhile_le [of number_char "take 63 (drop (pb_offset b) (pb_content b))"] by simp
  then show ?thesis using strtod_length [of ?s]
    by (cases "strtod ?s") (auto simp: parse_number_def parsed_ok_def same_text_def move_def)
qed

lemma starts_with_fits: "starts_with b s \<Longrightarrow> pb_offset b + length s \<le> length (pb_content b)"
  by (simp add: starts_with_def can_read_def)

lemma looking_at_inside: "looking_at b c \<Longrightarrow> pb_offset b < length (pb_content b)"
  by (simp add: looking_at_def can_access_at_index_def)

lemma move_sel [simp]: "same_text b (move f b)" "pb_depth (move f b) = pb_depth b" "pb_offset (move f b) = f (pb_offset b)"
  "pb_content (move f b) = pb_content b" "pb_allocate (move f b) = pb_allocate b"
  by (simp_all add: move_def same_text_def)

text \<open>The step from each parsing function to the ones it calls.\<close>

definition text_left :: "parse_buffer \<Rightarrow> nat" where
  "text_left b = length (pb_content b) - pb_offset b"

lemma parse_value_step:
  assumes "pb_offset b < length (pb_content b) \<Longrightarrow> parsed_ok (pb_depth b) b (parse_array n b)"
    "pb_offset b < length (pb_content b) \<Longrightarrow> parsed_ok (pb_depth b) b (parse_object n b)"
  shows "parsed_ok (pb_depth b) b (parse_value (Suc n) b)"
proof -
  have literal: "parsed_ok (pb_depth b) b (Some (Some item, move (\<lambda>k. k + m) b))"
    if "starts_with b s" "length s = m" "0 < m" "\<And>d. json_ok d item" for s m item
    using starts_with_fits [OF that(1)] that(2-4) by (simp add: parsed_ok_def)
  have str: "parsed_ok (pb_depth b) b (map_option (map_prod (map_option cJSON_String) id) (parse_string b))" if "looking_at b quote"
    using parse_string_safe [OF looking_at_inside [OF that]] by (auto simp: parsed_ok_def)
  show ?thesis using literal [of "''null''" 4] literal [of "''false''" 5] literal [of "''true''" 4] str parse_number_safe [of b]
      assms looking_at_inside [of b] parsed_ok_failed [of b b]
    by (simp add: same_text_def)
qed

lemma skip_move:
  assumes "b' = buffer_skip_whitespace (move (\<lambda>k. k + 1) b)"
  shows "same_text b b'" "pb_depth b' = pb_depth b" "pb_offset b < pb_offset b'"
    "pb_offset b + 1 < length (pb_content b) \<Longrightarrow> pb_offset b' < length (pb_content b)"
  using assms skip_whitespace [of "move (\<lambda>k. k + 1) b"] by (simp_all add: same_text_def)

lemma parse_bracket_step:
  assumes b: "pb_offset b < length (pb_content b)" "pb_depth b < CJSON_NESTING_LIMIT"
    and b1: "b1 = buffer_skip_whitespace (move (\<lambda>k. k + 1) (deeper b))"
    and empty: "\<And>d. 0 < d \<Longrightarrow> json_ok d empty_item"
    and loop: "\<And>b2. same_text b b2 \<Longrightarrow> pb_offset b \<le> pb_offset b2 \<Longrightarrow> pb_offset b2 < length (pb_content b2) \<Longrightarrow> pb_depth b2 = Suc (pb_depth b) \<Longrightarrow>
      parsed_ok (pb_depth b) b2 (R b2)"
  shows "parsed_ok (pb_depth b) b
    (if looking_at b1 c then Some (Some empty_item, close_bracket b1)
     else if \<not> can_access_at_index b1 0 then Some (None, move (\<lambda>k. k - 1) b1) else R (move (\<lambda>k. k - 1) b1))"
proof -
  have b1': "same_text b b1" "pb_depth b1 = Suc (pb_depth b)" "pb_offset b < pb_offset b1"
    using skip_move [OF b1] by (simp_all add: same_text_def deeper_def)
  show ?thesis
  proof (cases "looking_at b1 c")
    case True
    then show ?thesis using b1' looking_at_inside [OF True] b(2) empty
      by (simp add: parsed_ok_def close_bracket_def same_text_def)
  next
    case False
    show ?thesis
    proof (cases "can_access_at_index b1 0")
      case True
      let ?b2 = "move (\<lambda>k. k - 1) b1"
      have b2: "same_text b ?b2" "pb_offset b \<le> pb_offset ?b2" using b1' by (auto intro: same_text_trans)
      then have "parsed_ok (pb_depth b) ?b2 (R ?b2)" using b1' True by (intro loop) (auto simp: can_access_at_index_def)
      then show ?thesis using False True parsed_ok_from [OF b2] by simp
    qed (use False b1' in \<open>simp add: parsed_ok_failed same_text_trans [OF b1'(1)]\<close>)
  qed
qed

text \<open>The end of a round of either loop: the next child, or the closing bracket.\<close>

lemma parse_round_step:
  assumes b: "same_text b0 b" "pb_offset b0 < pb_offset b" "pb_offset b \<le> length (pb_content b0)" "pb_depth b = Suc D" "D < CJSON_NESTING_LIMIT"
    and b1: "b1 = buffer_skip_whitespace b" and item: "json_ok (CJSON_NESTING_LIMIT - D) item"
    and loop: "same_text b0 b1 \<Longrightarrow> pb_offset b0 < pb_offset b1 \<Longrightarrow> pb_offset b1 < length (pb_content b1) \<Longrightarrow> pb_depth b1 = Suc D \<Longrightarrow> parsed_ok D b1 R"
  shows "parsed_ok D b0 (if looking_at b1 (CHR '','') then R else if \<not> looking_at b1 c then Some (None, b1) else Some (Some item, close_bracket b1))"
proof -
  have b1': "same_text b0 b1" "pb_offset b0 < pb_offset b1" "pb_depth b1 = Suc D"
    using skip_whitespace(1-3) [of b] b by (auto simp: b1 intro: same_text_trans)
  show ?thesis
  proof (cases "looking_at b1 (CHR '','')")
    case True
    then show ?thesis using loop [OF b1'(1,2) looking_at_inside b1'(3)] parsed_ok_from [OF b1'(1)] b1'(2) by simp
  next
    case False
    then show ?thesis using b1' looking_at_inside [of b1 c] item
      by (auto simp: parsed_ok_def close_bracket_def same_text_def)
  qed
qed

definition values_safe :: "nat \<Rightarrow> bool" where
  "values_safe n \<longleftrightarrow> (\<forall>b. 3 * text_left b + 1 \<le> n \<longrightarrow> parsed_ok (pb_depth b) b (parse_value n b))"

definition in_loop :: "nat \<Rightarrow> nat \<Rightarrow> parse_buffer \<Rightarrow> bool" where
  "in_loop n D b \<longleftrightarrow> 3 * text_left b \<le> n + 1 \<and> pb_offset b < length (pb_content b) \<and> pb_depth b = Suc D \<and> D < CJSON_NESTING_LIMIT"

definition elements_safe :: "nat \<Rightarrow> bool" where
  "elements_safe n \<longleftrightarrow> (\<forall>b D items. in_loop n D b \<and> (\<forall>item \<in> set items. json_ok (CJSON_NESTING_LIMIT - Suc D) item) \<longrightarrow>
     parsed_ok D b (parse_elements n items b))"

definition members_safe :: "nat \<Rightarrow> bool" where
  "members_safe n \<longleftrightarrow> (\<forall>b D items. in_loop n D b \<and> (\<forall>(name, item) \<in> set items. CHR 0x00 \<notin> set name \<and> json_ok (CJSON_NESTING_LIMIT - Suc D) item) \<longrightarrow>
     parsed_ok D b (parse_members n items b))"

lemma in_loop_next:
  assumes "in_loop (Suc n) D b" "same_text b b1" "pb_offset b < pb_offset b1" "pb_offset b1 < length (pb_content b1)" "pb_depth b1 = Suc D"
  shows "in_loop n D b1"
  using assms by (auto simp: in_loop_def text_left_def same_text_def)

lemma value_in_loop:
  assumes "values_safe n" "in_loop (Suc n) D b" "same_text b b1" "pb_offset b < pb_offset b1" "pb_depth b1 = Suc D"
  shows "\<exists>r b2. parse_value n b1 = Some (r, b2) \<and> same_text b b2 \<and>
    (\<forall>item. r = Some item \<longrightarrow> pb_offset b < pb_offset b2 \<and> pb_offset b2 \<le> length (pb_content b) \<and> pb_depth b2 = Suc D \<and>
       json_ok (CJSON_NESTING_LIMIT - Suc D) item)"
proof -
  have "3 * text_left b1 + 1 \<le> n" using assms(2-4) unfolding in_loop_def text_left_def same_text_def by auto
  then have "parsed_ok (Suc D) b1 (parse_value n b1)" using assms(1,5) by (metis values_safe_def)
  then have "parsed_ok (Suc D) b (parse_value n b1)" using assms(3,4) by (intro parsed_ok_from [of b b1]) simp_all
  then show ?thesis by (auto simp: parsed_ok_def)
qed

lemma elements_step:
  assumes v: "values_safe n" and e: "elements_safe n"
  shows "elements_safe (Suc n)"
  unfolding elements_safe_def
proof (intro allI impI, elim conjE)
  fix b D items
  assume b: "in_loop (Suc n) D b" and items: "\<forall>item \<in> set items. json_ok (CJSON_NESTING_LIMIT - Suc D) item"
  let ?b0 = "b\<lparr>pb_allocations := pb_allocations b + 1\<rparr>"
  define b1 where "b1 = buffer_skip_whitespace (move (\<lambda>k. k + 1) ?b0)"
  have b1_eq: "buffer_skip_whitespace (move Suc (b\<lparr>pb_allocations := Suc (pb_allocations b)\<rparr>)) = b1" by (simp add: b1_def)
  have b1': "same_text b b1" "pb_offset b < pb_offset b1" "pb_depth b1 = Suc D"
    using skip_move [OF b1_def] b by (simp_all add: same_text_def in_loop_def)
  obtain r b2 where r: "parse_value n b1 = Some (r, b2)" "same_text b b2"
    "\<And>item. r = Some item \<Longrightarrow> pb_offset b < pb_offset b2 \<and> pb_offset b2 \<le> length (pb_content b) \<and> pb_depth b2 = Suc D \<and>
       json_ok (CJSON_NESTING_LIMIT - Suc D) item"
    using value_in_loop [OF v b b1'] by blast
  show "parsed_ok D b (parse_elements (Suc n) items b)"
  proof (cases "pb_allocate b (pb_allocations b) \<and> r \<noteq> None")
    case False
    then show ?thesis using r(1,2) by (auto simp: allocate_one_def b1_eq same_text_def intro!: parsed_ok_failed)
  next
    case True
    then obtain item where item: "r = Some item" by auto
    have ok: "\<forall>item \<in> set (items @ [item]). json_ok (CJSON_NESTING_LIMIT - Suc D) item" using items r(3) [OF item] by auto
    have "parsed_ok D b (if looking_at (buffer_skip_whitespace b2) (CHR '','') then parse_elements n (items @ [item]) (buffer_skip_whitespace b2)
      else if \<not> looking_at (buffer_skip_whitespace b2) (CHR '']'') then Some (None, buffer_skip_whitespace b2)
      else Some (Some (cJSON_Array (items @ [item])), close_bracket (buffer_skip_whitespace b2)))"
      using r(2,3) item b ok e in_loop_next [OF b]
      by (intro parse_round_step [OF _ _ _ _ _ refl]) (auto simp: in_loop_def elements_safe_def)
    then show ?thesis using True item r(1) by (simp add: allocate_one_def b1_eq Let_def)
  qed
qed

lemma members_step:
  assumes v: "values_safe n" and m: "members_safe n"
  shows "members_safe (Suc n)"
  unfolding members_safe_def
proof (intro allI impI, elim conjE)
  fix b D items
  assume b: "in_loop (Suc n) D b" and items: "\<forall>(name, item) \<in> set items. CHR 0x00 \<notin> set name \<and> json_ok (CJSON_NESTING_LIMIT - Suc D) item"
  let ?b0 = "b\<lparr>pb_allocations := pb_allocations b + 1\<rparr>"
  define b1 where "b1 = buffer_skip_whitespace (move (\<lambda>k. k + 1) ?b0)"
  have b1_eq: "buffer_skip_whitespace (move Suc (b\<lparr>pb_allocations := Suc (pb_allocations b)\<rparr>)) = b1" by (simp add: b1_def)
  have b1': "same_text b b1" "pb_offset b < pb_offset b1" "pb_depth b1 = Suc D" "can_access_at_index ?b0 1 \<Longrightarrow> pb_offset b1 < length (pb_content b1)"
    using skip_move [OF b1_def] b by (simp_all add: same_text_def in_loop_def can_access_at_index_def)
  show "parsed_ok D b (parse_members (Suc n) items b)"
  proof (cases "pb_allocate b (pb_allocations b) \<and> can_access_at_index ?b0 1")
    case False
    then show ?thesis by (auto simp: allocate_one_def same_text_def intro!: parsed_ok_failed)
  next
    case start: True
    obtain q b2 where q: "parse_string b1 = Some (q, b2)" "same_text b1 b2" "pb_depth b2 = pb_depth b1"
      "\<And>s. q = Some s \<Longrightarrow> pb_offset b1 < pb_offset b2 \<and> CHR 0x00 \<notin> set s"
      using parse_string_safe [OF b1'(4)] start by blast
    have t2: "same_text b b2" by (rule same_text_trans [OF b1'(1) q(2)])
    let ?b3 = "buffer_skip_whitespace b2"
    have t3: "same_text b ?b3" using t2 skip_whitespace(1) by (rule same_text_trans)
    show ?thesis
    proof (cases "q \<noteq> None \<and> looking_at ?b3 (CHR '':'')")
      case False
      then show ?thesis using q(1) t2 t3 start by (cases q) (simp_all add: allocate_one_def b1_eq Let_def parsed_ok_failed)
    next
      case True
      then obtain name where name: "q = Some name" by auto
      define b4 where "b4 = buffer_skip_whitespace (move (\<lambda>k. k + 1) ?b3)"
      have b4_eq: "buffer_skip_whitespace (move Suc ?b3) = b4" by (simp add: b4_def)
      have "same_text b b4" "pb_offset b < pb_offset b4" "pb_depth b4 = Suc D"
        using skip_move [OF b4_def] same_text_trans [OF t3] skip_whitespace(2,3) [of b2] b1'(2,3) q(3) q(4) [OF name] by simp_all
      then obtain r b5 where r: "parse_value n b4 = Some (r, b5)" "same_text b b5"
        "\<And>item. r = Some item \<Longrightarrow> pb_offset b < pb_offset b5 \<and> pb_offset b5 \<le> length (pb_content b) \<and> pb_depth b5 = Suc D \<and>
           json_ok (CJSON_NESTING_LIMIT - Suc D) item"
        using value_in_loop [OF v b] by blast
      show ?thesis
      proof (cases r)
        case None
        then show ?thesis using q(1) r(1,2) True name start
          by (simp add: allocate_one_def b1_eq b4_eq Let_def parsed_ok_failed)
      next
        case (Some item)
        have ok: "\<forall>(name, item) \<in> set (items @ [(name, item)]). CHR 0x00 \<notin> set name \<and> json_ok (CJSON_NESTING_LIMIT - Suc D) item"
          using items q(4) [OF name] r(3) [OF Some] by auto
        have "parsed_ok D b (if looking_at (buffer_skip_whitespace b5) (CHR '','') then parse_members n (items @ [(name, item)]) (buffer_skip_whitespace b5)
          else if \<not> looking_at (buffer_skip_whitespace b5) (CHR ''}'') then Some (None, buffer_skip_whitespace b5)
          else Some (Some (cJSON_Object (items @ [(name, item)])), close_bracket (buffer_skip_whitespace b5)))"
          using r(2,3) Some b ok m in_loop_next [OF b]
          by (intro parse_round_step [OF _ _ _ _ _ refl]) (auto simp: in_loop_def members_safe_def)
        then show ?thesis using True name q(1) r(1) Some start by (simp add: allocate_one_def b1_eq b4_eq Let_def)
      qed
    qed
  qed
qed

lemma array_step:
  assumes "elements_safe n" "3 * text_left b \<le> Suc n" "pb_offset b < length (pb_content b)"
  shows "parsed_ok (pb_depth b) b (parse_array (Suc n) b)"
proof (cases "pb_depth b < CJSON_NESTING_LIMIT \<and> at_offset b 0 = Some (CHR ''['')")
  case False
  moreover have "at_offset (deeper b) 0 = Some (pb_content b ! pb_offset b)" "at_offset b 0 = Some (pb_content b ! pb_offset b)"
    using assms(3) by (simp_all add: at_offset_def char_at_def deeper_def)
  ultimately show ?thesis by (auto simp: same_text_def deeper_def intro!: parsed_ok_failed)
next
  case True
  then have b: "pb_depth b < CJSON_NESTING_LIMIT" "at_offset (deeper b) 0 = Some (CHR ''['')" by (simp_all add: at_offset_def deeper_def)
  have loop: "parsed_ok (pb_depth b) b2 (parse_elements n [] b2)"
    if "same_text b b2" "pb_offset b \<le> pb_offset b2" "pb_offset b2 < length (pb_content b2)" "pb_depth b2 = Suc (pb_depth b)" for b2
  proof -
    have "in_loop n (pb_depth b) b2" using assms(2) that b(1) by (auto simp: in_loop_def text_left_def same_text_def)
    then show ?thesis using assms(1) unfolding elements_safe_def by fastforce
  qed
  have "parse_array (Suc n) b =
    (let b1 = buffer_skip_whitespace (move (\<lambda>k. k + 1) (deeper b)) in
     if looking_at b1 (CHR '']'') then Some (Some (cJSON_Array []), close_bracket b1)
     else if \<not> can_access_at_index b1 0 then Some (None, move (\<lambda>k. k - 1) b1) else parse_elements n [] (move (\<lambda>k. k - 1) b1))"
    using b by (simp add: Let_def)
  then show ?thesis unfolding Let_def by (simp only:) (rule parse_bracket_step [OF assms(3) b(1) refl _ loop], simp_all)
qed

lemma object_step:
  assumes "members_safe n" "3 * text_left b \<le> Suc n" "pb_offset b < length (pb_content b)"
  shows "parsed_ok (pb_depth b) b (parse_object (Suc n) b)"
proof (cases "pb_depth b < CJSON_NESTING_LIMIT \<and> looking_at (deeper b) (CHR ''{'')")
  case False
  then show ?thesis by (auto simp: same_text_def deeper_def Let_def intro!: parsed_ok_failed)
next
  case True
  then have b: "pb_depth b < CJSON_NESTING_LIMIT" "looking_at (deeper b) (CHR ''{'')" by simp_all
  have loop: "parsed_ok (pb_depth b) b2 (parse_members n [] b2)"
    if "same_text b b2" "pb_offset b \<le> pb_offset b2" "pb_offset b2 < length (pb_content b2)" "pb_depth b2 = Suc (pb_depth b)" for b2
  proof -
    have "in_loop n (pb_depth b) b2" using assms(2) that b(1) by (auto simp: in_loop_def text_left_def same_text_def)
    then show ?thesis using assms(1) unfolding members_safe_def by fastforce
  qed
  have "parse_object (Suc n) b =
    (let b1 = buffer_skip_whitespace (move (\<lambda>k. k + 1) (deeper b)) in
     if looking_at b1 (CHR ''}'') then Some (Some (cJSON_Object []), close_bracket b1)
     else if \<not> can_access_at_index b1 0 then Some (None, move (\<lambda>k. k - 1) b1) else parse_members n [] (move (\<lambda>k. k - 1) b1))"
    using b by (simp add: Let_def)
  then show ?thesis unfolding Let_def by (simp only:) (rule parse_bracket_step [OF assms(3) b(1) refl _ loop], simp_all)
qed

lemma parse_safe:
  "values_safe n \<and> elements_safe n \<and> members_safe n \<and>
   (\<forall>b. 3 * text_left b \<le> n \<and> pb_offset b < length (pb_content b) \<longrightarrow>
      parsed_ok (pb_depth b) b (parse_array n b) \<and> parsed_ok (pb_depth b) b (parse_object n b))"
proof (induction n)
  case 0
  then show ?case by (auto simp: values_safe_def elements_safe_def members_safe_def in_loop_def text_left_def)
next
  case (Suc n)
  then have IH: "values_safe n" "elements_safe n" "members_safe n" by simp_all
  have "values_safe (Suc n)" unfolding values_safe_def using Suc by (intro allI impI parse_value_step) auto
  then show ?case using elements_step [OF IH(1,2)] members_step [OF IH(1,3)] array_step [OF IH(2)] object_step [OF IH(3)] by blast
qed

lemma skip_bom: "same_text b (skip_utf8_bom b)" "pb_depth (skip_utf8_bom b) = pb_depth b"
  by (simp_all add: skip_utf8_bom_def same_text_def)


end
