(* ===== verification/Spec2Isabelle.thy ===== *)
theory Spec2Isabelle
  imports Stats Packet_Split Ring_Buffer Ratelimit Errorf Output_File Output_Gre Output_Vxlan Output_Zmq Recv_Zmq Config Outputs Pkt_Direction Reload_Progress Cjson_Parse
begin

text \<open>
  Verification of cloud-probe's packet worker (\<open>src/cpworker\<close>).

  \<^descr>[Parts] \<open>Stats\<close> models \<open>stats.c\<close>.

  Conventions: \<open>CP_Prelude\<close> models C's machine integers as words and buffers as
  byte lists with checked accesses.
\<close>

end
